(* ===== verification/Prelude.thy ===== *)
theory Prelude
  imports "HOL-Library.Word"
begin

text \<open>
  Shared vocabulary of the development: machine integers, the faults a C++ function of minihttpd can
  end in, memory cells and C pointers into them, the C library string functions the sources call, and
  the weakest-precondition style predicate \<open>returns\<close> with its rules (collection \<open>returns_rules\<close>),
  on which the component proofs rest.
\<close>

section \<open>Integers, faults and results\<close>

type_synonym u32 = "32 word"

text \<open>
  Every model function that can fail returns \<open>Inl\<close> of a fault: a failed \<open>assert\<close>, the use of a null
  pointer, an access outside an allocated block, a read of memory nobody has written, the use of a
  freed object, an overflow of a signed integer, or a loop that does not end.
\<close>

datatype fault =
    AssertFailed
  | NullDeref
  | OutOfBounds
  | Uninitialised
  | UseAfterFree
  | SignedOverflow
  | Diverges

text \<open>Sequencing: the first fault ends the function.\<close>

fun andthen :: "fault + 'a \<Rightarrow> ('a \<Rightarrow> fault + 'b) \<Rightarrow> fault + 'b" where
  "andthen (Inl e) f = Inl e"
| "andthen (Inr x) f = f x"

text \<open>\<open>returns m P\<close>: \<open>m\<close> ends without a fault and its result satisfies \<open>P\<close>.\<close>

definition returns :: "fault + 'a \<Rightarrow> ('a \<Rightarrow> bool) \<Rightarrow> bool" where
  "returns m P \<longleftrightarrow> (case m of Inl _ \<Rightarrow> False | Inr x \<Rightarrow> P x)"

named_theorems returns_rules \<open>specifications of operations, as rules for the predicate returns\<close>

lemma returns_Inr [simp]: "returns (Inr x) P \<longleftrightarrow> P x"
  by (simp add: returns_def)

lemma returns_Inl [simp]: "\<not> returns (Inl e) P"
  by (simp add: returns_def)

lemma returns_andthen [simp]: "returns (andthen m f) P \<longleftrightarrow> returns m (\<lambda>x. returns (f x) P)"
  by (cases m) simp_all

lemma returns_iff: "returns m P \<longleftrightarrow> (\<exists>x. m = Inr x \<and> P x)"
  by (cases m) simp_all

lemma returns_mono: "returns m P \<Longrightarrow> (\<And>x. P x \<Longrightarrow> Q x) \<Longrightarrow> returns m Q"
  by (cases m) simp_all

lemma returns_conj: "returns m P \<Longrightarrow> returns m Q \<Longrightarrow> returns m (\<lambda>x. P x \<and> Q x)"
  by (cases m) simp_all

lemma returns_obtain:
  assumes "returns m P"
  obtains x where "m = Inr x" and "P x"
  using assms by (auto simp: returns_iff)

text \<open>
  \<open>ensures m P\<close>: the result of \<open>m\<close>, if it has one, satisfies \<open>P\<close>. It serves for what holds of every run that
  does not end in a fault.
\<close>

definition ensures :: "fault + 'a \<Rightarrow> ('a \<Rightarrow> bool) \<Rightarrow> bool" where
  "ensures m P \<longleftrightarrow> (\<forall>x. m = Inr x \<longrightarrow> P x)"

lemma ensures_simps [simp]:
  "ensures (Inr x) P \<longleftrightarrow> P x" "ensures (Inl e) P"
  "ensures (andthen m f) P \<longleftrightarrow> ensures m (\<lambda>x. ensures (f x) P)" "ensures m (\<lambda>x. True)"
  by (cases m; auto simp: ensures_def)+

lemma ensuresI: "(\<And>x. m = Inr x \<Longrightarrow> P x) \<Longrightarrow> ensures m P"
  by (simp add: ensures_def)

lemma ensuresD: "ensures m P \<Longrightarrow> m = Inr x \<Longrightarrow> P x"
  by (simp add: ensures_def)

lemma ensures_any: "(\<And>x. P x) \<Longrightarrow> ensures m P"
  by (simp add: ensures_def)

lemma ensures_mono: "ensures m P \<Longrightarrow> (\<And>x. P x \<Longrightarrow> Q x) \<Longrightarrow> ensures m Q"
  by (simp add: ensures_def)

lemma returns_ensures: "returns m P \<Longrightarrow> ensures m P"
  by (cases m) simp_all

lemma andthen_Inr_iff: "andthen m f = Inr y \<longleftrightarrow> (\<exists>x. m = Inr x \<and> f x = Inr y)"
  by (cases m) simp_all

lemma andthen_Inl_iff: "andthen m f = Inl e \<longleftrightarrow> m = Inl e \<or> (\<exists>x. m = Inr x \<and> f x = Inl e)"
  by (cases m) auto

lemma andthen_cong [fundef_cong]:
  "m = m' \<Longrightarrow> (\<And>x. m' = Inr x \<Longrightarrow> f x = f' x) \<Longrightarrow> andthen m f = andthen m' f'"
  by (cases m') simp_all

section \<open>Memory cells and C pointers\<close>

text \<open>
  A cell is a byte, or \<open>None\<close> when nothing has been written to it since it was allocated. A C pointer
  to bytes is \<open>None\<close> for \<open>NULL\<close>, or the cells from the byte it points at to the end of its block.
\<close>

type_synonym cell = "char option"
type_synonym cptr = "cell list option"

abbreviation NUL :: char where "NUL \<equiv> CHR 0x00"
abbreviation CR :: char where "CR \<equiv> CHR 0x0D"
abbreviation LF :: char where "LF \<equiv> CHR 0x0A"

text \<open>A C string literal: its bytes and the terminating NUL.\<close>

definition lit :: "string \<Rightarrow> cptr" where
  "lit s = Some (map Some s @ [Some NUL])"

text \<open>The bytes of a NUL-terminated string, as \<open>strlen\<close> and \<open>strcmp\<close> walk them.\<close>

fun cstr_cells :: "cell list \<Rightarrow> fault + string" where
  "cstr_cells [] = Inl OutOfBounds"
| "cstr_cells (None # cs) = Inl Uninitialised"
| "cstr_cells (Some c # cs) =
     (if c = NUL then Inr [] else andthen (cstr_cells cs) (\<lambda>s. Inr (c # s)))"

fun cstr :: "cptr \<Rightarrow> fault + string" where
  "cstr None = Inl NullDeref"
| "cstr (Some cs) = cstr_cells cs"

text \<open>The source side and the destination side of \<open>memcpy\<close>.\<close>

fun read_cells :: "cptr \<Rightarrow> nat \<Rightarrow> fault + cell list" where
  "read_cells None n = (if n = 0 then Inr [] else Inl NullDeref)"
| "read_cells (Some cs) n = (if n \<le> length cs then Inr (take n cs) else Inl OutOfBounds)"

fun write_cells :: "cptr \<Rightarrow> nat \<Rightarrow> cell list \<Rightarrow> fault + cptr" where
  "write_cells None off xs = (if xs = [] then Inr None else Inl NullDeref)"
| "write_cells (Some cs) off xs =
     (if off + length xs \<le> length cs
      then Inr (Some (take off cs @ xs @ drop (off + length xs) cs)) else Inl OutOfBounds)"

text \<open>A single byte read through a pointer, \<open>p[i]\<close>.\<close>

fun peek :: "cptr \<Rightarrow> nat \<Rightarrow> fault + char" where
  "peek None i = Inl NullDeref"
| "peek (Some cs) i =
     (if i < length cs then (case cs ! i of None \<Rightarrow> Inl Uninitialised | Some c \<Rightarrow> Inr c)
      else Inl OutOfBounds)"

text \<open>Pointer arithmetic \<open>p + i\<close>.\<close>

definition advance :: "cptr \<Rightarrow> nat \<Rightarrow> cptr" where
  "advance p i = map_option (drop i) p"

definition malloc_cells :: "nat \<Rightarrow> cptr" where
  "malloc_cells n = Some (replicate n None)"

definition realloc_cells :: "cptr \<Rightarrow> nat \<Rightarrow> cptr" where
  "realloc_cells p n =
     (case p of None \<Rightarrow> malloc_cells n
      | Some cs \<Rightarrow> Some (take n cs @ replicate (n - length cs) None))"

text \<open>\<open>points_to p s\<close>: \<open>p\<close> points at the NUL-terminated string \<open>s\<close>.\<close>

definition points_to :: "cptr \<Rightarrow> string \<Rightarrow> bool" where
  "points_to p s \<longleftrightarrow> NUL \<notin> set s \<and> (\<exists>rest. p = Some (map Some s @ Some NUL # rest))"

lemma cstr_cells_string:
  "NUL \<notin> set s \<Longrightarrow> cstr_cells (map Some s @ Some NUL # rest) = Inr s"
  by (induction s) auto

lemma cstr_points_to [simp]: "points_to p s \<Longrightarrow> cstr p = Inr s"
  by (auto simp: points_to_def cstr_cells_string)

lemma points_to_lit [simp, intro]: "NUL \<notin> set s \<Longrightarrow> points_to (lit s) s"
  by (auto simp: points_to_def lit_def)

lemma points_to_not_None: "points_to p s \<Longrightarrow> p \<noteq> None"
  by (auto simp: points_to_def)

lemma takeWhile_stop: "\<forall>c \<in> set xs. P c \<Longrightarrow> \<not> P y \<Longrightarrow> takeWhile P (xs @ y # ys) = xs"
  by (induction xs) auto

section \<open>Machine arithmetic without wrap-around\<close>

lemma unat_add_u32:
  "unat (a :: u32) + unat b < 2 ^ 32 \<Longrightarrow> unat (a + b) = unat a + unat b"
  by (simp add: unat_add_lem [THEN iffD1])

lemma unat_of_nat_u32: "n < 2 ^ 32 \<Longrightarrow> unat (of_nat n :: u32) = n"
  by (simp add: unat_of_nat take_bit_nat_eq_self)

lemma of_nat_eq_u32I: "unat (x :: u32) = n \<Longrightarrow> x = of_nat n"
  by auto

lemma unat_sub_u32: "b \<le> a \<Longrightarrow> unat (a - b :: u32) = unat a - unat b"
  by (simp add: unat_sub)

lemma unat_u32_lt: "unat (x :: u32) < 2 ^ 32"
  using unsigned_less [where ?'a = nat and w = x] by simp

lemma unat_pred_u32: "unat u = Suc n \<Longrightarrow> unat (u - 1 :: u32) = n"
  by (cases "u = 0") (simp_all add: unat_minus_one)

lemma u32_pos_iff: "(0 :: u32) < x \<longleftrightarrow> 0 < unat x"
  by (simp add: word_less_nat_alt)

lemma unat_eq_0_iff: "x = (0 :: u32) \<longleftrightarrow> unat x = 0"
  by (simp add: unat_eq_zero)

end
