(* ===== verification/Buffer.thy ===== *)
theory Buffer
  imports Prelude
begin

text \<open>
  The growable byte buffer of \<open>src/buffer.h\<close> and \<open>src/buffer.cpp\<close>. The record keeps the three C
  fields (the field \<open>size\<close> is called \<open>buf_size\<close> here); sizes stay 32-bit words, so the additions that
  can wrap around do wrap. Allocation is assumed to succeed, as the code assumes. The destination of
  a copy never overlaps its source, as at every call of the program.
  \<open>buffer_holds b s\<close> is the contract: \<open>b\<close> is well formed and its string is \<open>s\<close>.
\<close>

section \<open>The C code\<close>

record buffer =
  ptr :: cptr
  used_bytes :: u32
  buf_size :: u32

definition buffer_init :: buffer where
  "buffer_init = \<lparr>ptr = None, used_bytes = 0, buf_size = 0\<rparr>"

definition buffer_reset :: "buffer \<Rightarrow> buffer" where
  "buffer_reset b = b\<lparr>ptr := None, used_bytes := 0, buf_size := 0\<rparr>"

definition buffer_string_length :: "buffer \<Rightarrow> u32" where
  "buffer_string_length b = (if 0 < used_bytes b then used_bytes b - 1 else 0)"

definition buffer_remaining_bytes :: "buffer \<Rightarrow> u32" where
  "buffer_remaining_bytes b =
     (if 0 < used_bytes b then buf_size b - used_bytes b else buf_size b)"

definition buffer_align_size :: "u32 \<Rightarrow> u32" where
  "buffer_align_size sizes = ((sizes + 64 - 1) div 64) * 64"

definition buffer_alloc_size :: "buffer \<Rightarrow> u32 \<Rightarrow> buffer" where
  "buffer_alloc_size b sizes0 =
     (let sizes = (if sizes0 = 0 then 1 else sizes0)
      in if sizes \<le> buf_size b then b
         else let align_sizes = buffer_align_size sizes
              in b\<lparr>ptr := malloc_cells (unat align_sizes), used_bytes := 0, buf_size := align_sizes\<rparr>)"

text \<open>The statement \<open>b->ptr[b->used_bytes-1]='\0'\<close> that ends most operations.\<close>

definition buffer_set_nul :: "buffer \<Rightarrow> fault + buffer" where
  "buffer_set_nul b =
     andthen (write_cells (ptr b) (unat (used_bytes b - 1)) [Some NUL]) (\<lambda>p. Inr (b\<lparr>ptr := p\<rparr>))"

definition buffer_copy_string_length :: "buffer \<Rightarrow> cptr \<Rightarrow> u32 \<Rightarrow> fault + buffer" where
  "buffer_copy_string_length b src len =
     (if src = None then Inl AssertFailed
      else let b1 = buffer_alloc_size b (len + 1)
           in andthen (read_cells src (unat len)) (\<lambda>xs.
              andthen (write_cells (ptr b1) 0 xs) (\<lambda>p.
              buffer_set_nul (b1\<lparr>ptr := p, used_bytes := len + 1\<rparr>))))"

definition buffer_copy_string :: "buffer \<Rightarrow> cptr \<Rightarrow> fault + buffer" where
  "buffer_copy_string b src =
     andthen (cstr src) (\<lambda>s. buffer_copy_string_length b src (of_nat (length s)))"

definition buffer_is_empty :: "buffer \<Rightarrow> bool" where
  "buffer_is_empty b \<longleftrightarrow> \<not> 0 < used_bytes b"

definition buffer_append_prepare_sizes :: "buffer \<Rightarrow> u32 \<Rightarrow> buffer" where
  "buffer_append_prepare_sizes b sizes =
     (if buffer_remaining_bytes b < sizes
      then let req_sizes = buffer_align_size (used_bytes b + sizes)
           in b\<lparr>ptr := realloc_cells (ptr b) (unat req_sizes), buf_size := req_sizes\<rparr>
      else b)"

definition buffer_append_string_length :: "buffer \<Rightarrow> cptr \<Rightarrow> u32 \<Rightarrow> fault + buffer" where
  "buffer_append_string_length b str len =
     (if str = None then Inl AssertFailed
      else if len = 0 then Inr b
      else let b1 = buffer_append_prepare_sizes b (len + 1)
           in andthen (read_cells str (unat len)) (\<lambda>xs.
              if buffer_string_length b1 = 0
              then andthen (write_cells (ptr b1) 0 xs) (\<lambda>p.
                   buffer_set_nul (b1\<lparr>ptr := p, used_bytes := len + 1\<rparr>))
              else andthen (write_cells (ptr b1) (unat (used_bytes b1 - 1)) xs) (\<lambda>p.
                   buffer_set_nul (b1\<lparr>ptr := p, used_bytes := used_bytes b1 + len\<rparr>))))"

definition buffer_append_string :: "buffer \<Rightarrow> cptr \<Rightarrow> fault + buffer" where
  "buffer_append_string b str =
     andthen (cstr str) (\<lambda>s. buffer_append_string_length b str (of_nat (length s)))"

definition buffer_append_buffer :: "buffer \<Rightarrow> buffer \<Rightarrow> fault + buffer" where
  "buffer_append_buffer b src =
     (let b1 = buffer_append_prepare_sizes b (used_bytes src)
      in andthen (read_cells (ptr src) (unat (used_bytes src - 1))) (\<lambda>xs.
         if buffer_is_empty b1
         then andthen (write_cells (ptr b1) 0 xs) (\<lambda>p.
              buffer_set_nul (b1\<lparr>ptr := p, used_bytes := used_bytes src\<rparr>))
         else andthen (write_cells (ptr b1) (unat (used_bytes b1 - 1)) xs) (\<lambda>p.
              buffer_set_nul (b1\<lparr>ptr := p, used_bytes := used_bytes b1 + (used_bytes src - 1)\<rparr>))))"

definition buffer_copy_buffer :: "buffer \<Rightarrow> buffer \<Rightarrow> fault + buffer" where
  "buffer_copy_buffer des src = buffer_copy_string_length des (ptr src) (buffer_string_length src)"

definition buffer_string_set_length :: "buffer \<Rightarrow> u32 \<Rightarrow> fault + buffer" where
  "buffer_string_set_length b len =
     (let b1 = (if buf_size b < len + 1
                then let aligned_sizes = buffer_align_size (len + 1)
                     in b\<lparr>ptr := realloc_cells (ptr b) (unat aligned_sizes), buf_size := aligned_sizes\<rparr>
                else b)
      in buffer_set_nul (b1\<lparr>used_bytes := len + 1\<rparr>))"

section \<open>The contract of a buffer\<close>

text \<open>
  The block has the recorded size, and a used buffer starts with the bytes of its string and a NUL
  (the string may hold NUL bytes of its own: buffers also carry data read from the network).
\<close>

definition buffer_holds :: "buffer \<Rightarrow> string \<Rightarrow> bool" where
  "buffer_holds b s \<longleftrightarrow>
     (case ptr b of
        None \<Rightarrow> used_bytes b = 0 \<and> buf_size b = 0 \<and> s = []
      | Some cs \<Rightarrow> length cs = unat (buf_size b) \<and>
          (if used_bytes b = 0 then s = []
           else unat (used_bytes b) = Suc (length s) \<and>
                take (Suc (length s)) cs = map Some s @ [Some NUL]))"

text \<open>A pointer to at least the bytes \<open>s\<close>, as \<open>memcpy\<close> needs it.\<close>

definition provides :: "cptr \<Rightarrow> string \<Rightarrow> bool" where
  "provides p s \<longleftrightarrow> (case p of None \<Rightarrow> False | Some cs \<Rightarrow> take (length s) cs = map Some s)"

text \<open>The largest string a buffer can take without its 32-bit size arithmetic wrapping around.\<close>

abbreviation buffer_max :: nat where "buffer_max \<equiv> 2 ^ 32 - 65"

section \<open>Sizes\<close>

lemma buffer_align_size_unat:
  assumes "unat n + 63 < 2 ^ 32"
  shows "unat (buffer_align_size n) = (unat n + 63) div 64 * 64"
proof -
  have sum: "unat (n + 63) = unat n + 63"
    using assms by (subst unat_add_u32) simp_all
  have eq: "n + 64 - 1 = n + 63" by simp
  have "unat ((n + 63) div 64) = (unat n + 63) div 64"
    by (simp add: unat_div sum)
  moreover have "(unat n + 63) div 64 * 64 < 2 ^ 32"
    using assms div_times_less_eq_dividend [of "unat n + 63" 64] by linarith
  ultimately show ?thesis
    by (simp add: buffer_align_size_def eq unat_word_ariths)
qed

lemma buffer_align_size_bounds:
  assumes "unat n + 63 < 2 ^ 32"
  shows "unat n \<le> unat (buffer_align_size n)" and "unat (buffer_align_size n) < unat n + 64"
    and "64 dvd unat (buffer_align_size n)"
proof -
  show "unat n \<le> unat (buffer_align_size n)" and "unat (buffer_align_size n) < unat n + 64"
    unfolding buffer_align_size_unat [OF assms] by arith+
  show "64 dvd unat (buffer_align_size n)"
    unfolding buffer_align_size_unat [OF assms] by simp
qed

section \<open>Memory blocks\<close>

lemma provides_iff: "provides p s \<longleftrightarrow> (\<exists>rest. p = Some (map Some s @ rest))"
proof (cases p)
  case (Some cs)
  have "cs = map Some s @ drop (length s) cs" if "take (length s) cs = map Some s"
    using that append_take_drop_id [of "length s" cs] by simp
  with Some show ?thesis by (auto simp: provides_def)
qed (simp add: provides_def)

lemma provides_points_to: "points_to p s \<Longrightarrow> provides p s"
  by (auto simp: points_to_def provides_iff)

lemma provides_not_None: "provides p s \<Longrightarrow> p \<noteq> None"
  by (auto simp: provides_iff)

lemma read_cells_provides [returns_rules]:
  "provides p s \<Longrightarrow> returns (read_cells p (length s)) (\<lambda>xs. xs = map Some s)"
  by (auto simp: provides_iff)

lemma provides_prefix: "provides p (s @ t) \<Longrightarrow> provides p s"
  by (auto simp: provides_iff)

lemma buffer_holds_block: "buffer_holds b s \<Longrightarrow> ptr b = Some cs \<Longrightarrow> length cs = unat (buf_size b)"
  by (simp add: buffer_holds_def)

lemma buffer_holds_used_le: "buffer_holds b s \<Longrightarrow> unat (used_bytes b) \<le> unat (buf_size b)"
  by (auto simp: buffer_holds_def split: option.splits if_splits dest!: arg_cong [where f = length])

lemma buffer_holds_used:
  "buffer_holds b s \<Longrightarrow> used_bytes b \<noteq> 0 \<Longrightarrow> unat (used_bytes b) = Suc (length s)"
  by (auto simp: buffer_holds_def split: option.splits)

lemma buffer_holds_empty: "buffer_holds b s \<Longrightarrow> used_bytes b = 0 \<Longrightarrow> s = []"
  by (auto simp: buffer_holds_def split: option.splits)

lemma buffer_string_length_holds:
  "buffer_holds b s \<Longrightarrow> unat (buffer_string_length b) = length s"
  by (cases "used_bytes b = 0")
    (simp_all add: buffer_string_length_def buffer_holds_empty buffer_holds_used word_gt_0 unat_minus_one)

lemma buffer_holds_unique: "buffer_holds b s \<Longrightarrow> buffer_holds b t \<Longrightarrow> s = t"
  by (auto simp: buffer_holds_def inj_map_eq_map split: option.splits if_splits)

lemma buffer_holds_provides:
  "buffer_holds b s \<Longrightarrow> used_bytes b \<noteq> 0 \<Longrightarrow> provides (ptr b) s"
  by (auto simp: buffer_holds_def provides_def split: option.splits
      dest: arg_cong [where f = "take (length s)"])

lemma buffer_holds_points_to:
  assumes "buffer_holds b s" and "used_bytes b \<noteq> 0" and "NUL \<notin> set s"
  shows "points_to (ptr b) s"
proof -
  from assms obtain cs where cs: "ptr b = Some cs" "take (Suc (length s)) cs = map Some s @ [Some NUL]"
    by (auto simp: buffer_holds_def split: option.splits)
  then have "cs = map Some s @ Some NUL # drop (Suc (length s)) cs"
    by (metis append_take_drop_id append.assoc append_Cons append_Nil)
  with cs assms(3) show ?thesis by (auto simp: points_to_def)
qed

lemma buffer_init_holds [simp]: "buffer_holds buffer_init []"
  by (simp add: buffer_holds_def buffer_init_def)

lemma buffer_reset_holds [simp]: "buffer_holds (buffer_reset b) []"
  by (simp add: buffer_holds_def buffer_reset_def)

section \<open>What the operations do\<close>

text \<open>Every copying operation ends by storing bytes behind a prefix and terminating them.\<close>

lemma buffer_store_holds [returns_rules]:
  assumes "ptr b = Some cs" and "length cs = unat (buf_size b)" and "take (length s) cs = map Some s"
    and "length s + length t < unat (buf_size b)" and "unat u = Suc (length s + length t)"
  shows "returns (andthen (write_cells (ptr b) (length s) (map Some t))
           (\<lambda>p. buffer_set_nul (b\<lparr>ptr := p, used_bytes := u\<rparr>)))
           (\<lambda>b'. buffer_holds b' (s @ t) \<and> used_bytes b' = u \<and> buf_size b' = buf_size b)"
proof -
  have u: "u \<noteq> 0" and u1: "unat (u - 1) = length s + length t"
    using assms(5) by (auto intro: unat_pred_u32)
  have len: "length cs > length s + length t" using assms by simp
  then show ?thesis
    using assms u by (simp add: buffer_set_nul_def buffer_holds_def u1 min_def)
qed

lemma buffer_alloc_size_block:
  assumes "buffer_holds b s" and "unat n + 64 \<le> 2 ^ 32"
  shows "\<exists>cs. ptr (buffer_alloc_size b n) = Some cs \<and> length cs = unat (buf_size (buffer_alloc_size b n))"
    and "unat n \<le> unat (buf_size (buffer_alloc_size b n))"
    and "0 < unat (buf_size (buffer_alloc_size b n))"
proof -
  let ?n = "if n = 0 then 1 else n :: u32"
  have n: "unat ?n + 63 < 2 ^ 32" "unat n \<le> unat ?n" "0 < unat ?n"
    using assms(2) by (auto simp: unat_gt_0)
  show "\<exists>cs. ptr (buffer_alloc_size b n) = Some cs \<and> length cs = unat (buf_size (buffer_alloc_size b n))"
  proof (cases "?n \<le> buf_size b")
    case True
    then have "buf_size b \<noteq> 0" using n(3) by (auto simp: word_le_nat_alt split: if_splits)
    with True assms(1) show ?thesis
      by (auto simp: buffer_alloc_size_def Let_def buffer_holds_def split: option.splits)
  next
    case False
    then show ?thesis by (auto simp: buffer_alloc_size_def Let_def malloc_cells_def)
  qed
  have "unat ?n \<le> unat (buf_size (buffer_alloc_size b n))"
    using buffer_align_size_bounds(1) [OF n(1)]
    by (auto simp: buffer_alloc_size_def Let_def word_le_nat_alt split: if_splits)
  with n show "unat n \<le> unat (buf_size (buffer_alloc_size b n))"
    and "0 < unat (buf_size (buffer_alloc_size b n))" by linarith+
qed

lemma buffer_alloc_size_fits: "0 < n \<Longrightarrow> n \<le> buf_size b \<Longrightarrow> buffer_alloc_size b n = b"
  by (simp add: buffer_alloc_size_def)

lemma buffer_alloc_size_holds:
  "buffer_holds b s \<Longrightarrow> used_bytes b = 0 \<Longrightarrow> buffer_holds (buffer_alloc_size b n) []"
  by (auto simp: buffer_alloc_size_def Let_def buffer_holds_def malloc_cells_def split: option.splits)

lemma buffer_copy_string_length_holds [returns_rules]:
  assumes "buffer_holds b old" and "provides p s" and "length s < buffer_max"
  shows "returns (buffer_copy_string_length b p (of_nat (length s)))
           (\<lambda>b'. buffer_holds b' s \<and> unat (used_bytes b') = Suc (length s))"
proof -
  let ?len = "of_nat (length s) :: u32"
  let ?b1 = "buffer_alloc_size b (?len + 1)"
  have len: "unat ?len = length s" and len1: "unat (?len + 1) = Suc (length s)"
    using assms(3) by (simp_all add: unat_of_nat_u32 unat_add_u32)
  have bound: "unat (?len + 1) + 64 \<le> 2 ^ 32" using assms(3) len1 by simp
  note blk = buffer_alloc_size_block [OF assms(1) bound]
  obtain cs where cs: "ptr ?b1 = Some cs" "length cs = unat (buf_size ?b1)" using blk(1) by blast
  have "returns (andthen (write_cells (ptr ?b1) (length ([] :: string)) (map Some s))
          (\<lambda>p. buffer_set_nul (?b1\<lparr>ptr := p, used_bytes := ?len + 1\<rparr>)))
          (\<lambda>b'. buffer_holds b' ([] @ s) \<and> used_bytes b' = ?len + 1 \<and> buf_size b' = buf_size ?b1)"
    by (rule buffer_store_holds [OF cs]) (use blk(2) len1 in simp_all)
  then have store: "returns (andthen (write_cells (ptr ?b1) 0 (map Some s))
          (\<lambda>p. buffer_set_nul (?b1\<lparr>ptr := p, used_bytes := ?len + 1\<rparr>)))
          (\<lambda>b'. buffer_holds b' s \<and> unat (used_bytes b') = Suc (length s))"
    by (auto simp: returns_iff len1)
  from assms(2) have "read_cells p (length s) = Inr (map Some s)"
    using read_cells_provides by (auto simp: returns_iff)
  with store show ?thesis
    using provides_not_None [OF assms(2)] by (simp add: buffer_copy_string_length_def len Let_def)
qed

lemma buffer_append_prepare_sizes_holds:
  assumes "buffer_holds b s" and "unat (used_bytes b) + unat n + 63 < 2 ^ 32"
  shows "buffer_holds (buffer_append_prepare_sizes b n) s"
    and "used_bytes (buffer_append_prepare_sizes b n) = used_bytes b"
    and "unat (used_bytes b) + unat n \<le> unat (buf_size (buffer_append_prepare_sizes b n))"
proof -
  have used: "unat (used_bytes b) \<le> unat (buf_size b)" by (rule buffer_holds_used_le [OF assms(1)])
  then have rem: "unat (buffer_remaining_bytes b) = unat (buf_size b) - unat (used_bytes b)"
    by (auto simp: buffer_remaining_bytes_def unat_sub_u32 word_le_nat_alt word_gt_0)
  have req: "unat (used_bytes b + n) = unat (used_bytes b) + unat n"
    using assms(2) by (intro unat_add_u32) simp
  then have al: "unat (used_bytes b) + unat n \<le> unat (buffer_align_size (used_bytes b + n))"
    using buffer_align_size_bounds(1) [of "used_bytes b + n"] assms(2) by simp
  show "used_bytes (buffer_append_prepare_sizes b n) = used_bytes b"
    by (simp add: buffer_append_prepare_sizes_def Let_def)
  show "unat (used_bytes b) + unat n \<le> unat (buf_size (buffer_append_prepare_sizes b n))"
    using al rem used by (auto simp: buffer_append_prepare_sizes_def Let_def word_less_nat_alt)
  show "buffer_holds (buffer_append_prepare_sizes b n) s"
  proof (cases "buffer_remaining_bytes b < n")
    case True
    have "length s < unat (used_bytes b)" if "used_bytes b \<noteq> 0"
      using buffer_holds_used [OF assms(1) that] by simp
    with True assms(1) al used show ?thesis
      by (auto simp: buffer_append_prepare_sizes_def buffer_holds_def Let_def realloc_cells_def
          malloc_cells_def min_def split: option.splits if_splits)
  next
    case False
    with assms(1) show ?thesis by (simp add: buffer_append_prepare_sizes_def)
  qed
qed

lemma buffer_append_string_length_holds [returns_rules]:
  assumes "buffer_holds b s" and "provides p t" and "length s + length t < buffer_max"
  shows "returns (buffer_append_string_length b p (of_nat (length t))) (\<lambda>b'. buffer_holds b' (s @ t))"
proof (cases "t = []")
  case True
  with assms(1) provides_not_None [OF assms(2)] show ?thesis
    by (simp add: buffer_append_string_length_def)
next
  case False
  let ?len = "of_nat (length t) :: u32"
  let ?b1 = "buffer_append_prepare_sizes b (?len + 1)"
  have len: "unat ?len = length t" and len1: "unat (?len + 1) = Suc (length t)"
    using assms(3) by (simp_all add: unat_of_nat_u32 unat_add_u32)
  have nz: "?len \<noteq> 0" using False len by auto
  have used: "unat (used_bytes b) \<le> Suc (length s)"
    using buffer_holds_used [OF assms(1)] by (cases "used_bytes b = 0") auto
  then have bound: "unat (used_bytes b) + unat (?len + 1) + 63 < 2 ^ 32"
    using assms(3) len1 by simp
  note prep = buffer_append_prepare_sizes_holds [OF assms(1) bound]
  have size: "buf_size ?b1 \<noteq> 0" using prep(3) len1 by auto
  then obtain cs where cs: "ptr ?b1 = Some cs" and lcs: "length cs = unat (buf_size ?b1)"
    using prep(1) by (auto simp: buffer_holds_def split: option.splits)
  have pre: "take (length s) cs = map Some s"
  proof (cases "used_bytes ?b1 = 0")
    case True
    with buffer_holds_empty [OF prep(1)] show ?thesis by simp
  next
    case False
    from buffer_holds_provides [OF prep(1) False] show ?thesis by (simp add: provides_def cs)
  qed
  have fits: "length s + length t < unat (buf_size ?b1)"
    using prep(3) len1 buffer_holds_used [OF assms(1)] buffer_holds_empty [OF assms(1)]
    by (cases "used_bytes b = 0") auto
  have rd: "read_cells p (length t) = Inr (map Some t)"
    using read_cells_provides [OF assms(2)] by (auto simp: returns_iff)
  have strlen: "unat (buffer_string_length ?b1) = length s"
    by (rule buffer_string_length_holds [OF prep(1)])
  show ?thesis
  proof (cases "buffer_string_length ?b1 = 0")
    case True
    then have "s = []" using strlen by simp
    with buffer_store_holds [OF cs lcs pre fits, of "?len + 1"] True show ?thesis
      using nz provides_not_None [OF assms(2)] len1
      by (auto simp: buffer_append_string_length_def Let_def len rd returns_iff)
  next
    case False
    then have nz1: "used_bytes ?b1 \<noteq> 0" by (auto simp: buffer_string_length_def)
    have u: "unat (used_bytes ?b1) = Suc (length s)" by (rule buffer_holds_used [OF prep(1) nz1])
    then have u1: "unat (used_bytes ?b1 - 1) = length s" by (rule unat_pred_u32)
    have "unat (used_bytes ?b1 + ?len) = Suc (length s + length t)"
      using u len assms(3) by (subst unat_add_u32) simp_all
    with buffer_store_holds [OF cs lcs pre fits, of "used_bytes ?b1 + ?len"] False show ?thesis
      using nz provides_not_None [OF assms(2)]
      by (auto simp: buffer_append_string_length_def Let_def len rd u1 returns_iff)
  qed
qed

lemma buffer_append_string_holds [returns_rules]:
  "buffer_holds b s \<Longrightarrow> points_to p t \<Longrightarrow> length s + length t < buffer_max \<Longrightarrow>
   returns (buffer_append_string b p) (\<lambda>b'. buffer_holds b' (s @ t))"
  by (simp add: buffer_append_string_def buffer_append_string_length_holds provides_points_to)

lemma buffer_copy_string_holds [returns_rules]:
  "buffer_holds b old \<Longrightarrow> points_to p s \<Longrightarrow> length s < buffer_max \<Longrightarrow>
   returns (buffer_copy_string b p)
     (\<lambda>b'. buffer_holds b' s \<and> unat (used_bytes b') = Suc (length s))"
  by (simp add: buffer_copy_string_def buffer_copy_string_length_holds provides_points_to)

lemma buffer_copy_buffer_holds [returns_rules]:
  assumes "buffer_holds des old" and "buffer_holds src s" and "ptr src \<noteq> None"
    and "length s < buffer_max"
  shows "returns (buffer_copy_buffer des src)
           (\<lambda>b'. buffer_holds b' s \<and> unat (used_bytes b') = Suc (length s))"
proof -
  have "buffer_string_length src = of_nat (length s)"
    using buffer_string_length_holds [OF assms(2)] by (rule of_nat_eq_u32I)
  moreover have "provides (ptr src) s"
    using assms(2,3) buffer_holds_provides [OF assms(2)] buffer_holds_empty [OF assms(2)]
    by (cases "used_bytes src = 0") (auto simp: provides_def)
  ultimately show ?thesis
    using buffer_copy_string_length_holds [OF assms(1) _ assms(4)]
    by (simp add: buffer_copy_buffer_def)
qed

lemma buffer_append_buffer_holds [returns_rules]:
  assumes "buffer_holds b s" and "buffer_holds src t" and "used_bytes src \<noteq> 0"
    and "length s + length t < buffer_max"
  shows "returns (buffer_append_buffer b src) (\<lambda>b'. buffer_holds b' (s @ t))"
proof -
  let ?b1 = "buffer_append_prepare_sizes b (used_bytes src)"
  have ut: "unat (used_bytes src) = Suc (length t)" by (rule buffer_holds_used [OF assms(2,3)])
  then have ut1: "unat (used_bytes src - 1) = length t" by (rule unat_pred_u32)
  have used: "unat (used_bytes b) \<le> Suc (length s)"
    using buffer_holds_used [OF assms(1)] by (cases "used_bytes b = 0") auto
  then have bound: "unat (used_bytes b) + unat (used_bytes src) + 63 < 2 ^ 32"
    using assms(4) ut by simp
  note prep = buffer_append_prepare_sizes_holds [OF assms(1) bound]
  have "buf_size ?b1 \<noteq> 0" using prep(3) ut by auto
  then obtain cs where cs: "ptr ?b1 = Some cs" and lcs: "length cs = unat (buf_size ?b1)"
    using prep(1) by (auto simp: buffer_holds_def split: option.splits)
  have rd: "read_cells (ptr src) (length t) = Inr (map Some t)"
    using read_cells_provides [OF buffer_holds_provides [OF assms(2,3)]] by (auto simp: returns_iff)
  show ?thesis
  proof (cases "used_bytes ?b1 = 0")
    case True
    then have "s = []" by (rule buffer_holds_empty [OF prep(1)])
    with True prep(3) ut buffer_store_holds [OF cs lcs, of "[]" t "used_bytes src"] show ?thesis
      by (auto simp: buffer_append_buffer_def Let_def ut1 rd returns_iff buffer_is_empty_def)
  next
    case False
    have u: "unat (used_bytes ?b1) = Suc (length s)" by (rule buffer_holds_used [OF prep(1) False])
    then have "unat (used_bytes ?b1 - 1) = length s" by (rule unat_pred_u32)
    then have u1: "unat (used_bytes b - 1) = length s" by (simp add: prep(2))
    have pre: "take (length s) cs = map Some s"
      using buffer_holds_provides [OF prep(1) False] by (simp add: provides_def cs)
    have "unat (used_bytes ?b1 + (used_bytes src - 1)) = Suc (length s + length t)"
      using u ut1 assms(4) by (subst unat_add_u32) simp_all
    with False prep u buffer_store_holds [OF cs lcs pre, of t "used_bytes ?b1 + (used_bytes src - 1)"] ut
    show ?thesis
      by (auto simp: buffer_append_buffer_def Let_def ut1 u1 rd returns_iff buffer_is_empty_def word_gt_0)
  qed
qed

lemma buffer_string_set_length_holds [returns_rules]:
  assumes "buffer_holds b s" and "used_bytes b \<noteq> 0" and "n \<le> length s"
  shows "returns (buffer_string_set_length b (of_nat n))
           (\<lambda>b'. buffer_holds b' (take n s) \<and> used_bytes b' \<noteq> 0)"
proof -
  from assms obtain cs where cs: "ptr b = Some cs" "length cs = unat (buf_size b)"
      "take (Suc (length s)) cs = map Some s @ [Some NUL]"
    by (auto simp: buffer_holds_def split: option.splits)
  have u: "unat (used_bytes b) = Suc (length s)" by (rule buffer_holds_used [OF assms(1,2)])
  then have "Suc n < 2 ^ 32" using assms(3) unat_u32_lt [of "used_bytes b"] by simp
  then have n: "unat (of_nat n :: u32) = n" and n1: "unat (of_nat n + 1 :: u32) = Suc n"
    by (simp_all add: unat_of_nat_u32 unat_add_u32)
  have size: "Suc (length s) \<le> length cs"
    using arg_cong [OF cs(3), of length] by simp
  then have fits: "\<not> buf_size b < of_nat n + 1"
    using assms(3) n1 cs(2) by (simp add: word_less_nat_alt)
  have nz: "(of_nat n + 1 :: u32) \<noteq> 0" using n1 by auto
  have "take n cs = take n (take (Suc (length s)) cs)"
    using assms(3) by (simp add: min_def)
  also have "\<dots> = map Some (take n s)"
    using assms(3) by (simp add: cs(3) take_map)
  finally show ?thesis
    using fits nz size assms(3) cs n n1
    by (simp add: buffer_string_set_length_def buffer_set_nul_def buffer_holds_def min_def)
qed

section \<open>The interface: a sink for bytes\<close>

text \<open>
  Most callers only append: response heads, directory pages and log lines are built from dozens of
  calls in a row. The locale states what one call promises and gives the whole row at once.
  \<open>carries p t\<close> says that the argument \<open>p\<close> of the call stands for the bytes \<open>t\<close>.
\<close>

fun append_each :: "('b \<Rightarrow> 'p \<Rightarrow> fault + 'b) \<Rightarrow> 'b \<Rightarrow> 'p list \<Rightarrow> fault + 'b" where
  "append_each f b [] = Inr b"
| "append_each f b (p # ps) = andthen (f b p) (\<lambda>b'. append_each f b' ps)"

lemma append_each_append:
  "append_each f b (ps @ qs) = andthen (append_each f b ps) (\<lambda>b'. append_each f b' qs)"
proof (induction ps arbitrary: b)
  case (Cons p ps)
  then show ?case by (cases "f b p") simp_all
qed simp

locale byte_sink =
  fixes holds :: "'b \<Rightarrow> string \<Rightarrow> bool"
    and carries :: "'p \<Rightarrow> string \<Rightarrow> bool"
    and app :: "'b \<Rightarrow> 'p \<Rightarrow> fault + 'b"
    and cap :: nat
  assumes app_holds: "holds b s \<Longrightarrow> carries p t \<Longrightarrow> length s + length t < cap \<Longrightarrow>
    returns (app b p) (\<lambda>b'. holds b' (s @ t))"
begin

lemma append_each_holds:
  "holds b s \<Longrightarrow> list_all2 carries ps ts \<Longrightarrow> length s + length (concat ts) < cap \<Longrightarrow>
   returns (append_each app b ps) (\<lambda>b'. holds b' (s @ concat ts))"
proof (induction ps arbitrary: ts b s)
  case Nil
  then show ?case by simp
next
  case (Cons p ps us)
  then obtain t ts where us: "us = t # ts" and "carries p t" and "list_all2 carries ps ts"
    by (auto simp: list_all2_Cons1)
  then have "returns (app b p) (\<lambda>b'. holds b' (s @ t))"
    using Cons by (intro app_holds) simp_all
  then have "returns (app b p) (\<lambda>b'. returns (append_each app b' ps)
      (\<lambda>b'. holds b' (s @ t @ concat ts)))"
  proof (rule returns_mono)
    fix b' assume "holds b' (s @ t)"
    then show "returns (append_each app b' ps) (\<lambda>b'. holds b' (s @ t @ concat ts))"
      using Cons.IH [of b' "s @ t" ts] Cons.prems(3) us \<open>list_all2 carries ps ts\<close> by simp
  qed
  then show ?case by (simp add: us)
qed

end

text \<open>Both ways the program feeds a buffer satisfy the contract.\<close>

definition carries_bytes :: "cptr \<times> u32 \<Rightarrow> string \<Rightarrow> bool" where
  "carries_bytes a t \<longleftrightarrow> provides (fst a) t \<and> snd a = of_nat (length t)"

interpretation string_sink: byte_sink buffer_holds points_to buffer_append_string buffer_max
  by unfold_locales (rule buffer_append_string_holds)

interpretation bytes_sink: byte_sink buffer_holds carries_bytes
    "\<lambda>b a. buffer_append_string_length b (fst a) (snd a)" buffer_max
  by unfold_locales (auto simp: carries_bytes_def intro: buffer_append_string_length_holds)

section \<open>Properties\<close>

text \<open>C30: appending a C string to a well-formed buffer never faults below the 32-bit limit: the buffer
  then holds its old string followed by the new one, whether or not the block had to be reallocated.\<close>

theorem buffer_append_string_appends:
  assumes "buffer_holds b s" and "points_to p t" and "length s + length t < buffer_max"
  shows "\<exists>b'. buffer_append_string b p = Inr b' \<and> buffer_holds b' (s @ t)
    \<and> unat (buffer_string_length b') = length s + length t"
proof -
  obtain b' where "buffer_append_string b p = Inr b'" and h: "buffer_holds b' (s @ t)"
    using buffer_append_string_holds [OF assms] by (rule returns_obtain)
  with buffer_string_length_holds [OF h] show ?thesis by auto
qed

theorem buffer_append_string_appends_witness:
  "\<exists>b'. buffer_append_string buffer_init (lit ''GET'') = Inr b' \<and> buffer_holds b' ([] @ ''GET'')
    \<and> unat (buffer_string_length b') = length ([] :: string) + length ''GET''"
  by (rule buffer_append_string_appends) simp_all

text \<open>C31: the size \<open>buffer_align_size\<close> computes is the least multiple of 64 that is large enough,
  up to the point where adding 63 wraps around; from there on it is 0, so a request for the last 63
  sizes of the 32-bit range allocates an empty block.\<close>

theorem buffer_align_size_least:
  "unat (buffer_align_size n) =
     (if unat n + 63 < 2 ^ 32 then (LEAST m. unat n \<le> m \<and> 64 dvd m) else 0)"
proof (cases "unat n + 63 < 2 ^ 32")
  case True
  note b = buffer_align_size_bounds [OF True]
  have "(LEAST m. unat n \<le> m \<and> 64 dvd m) = unat (buffer_align_size n)"
  proof (rule Least_equality)
    fix m assume m: "unat n \<le> m \<and> 64 dvd m"
    from m b(3) obtain k j where "m = 64 * k" "unat (buffer_align_size n) = 64 * j"
      by (auto elim!: dvdE)
    with m b(2) show "unat (buffer_align_size n) \<le> m" by simp
  qed (use b in simp)
  with True show ?thesis by simp
next
  case False
  have "unat (n + 63) = (unat n + 63) mod 2 ^ 32" by (simp add: unat_word_ariths)
  also have "\<dots> < 63" using False unat_u32_lt [of n] by (simp add: mod_if) linarith
  finally have small: "unat (n + 63) < 64" by simp
  have eq: "n + 64 - 1 = n + 63" by simp
  have "(n + 63) div 64 = 0"
    using small by (simp add: unat_eq_0_iff unat_div)
  then show ?thesis using False by (simp add: buffer_align_size_def eq)
qed

end
