(* ===== verification/Chunk.thy ===== *)
theory Chunk
  imports Buffer
begin

text \<open>
  The chunk queue of \<open>src/chunk.h\<close> and \<open>src/chunk.cpp\<close>: two singly linked lists of heap-allocated
  chunks, the used list between \<open>first\<close> and \<open>last\<close> and the idle list. Chunks never move between
  queues, so each queue owns the part of the heap its chunks live in: \<open>cells\<close> maps addresses to live
  chunks and \<open>brk\<close> is the next address \<open>malloc\<close> returns. A use of an address without a live chunk is
  the fault \<open>UseAfterFree\<close>. The contract is the relation \<open>queue_rel q vs\<close>: the linked structure is
  sound and the used list stands for the pieces \<open>vs\<close> of data still to be sent.
\<close>

section \<open>The C code: chunks\<close>

datatype chunk_support_type = CHUNK_MEM | CHUNK_FILE

type_synonym addr = nat

text \<open>
  The fields of the nested structs \<open>send_file\<close> and \<open>mmap\<close> are inlined. \<open>file_offset\<close> is \<open>None\<close> until
  it is first assigned: \<open>chunk_initialize\<close> assigns \<open>length\<close> twice and leaves \<open>offset\<close> unset.
  \<open>mmap_start\<close> is \<open>None\<close> for \<open>MAP_FAILED\<close>, otherwise the mapped bytes of the file.
\<close>

record chunk =
  mem :: buffer
  file_fd :: int
  file_offset :: "u32 option"
  file_length :: u32
  filename :: buffer
  mmap_start :: "string option"
  mmap_offset :: u32
  mmap_len :: u32
  chunk_type :: chunk_support_type
  chunk_offset :: u32
  next_chunk :: "addr option"

definition chunk_initialize :: chunk where
  "chunk_initialize =
     \<lparr>mem = buffer_init, file_fd = -1, file_offset = None, file_length = -1,
      filename = buffer_init, mmap_start = None, mmap_offset = 0, mmap_len = 0,
      chunk_type = CHUNK_MEM, chunk_offset = 0, next_chunk = None\<rparr>"

definition chunk_reset :: "chunk \<Rightarrow> chunk" where
  "chunk_reset c = c
     \<lparr>chunk_type := CHUNK_FILE, mem := buffer_reset (mem c), chunk_offset := 0, next_chunk := None,
      filename := buffer_reset (filename c), file_fd := -1, file_offset := Some 0, file_length := 0,
      mmap_start := None, mmap_len := 0, mmap_offset := 0\<rparr>"

text \<open>The descriptors \<open>chunk_reset\<close> and \<open>chunk_free\<close> pass to \<open>close\<close>.\<close>

definition chunk_fds :: "chunk \<Rightarrow> int list" where
  "chunk_fds c = (if 0 \<le> file_fd c then [file_fd c] else [])"

definition chunk_remaining_len :: "chunk \<Rightarrow> u32" where
  "chunk_remaining_len c =
     (case chunk_type c of
        CHUNK_MEM \<Rightarrow> buffer_string_length (mem c) - chunk_offset c
      | CHUNK_FILE \<Rightarrow> file_length c - chunk_offset c)"

section \<open>The C code: the queue\<close>

record chunkqueue =
  cells :: "addr \<Rightarrow> chunk option"
  brk :: addr
  q_first :: "addr option"
  q_last :: "addr option"
  q_idle :: "addr option"
  idle_chunk_size :: u32
  closed_fds :: "int list"

definition chunkqueue_init :: chunkqueue where
  "chunkqueue_init =
     \<lparr>cells = (\<lambda>_. None), brk = 0, q_first = None, q_last = None, q_idle = None,
      idle_chunk_size = 0, closed_fds = []\<rparr>"

definition load_chunk :: "chunkqueue \<Rightarrow> addr \<Rightarrow> fault + chunk" where
  "load_chunk q a = (case cells q a of None \<Rightarrow> Inl UseAfterFree | Some c \<Rightarrow> Inr c)"

definition put_chunk :: "chunkqueue \<Rightarrow> addr \<Rightarrow> chunk \<Rightarrow> chunkqueue" where
  "put_chunk q a c = q\<lparr>cells := (cells q)(a \<mapsto> c)\<rparr>"

definition chunk_free :: "chunkqueue \<Rightarrow> addr \<Rightarrow> fault + chunkqueue" where
  "chunk_free q a = andthen (load_chunk q a) (\<lambda>c.
     Inr (q\<lparr>cells := (cells q)(a := None), closed_fds := closed_fds q @ chunk_fds c\<rparr>))"

definition chunkqueue_push_unused_chunk :: "chunkqueue \<Rightarrow> addr \<Rightarrow> fault + chunkqueue" where
  "chunkqueue_push_unused_chunk q a =
     (if 4 \<le> idle_chunk_size q then chunk_free q a
      else andthen (load_chunk q a) (\<lambda>c.
        Inr (q\<lparr>cells := (cells q)(a \<mapsto> (chunk_reset c)\<lparr>next_chunk := q_idle q\<rparr>), q_idle := Some a,
               idle_chunk_size := idle_chunk_size q + 1, closed_fds := closed_fds q @ chunk_fds c\<rparr>)))"

text \<open>The \<open>for\<close> loop of \<open>chunkqueue_get_unused_chunk\<close>: \<open>n\<close> fresh chunks are pushed on the idle list.\<close>

fun chunkqueue_alloc_idle :: "nat \<Rightarrow> chunkqueue \<Rightarrow> chunkqueue" where
  "chunkqueue_alloc_idle 0 q = q"
| "chunkqueue_alloc_idle (Suc n) q =
     chunkqueue_alloc_idle n
       (q\<lparr>cells := (cells q)(brk q \<mapsto> chunk_initialize\<lparr>next_chunk := q_idle q\<rparr>),
          brk := Suc (brk q), q_idle := Some (brk q)\<rparr>)"

definition chunkqueue_get_unused_chunk :: "chunkqueue \<Rightarrow> fault + (chunkqueue \<times> addr)" where
  "chunkqueue_get_unused_chunk q =
     (if idle_chunk_size q = 0 \<and> q_idle q \<noteq> None then Inl AssertFailed
      else let q1 = (if idle_chunk_size q = 0
                     then chunkqueue_alloc_idle (unat (idle_chunk_size q + 4))
                            (q\<lparr>idle_chunk_size := idle_chunk_size q + 4\<rparr>)
                     else q)
           in case q_idle q1 of
                None \<Rightarrow> Inl AssertFailed
              | Some a \<Rightarrow> andthen (load_chunk q1 a) (\<lambda>c.
                  Inr (q1\<lparr>q_idle := next_chunk c, idle_chunk_size := idle_chunk_size q1 - 1\<rparr>, a)))"

definition chunkqueue_append_chunk :: "chunkqueue \<Rightarrow> addr \<Rightarrow> fault + chunkqueue" where
  "chunkqueue_append_chunk q a =
     andthen (load_chunk q a) (\<lambda>c.
     let q1 = put_chunk q a (c\<lparr>next_chunk := None\<rparr>) in
     andthen (case q_last q1 of
                None \<Rightarrow> Inr q1
              | Some l \<Rightarrow> andthen (load_chunk q1 l) (\<lambda>cl.
                  Inr (put_chunk q1 l (cl\<lparr>next_chunk := Some a\<rparr>)))) (\<lambda>q2.
     let q3 = q2\<lparr>q_last := Some a\<rparr> in
     Inr (if q_first q3 = None then q3\<lparr>q_first := Some a\<rparr> else q3)))"

definition chunkqueue_append_buffer :: "chunkqueue \<Rightarrow> buffer \<Rightarrow> fault + chunkqueue" where
  "chunkqueue_append_buffer q b =
     andthen (chunkqueue_get_unused_chunk q) (\<lambda>(q1, a).
     andthen (load_chunk q1 a) (\<lambda>c.
     andthen (buffer_copy_buffer (mem c) b) (\<lambda>m.
     chunkqueue_append_chunk (put_chunk q1 a (c\<lparr>chunk_type := CHUNK_MEM, mem := m\<rparr>)) a)))"

definition chunkqueue_prepend_buffer :: "chunkqueue \<Rightarrow> buffer \<Rightarrow> fault + chunkqueue" where
  "chunkqueue_prepend_buffer q b =
     andthen (chunkqueue_get_unused_chunk q) (\<lambda>(q1, a).
     andthen (load_chunk q1 a) (\<lambda>c.
     andthen (buffer_copy_buffer (mem c) b) (\<lambda>m.
     let q2 = (put_chunk q1 a (c\<lparr>chunk_type := CHUNK_MEM, mem := m, next_chunk := q_first q1\<rparr>))
                \<lparr>q_first := Some a\<rparr>
     in Inr (if q_last q2 = None then q2\<lparr>q_last := Some a\<rparr> else q2))))"

definition chunkqueue_append_file :: "chunkqueue \<Rightarrow> buffer \<Rightarrow> u32 \<Rightarrow> u32 \<Rightarrow> fault + chunkqueue" where
  "chunkqueue_append_file q name off len =
     andthen (cstr (ptr name)) (\<lambda>s.
     if length s = 0 \<or> len = 0 then Inr q
     else andthen (chunkqueue_get_unused_chunk q) (\<lambda>(q1, a).
       andthen (load_chunk q1 a) (\<lambda>c.
       andthen (buffer_copy_buffer (filename c) name) (\<lambda>f.
       chunkqueue_append_chunk
         (put_chunk q1 a (c\<lparr>chunk_type := CHUNK_FILE, filename := f, file_fd := -1,
                            file_offset := Some off, file_length := len\<rparr>)) a))))"

definition chunkqueue_empty :: "chunkqueue \<Rightarrow> bool" where
  "chunkqueue_empty q \<longleftrightarrow> q_first q = None"

text \<open>
  Loops over the lists take fuel, one unit per chunk visited. \<open>Suc (brk q)\<close> is enough: a list without
  repetition has at most \<open>brk q\<close> chunks, and the last unit pays for seeing its end. The lemmas below
  show that no well-formed queue reaches \<open>Diverges\<close>.
\<close>

fun chunkqueue_length_loop :: "nat \<Rightarrow> chunkqueue \<Rightarrow> addr option \<Rightarrow> u32 \<Rightarrow> fault + u32" where
  "chunkqueue_length_loop 0 q p len = Inl Diverges"
| "chunkqueue_length_loop (Suc n) q None len = Inr len"
| "chunkqueue_length_loop (Suc n) q (Some a) len = andthen (load_chunk q a) (\<lambda>c.
     chunkqueue_length_loop n q (next_chunk c)
       (case chunk_type c of
          CHUNK_MEM \<Rightarrow> len + buffer_string_length (mem c)
        | CHUNK_FILE \<Rightarrow> len + file_length c))"

definition chunkqueue_length :: "chunkqueue \<Rightarrow> fault + u32" where
  "chunkqueue_length q = chunkqueue_length_loop (Suc (brk q)) q (q_first q) 0"

fun chunkqueue_reset_loop :: "nat \<Rightarrow> chunkqueue \<Rightarrow> addr option \<Rightarrow> fault + chunkqueue" where
  "chunkqueue_reset_loop 0 q p = Inl Diverges"
| "chunkqueue_reset_loop (Suc n) q None = Inr q"
| "chunkqueue_reset_loop (Suc n) q (Some a) = andthen (load_chunk q a) (\<lambda>c.
     andthen (chunkqueue_push_unused_chunk q a) (\<lambda>q1.
     chunkqueue_reset_loop n q1 (next_chunk c)))"

definition chunkqueue_reset :: "chunkqueue \<Rightarrow> fault + chunkqueue" where
  "chunkqueue_reset q = andthen (chunkqueue_reset_loop (Suc (brk q)) q (q_first q)) (\<lambda>q1.
     Inr (q1\<lparr>q_first := None, q_last := None\<rparr>))"

fun chunkqueue_free_used :: "nat \<Rightarrow> chunkqueue \<Rightarrow> fault + chunkqueue" where
  "chunkqueue_free_used 0 q = Inl Diverges"
| "chunkqueue_free_used (Suc n) q =
     (case q_first q of
        None \<Rightarrow> Inr q
      | Some a \<Rightarrow> andthen (load_chunk q a) (\<lambda>c. andthen (chunk_free q a) (\<lambda>q1.
          chunkqueue_free_used n (q1\<lparr>q_first := next_chunk c\<rparr>))))"

fun chunkqueue_free_idle :: "nat \<Rightarrow> chunkqueue \<Rightarrow> fault + chunkqueue" where
  "chunkqueue_free_idle 0 q = Inl Diverges"
| "chunkqueue_free_idle (Suc n) q =
     (case q_idle q of
        None \<Rightarrow> Inr q
      | Some a \<Rightarrow> andthen (load_chunk q a) (\<lambda>c. andthen (chunk_free q a) (\<lambda>q1.
          chunkqueue_free_idle n (q1\<lparr>q_idle := next_chunk c\<rparr>))))"

definition chunkqueue_free :: "chunkqueue \<Rightarrow> fault + chunkqueue" where
  "chunkqueue_free q = andthen (chunkqueue_free_used (Suc (brk q)) q) (\<lambda>q1.
     chunkqueue_free_idle (Suc (brk q)) q1)"

text \<open>
  \<open>chunk_get_memory\<close> hands out a pointer into the block of the last chunk; here it is the chunk's
  address and the offset in its block, or \<open>None\<close> for the null pointer of a request for 0 bytes.
\<close>

definition chunk_get_memory :: "chunkqueue \<Rightarrow> u32 \<Rightarrow> fault + (chunkqueue \<times> (addr \<times> u32) option)" where
  "chunk_get_memory q n =
     (if n = 0 then Inr (q, None)
      else andthen
        (case q_last q of
           None \<Rightarrow> Inr (q, None)
         | Some l \<Rightarrow> andthen (load_chunk q l) (\<lambda>c.
             if chunk_type c = CHUNK_MEM
             then let b = (if buffer_is_empty (mem c) then buffer_alloc_size (mem c) n else mem c)
                  in Inr (put_chunk q l (c\<lparr>mem := b\<rparr>),
                          if n \<le> buffer_remaining_bytes b
                          then Some (l, buffer_string_length b) else None)
             else Inr (q, None)))
        (\<lambda>(q1, found). case found of
           Some p \<Rightarrow> Inr (q1, Some p)
         | None \<Rightarrow>
             andthen (chunkqueue_get_unused_chunk q1) (\<lambda>(q2, a).
             andthen (chunkqueue_append_chunk q2 a) (\<lambda>q3.
             andthen (load_chunk q3 a) (\<lambda>c.
             let b = buffer_alloc_size (mem c) n
             in Inr (put_chunk q3 a (c\<lparr>chunk_type := CHUNK_MEM, mem := b\<rparr>),
                     Some (a, buffer_string_length b)))))))"

definition chunk_commit_memory :: "chunkqueue \<Rightarrow> u32 \<Rightarrow> fault + chunkqueue" where
  "chunk_commit_memory q len =
     (if len = 0 then Inr q
      else case q_last q of
             None \<Rightarrow> Inl AssertFailed
           | Some a \<Rightarrow> andthen (load_chunk q a) (\<lambda>c.
               if chunk_type c \<noteq> CHUNK_MEM then Inl AssertFailed
               else andthen (buffer_set_nul
                      ((mem c)\<lparr>used_bytes :=
                         (if buffer_string_length (mem c) = 0 then len + 1
                          else used_bytes (mem c) + len)\<rparr>)) (\<lambda>b.
                    Inr (put_chunk q a (c\<lparr>mem := b\<rparr>)))))"

text \<open>
  Removing the head chunk: \<open>first\<close> moves on, \<open>last\<close> is cleared when it was the same chunk, and the
  chunk goes to the idle list.
\<close>

definition chunkqueue_pop_first :: "chunkqueue \<Rightarrow> addr \<Rightarrow> chunk \<Rightarrow> fault + chunkqueue" where
  "chunkqueue_pop_first q a c =
     (let q1 = q\<lparr>q_first := next_chunk c\<rparr>;
          q2 = (if q_last q1 = Some a then q1\<lparr>q_last := None\<rparr> else q1)
      in chunkqueue_push_unused_chunk q2 a)"

fun chunkqueue_mark_written_loop :: "nat \<Rightarrow> chunkqueue \<Rightarrow> u32 \<Rightarrow> fault + (chunkqueue \<times> u32)" where
  "chunkqueue_mark_written_loop 0 q len = Inl Diverges"
| "chunkqueue_mark_written_loop (Suc n) q len =
     (case q_first q of
        None \<Rightarrow> Inr (q, len)
      | Some a \<Rightarrow> andthen (load_chunk q a) (\<lambda>c.
          let chunk_len = chunk_remaining_len c in
          if len = 0 \<and> 0 < chunk_len then Inr (q, len)
          else if chunk_len \<le> len
          then let c1 = c\<lparr>chunk_offset := chunk_offset c + chunk_len\<rparr>
               in andthen (chunkqueue_pop_first (put_chunk q a c1) a c1) (\<lambda>q1.
                    chunkqueue_mark_written_loop n q1 (len - chunk_len))
          else Inr (put_chunk q a (c\<lparr>chunk_offset := chunk_offset c + len\<rparr>), 0)))"

definition chunkqueue_mark_written :: "chunkqueue \<Rightarrow> u32 \<Rightarrow> fault + (chunkqueue \<times> u32)" where
  "chunkqueue_mark_written q len = chunkqueue_mark_written_loop (Suc (brk q)) q len"

fun chunkqueue_remove_finished_loop :: "nat \<Rightarrow> chunkqueue \<Rightarrow> fault + chunkqueue" where
  "chunkqueue_remove_finished_loop 0 q = Inl Diverges"
| "chunkqueue_remove_finished_loop (Suc n) q =
     (case q_first q of
        None \<Rightarrow> Inr q
      | Some a \<Rightarrow> andthen (load_chunk q a) (\<lambda>c.
          if 0 < chunk_remaining_len c then Inr q
          else andthen (chunkqueue_pop_first q a c) (\<lambda>q1.
            chunkqueue_remove_finished_loop n q1)))"

definition chunkqueue_remove_finished_chunk :: "chunkqueue \<Rightarrow> fault + chunkqueue" where
  "chunkqueue_remove_finished_chunk q = chunkqueue_remove_finished_loop (Suc (brk q)) q"

section \<open>The invariant of the linked structure\<close>

text \<open>\<open>linked h p as\<close>: following \<open>next\<close> from \<open>p\<close> through live chunks visits \<open>as\<close> and ends at NULL.\<close>

fun linked :: "(addr \<Rightarrow> chunk option) \<Rightarrow> addr option \<Rightarrow> addr list \<Rightarrow> bool" where
  "linked h p [] \<longleftrightarrow> p = None"
| "linked h p (a # as) \<longleftrightarrow>
     p = Some a \<and> (case h a of None \<Rightarrow> False | Some c \<Rightarrow> linked h (next_chunk c) as)"

text \<open>A chunk on the idle list owns no memory, no descriptor and no mapping.\<close>

definition idle_chunk :: "chunk \<Rightarrow> bool" where
  "idle_chunk c \<longleftrightarrow> mem c = buffer_init \<and> filename c = buffer_init \<and> chunk_offset c = 0 \<and>
     file_fd c = -1 \<and> mmap_start c = None"

text \<open>
  \<open>us\<close> is the used list, \<open>ids\<close> the idle list and \<open>ds\<close> the chunks an operation in progress holds;
  together they are exactly the live chunks, so nothing leaks and nothing is on two lists.
\<close>

definition queue_links :: "chunkqueue \<Rightarrow> addr list \<Rightarrow> addr list \<Rightarrow> addr list \<Rightarrow> bool" where
  "queue_links q us ids ds \<longleftrightarrow>
     linked (cells q) (q_first q) us \<and> linked (cells q) (q_idle q) ids \<and>
     distinct (us @ ids @ ds) \<and> (\<forall>a. cells q a \<noteq> None \<longleftrightarrow> a \<in> set (us @ ids @ ds)) \<and>
     (\<forall>a \<in> set (us @ ids @ ds). a < brk q) \<and>
     q_last q = (if us = [] then None else Some (last us)) \<and>
     (\<forall>a \<in> set ids. idle_chunk (the (cells q a)))"

definition queue_wf :: "chunkqueue \<Rightarrow> addr list \<Rightarrow> addr list \<Rightarrow> addr list \<Rightarrow> bool" where
  "queue_wf q us ids ds \<longleftrightarrow>
     queue_links q us ids ds \<and> unat (idle_chunk_size q) = length ids \<and> length ids \<le> 4"

lemma linked_None [simp]: "linked h None as \<longleftrightarrow> as = []"
  by (cases as) auto

lemma linked_agree:
  "linked h p as \<Longrightarrow> (\<And>x. x \<in> set as \<Longrightarrow> map_option next_chunk (h' x) = map_option next_chunk (h x)) \<Longrightarrow>
   linked h' p as"
proof (induction as arbitrary: p)
  case (Cons a as)
  from Cons.prems(1) obtain c where c: "p = Some a" "h a = Some c" "linked h (next_chunk c) as"
    by (auto split: option.splits)
  from Cons.prems(2) [of a] c obtain c' where "h' a = Some c'" "next_chunk c' = next_chunk c"
    by (auto simp: map_option_eq_Some)
  with c Cons.IH [of "next_chunk c"] Cons.prems(2) show ?case by simp
qed simp

lemma linked_upd: "linked h p as \<Longrightarrow> a \<notin> set as \<Longrightarrow> linked (h(a := x)) p as"
  by (erule linked_agree) auto

lemma linked_put:
  "linked h p as \<Longrightarrow> h a = Some c \<Longrightarrow> next_chunk c' = next_chunk c \<Longrightarrow> linked (h(a \<mapsto> c')) p as"
  by (erule linked_agree) auto

lemma linked_snoc:
  "linked h p (us @ [l]) \<Longrightarrow> distinct (us @ [l]) \<Longrightarrow> a \<notin> set (us @ [l]) \<Longrightarrow>
   h l = Some cl \<Longrightarrow> next_chunk ca = None \<Longrightarrow>
   linked (h(a \<mapsto> ca, l \<mapsto> cl\<lparr>next_chunk := Some a\<rparr>)) p (us @ [l, a])"
proof (induction us arbitrary: p)
  case (Cons u us)
  then show ?case by (auto split: option.splits)
qed auto

lemma linked_alive: "linked h p as \<Longrightarrow> a \<in> set as \<Longrightarrow> \<exists>c. h a = Some c"
  by (induction as arbitrary: p) (auto split: option.splits)

lemma load_chunk_Inr [simp]: "load_chunk q a = Inr c \<longleftrightarrow> cells q a = Some c"
  by (simp add: load_chunk_def split: option.splits)

lemma put_chunk_simps [simp]:
  "cells (put_chunk q a c) = (cells q)(a \<mapsto> c)" "brk (put_chunk q a c) = brk q"
  "q_first (put_chunk q a c) = q_first q" "q_last (put_chunk q a c) = q_last q"
  "q_idle (put_chunk q a c) = q_idle q" "idle_chunk_size (put_chunk q a c) = idle_chunk_size q"
  by (simp_all add: put_chunk_def)

lemma put_chunk_put [simp]: "put_chunk (put_chunk q a c) a c' = put_chunk q a c'"
  by (simp add: put_chunk_def)

lemma queue_linksD:
  assumes "queue_links q us ids ds"
  shows "linked (cells q) (q_first q) us" "linked (cells q) (q_idle q) ids"
    "distinct (us @ ids @ ds)" "cells q a \<noteq> None \<longleftrightarrow> a \<in> set (us @ ids @ ds)"
    "a \<in> set (us @ ids @ ds) \<Longrightarrow> a < brk q"
    "q_last q = (if us = [] then None else Some (last us))"
    "a \<in> set ids \<Longrightarrow> idle_chunk (the (cells q a))"
  using assms by (simp_all add: queue_links_def)

lemma queue_links_alive:
  assumes "queue_links q us ids ds" and "a \<in> set (us @ ids @ ds)"
  obtains c where "cells q a = Some c"
  using queue_linksD(4) [OF assms(1), of a] assms(2) by auto

text \<open>Changing a chunk that keeps its place changes nothing of the structure.\<close>

lemma queue_wf_put:
  assumes "queue_wf q us ids ds" and "cells q a = Some c" and "next_chunk c' = next_chunk c"
    and "a \<notin> set ids"
  shows "queue_wf (put_chunk q a c') us ids ds"
  using assms linked_put [of "cells q" _ _ a c c']
  by (auto simp: queue_wf_def queue_links_def split: if_splits)

lemma queue_wf_length:
  assumes "queue_wf q us ids ds"
  shows "length us \<le> brk q" "length ids \<le> brk q"
proof -
  have "set us \<subseteq> {..<brk q}" "set ids \<subseteq> {..<brk q}" "distinct us" "distinct ids"
    using assms by (auto simp: queue_wf_def queue_links_def)
  then show "length us \<le> brk q" "length ids \<le> brk q"
    by (metis card_lessThan card_mono distinct_card finite_lessThan)+
qed

section \<open>Taking chunks from and returning chunks to the idle list\<close>

lemma buffer_reset_init: "buffer_reset b = buffer_init"
  by (cases b) (simp add: buffer_reset_def buffer_init_def)

lemma queue_links_fresh:
  assumes "queue_links q us ids ds"
  shows "queue_links (q\<lparr>cells := (cells q)(brk q \<mapsto> chunk_initialize\<lparr>next_chunk := q_idle q\<rparr>),
           brk := Suc (brk q), q_idle := Some (brk q)\<rparr>) us (brk q # ids) ds"
proof -
  have new: "brk q \<notin> set (us @ ids @ ds)"
    using queue_linksD(5) [OF assms] by blast
  with assms show ?thesis
    by (auto simp: queue_links_def idle_chunk_def chunk_initialize_def linked_upd less_Suc_eq)
qed

lemma chunkqueue_alloc_idle_links:
  "queue_links q us ids ds \<Longrightarrow>
   queue_links (chunkqueue_alloc_idle n q) us (rev [brk q..<brk q + n] @ ids) ds"
proof (induction n arbitrary: q ids)
  case (Suc n)
  from Suc.IH [OF queue_links_fresh [OF Suc.prems]] show ?case
    by (simp add: upt_conv_Cons del: upt_Suc)
qed simp

lemma chunkqueue_alloc_idle_frame:
  "idle_chunk_size (chunkqueue_alloc_idle n q) = idle_chunk_size q"
  "brk (chunkqueue_alloc_idle n q) = brk q + n"
  "x < brk q \<Longrightarrow> cells (chunkqueue_alloc_idle n q) x = cells q x"
  by (induction n arbitrary: q) auto

lemma queue_links_take_idle:
  assumes "queue_links q us (a # ids) ds" and "cells q a = Some c"
  shows "queue_links (q\<lparr>q_idle := next_chunk c, idle_chunk_size := n\<rparr>) us ids (a # ds)"
  using assms by (auto simp: queue_links_def)

lemma chunkqueue_get_unused_chunk_wf [returns_rules]:
  assumes "queue_wf q us ids ds"
  shows "returns (chunkqueue_get_unused_chunk q) (\<lambda>(q', a). \<exists>ids'.
      queue_wf q' us ids' (a # ds) \<and> idle_chunk (the (cells q' a)) \<and>
      (\<forall>x \<in> set us \<union> set ds. cells q' x = cells q x))"
proof -
  define q1 where "q1 = (if idle_chunk_size q = 0
      then chunkqueue_alloc_idle (unat (idle_chunk_size q + 4))
             (q\<lparr>idle_chunk_size := idle_chunk_size q + 4\<rparr>)
      else q)"
  define ids1 where "ids1 = (if idle_chunk_size q = 0 then rev [brk q..<brk q + 4] @ ids else ids)"
  from assms have links: "queue_links q us ids ds"
    and size: "unat (idle_chunk_size q) = length ids" "length ids \<le> 4"
    by (simp_all add: queue_wf_def)
  have "queue_links (q\<lparr>idle_chunk_size := 4\<rparr>) us ids ds"
    using links by (simp add: queue_links_def)
  from chunkqueue_alloc_idle_links [OF this, of 4] links
  have links1: "queue_links q1 us ids1 ds" by (simp add: q1_def ids1_def)
  have size1: "unat (idle_chunk_size q1) = length ids1" "length ids1 \<le> 4" "ids1 \<noteq> []"
    using size by (auto simp: q1_def ids1_def chunkqueue_alloc_idle_frame unat_eq_zero)
  have frame: "cells q1 x = cells q x" if "x \<in> set us \<union> set ds" for x
    using queue_linksD(5) [OF links, of x] that by (auto simp: q1_def chunkqueue_alloc_idle_frame)
  from size1(3) obtain a ids2 where ids1: "ids1 = a # ids2" by (cases ids1) auto
  then obtain c where c: "q_idle q1 = Some a" "cells q1 a = Some c"
    using queue_linksD(2) [OF links1] by (auto split: option.splits)
  have empty: "q_idle q = None" if "idle_chunk_size q = 0"
    using queue_linksD(2) [OF links] size that by simp
  have get: "chunkqueue_get_unused_chunk q =
      Inr (q1\<lparr>q_idle := next_chunk c, idle_chunk_size := idle_chunk_size q1 - 1\<rparr>, a)"
    using empty c by (simp add: chunkqueue_get_unused_chunk_def q1_def [symmetric] Let_def load_chunk_def)
  have "queue_wf (q1\<lparr>q_idle := next_chunk c, idle_chunk_size := idle_chunk_size q1 - 1\<rparr>) us ids2 (a # ds)"
    using queue_links_take_idle [OF links1 [unfolded ids1] c(2)] size1 ids1
    by (simp add: queue_wf_def unat_pred_u32)
  moreover have "idle_chunk (the (cells q1 a))"
    using queue_linksD(7) [OF links1, of a] ids1 by simp
  ultimately show ?thesis using get frame by auto
qed

lemma chunk_free_wf:
  "queue_wf q us ids (a # ds) \<Longrightarrow> returns (chunk_free q a) (\<lambda>q'.
      queue_wf q' us ids ds \<and> (\<forall>x \<in> set us \<union> set ds. cells q' x = cells q x))"
  by (auto simp: queue_wf_def queue_links_def chunk_free_def load_chunk_def linked_upd split: option.splits)

lemma chunkqueue_push_unused_chunk_wf [returns_rules]:
  assumes "queue_wf q us ids (a # ds)"
  shows "returns (chunkqueue_push_unused_chunk q a) (\<lambda>q'. \<exists>ids'.
      queue_wf q' us ids' ds \<and> (\<forall>x \<in> set us \<union> set ds. cells q' x = cells q x) \<and> brk q' = brk q)"
proof (cases "4 \<le> idle_chunk_size q")
  case True
  then show ?thesis
    using chunk_free_wf [OF assms]
    by (auto simp: chunkqueue_push_unused_chunk_def returns_iff chunk_free_def andthen_Inr_iff)
next
  case False
  from assms have links: "queue_links q us ids (a # ds)" and size: "unat (idle_chunk_size q) = length ids"
    by (simp_all add: queue_wf_def)
  obtain c where c: "cells q a = Some c" by (rule queue_links_alive [OF links, of a]) simp_all
  let ?q = "q\<lparr>cells := (cells q)(a \<mapsto> (chunk_reset c)\<lparr>next_chunk := q_idle q\<rparr>), q_idle := Some a,
              idle_chunk_size := idle_chunk_size q + 1, closed_fds := closed_fds q @ chunk_fds c\<rparr>"
  have "queue_links ?q us (a # ids) ds"
    using links by (auto simp: queue_links_def idle_chunk_def chunk_reset_def buffer_reset_init linked_upd)
  moreover have "unat (idle_chunk_size q + 1) = Suc (length ids)" "Suc (length ids) \<le> 4"
    using False size by (auto simp: word_le_nat_alt unat_add_u32)
  moreover have "\<forall>x \<in> set us \<union> set ds. cells ?q x = cells q x"
    using queue_linksD(3) [OF links] by auto
  ultimately have "queue_wf ?q us (a # ids) ds \<and> (\<forall>x \<in> set us \<union> set ds. cells ?q x = cells q x) \<and> brk ?q = brk q"
    by (simp add: queue_wf_def)
  then show ?thesis
    using False c by (auto simp: chunkqueue_push_unused_chunk_def load_chunk_def)
qed

lemma chunkqueue_append_chunk_wf [returns_rules]:
  assumes "queue_wf q us ids (a # ds)"
  shows "returns (chunkqueue_append_chunk q a) (\<lambda>q'. queue_wf q' (us @ [a]) ids ds \<and>
      (\<forall>x. map_option (\<lambda>c. c\<lparr>next_chunk := None\<rparr>) (cells q' x) =
           map_option (\<lambda>c. c\<lparr>next_chunk := None\<rparr>) (cells q x)))"
proof -
  from assms have links: "queue_links q us ids (a # ds)" by (simp add: queue_wf_def)
  obtain c where c: "cells q a = Some c" by (rule queue_links_alive [OF links, of a]) simp_all
  show ?thesis
  proof (cases us rule: rev_cases)
    case Nil
    with assms c show ?thesis
      by (auto simp: chunkqueue_append_chunk_def load_chunk_def queue_wf_def queue_links_def linked_upd)
  next
    case (snoc vs l)
    then have "l \<in> set (us @ ids @ a # ds)" by simp
    then obtain cl where cl: "cells q l = Some cl" by (rule queue_links_alive [OF links])
    have al: "a \<noteq> l" using queue_linksD(3) [OF links] snoc by auto
    have "linked ((cells q)(a \<mapsto> c\<lparr>next_chunk := None\<rparr>, l \<mapsto> cl\<lparr>next_chunk := Some a\<rparr>))
        (q_first q) (vs @ [l, a])"
      using links cl snoc by (intro linked_snoc) (auto simp: queue_links_def)
    moreover have "q_first q \<noteq> None"
      using links snoc by (cases vs) (auto simp: queue_links_def)
    ultimately show ?thesis
      using assms c cl al snoc
      by (auto simp: chunkqueue_append_chunk_def load_chunk_def queue_wf_def queue_links_def linked_upd Let_def)
  qed
qed

section \<open>The abstract queue\<close>

text \<open>
  What a used chunk stands for: the number of its bytes already sent, and the bytes of memory not sent
  yet, or the range of a file not sent yet (name, position, count). \<open>consume n vs\<close> is what \<open>n\<close> sent
  bytes leave of a queue \<open>vs\<close>.
\<close>

datatype piece = Mem nat string | File nat string nat nat

fun piece_len :: "piece \<Rightarrow> nat" where
  "piece_len (Mem k s) = length s"
| "piece_len (File k f pos n) = n"

fun piece_sent :: "piece \<Rightarrow> nat" where
  "piece_sent (Mem k s) = k"
| "piece_sent (File k f pos n) = k"

fun drop_piece :: "nat \<Rightarrow> piece \<Rightarrow> piece" where
  "drop_piece j (Mem k s) = Mem (k + j) (drop j s)"
| "drop_piece j (File k f pos n) = File (k + j) f (pos + j) (n - j)"

fun consume :: "nat \<Rightarrow> piece list \<Rightarrow> piece list" where
  "consume n [] = []"
| "consume n (p # ps) =
     (if piece_len p \<le> n then consume (n - piece_len p) ps else drop_piece n p # ps)"

definition queue_bytes :: "piece list \<Rightarrow> nat" where
  "queue_bytes vs = sum_list (map piece_len vs)"

definition queue_sent :: "piece list \<Rightarrow> nat" where
  "queue_sent vs = sum_list (map piece_sent vs)"

fun chunk_view :: "chunk \<Rightarrow> piece \<Rightarrow> bool" where
  "chunk_view c (Mem k s) \<longleftrightarrow> chunk_type c = CHUNK_MEM \<and> unat (chunk_offset c) = k \<and>
     ptr (mem c) \<noteq> None \<and> (\<exists>t. buffer_holds (mem c) t \<and> unat (chunk_offset c) \<le> length t \<and>
          s = drop (unat (chunk_offset c)) t)"
| "chunk_view c (File k f pos n) \<longleftrightarrow> chunk_type c = CHUNK_FILE \<and> unat (chunk_offset c) = k \<and>
     buffer_holds (filename c) f \<and>
     (\<exists>off. file_offset c = Some off \<and> unat (chunk_offset c) \<le> unat (file_length c) \<and>
            unat off + unat (file_length c) < 2 ^ 32 \<and>
            pos = unat off + unat (chunk_offset c) \<and>
            n = unat (file_length c) - unat (chunk_offset c))"

definition views :: "chunkqueue \<Rightarrow> addr list \<Rightarrow> piece list \<Rightarrow> bool" where
  "views q us vs \<longleftrightarrow> list_all2 (\<lambda>a v. chunk_view (the (cells q a)) v) us vs"

definition queue_rel :: "chunkqueue \<Rightarrow> piece list \<Rightarrow> bool" where
  "queue_rel q vs \<longleftrightarrow> (\<exists>us ids. queue_wf q us ids [] \<and> views q us vs)"

lemma queue_bytes_simps [simp]:
  "queue_bytes [] = 0" "queue_bytes (v # vs) = piece_len v + queue_bytes vs"
  "queue_bytes (vs @ ws) = queue_bytes vs + queue_bytes ws"
  "queue_sent [] = 0" "queue_sent (v # vs) = piece_sent v + queue_sent vs"
  "queue_sent (vs @ ws) = queue_sent vs + queue_sent ws"
  by (simp_all add: queue_bytes_def queue_sent_def)

lemma piece_len_drop: "k \<le> piece_len p \<Longrightarrow> piece_len (drop_piece k p) = piece_len p - k"
  by (cases p) auto

lemma drop_piece_drop_piece: "drop_piece j (drop_piece k p) = drop_piece (k + j) p"
  by (cases p) (auto simp: add.commute)

lemma consume_bytes: "queue_bytes (consume n vs) = queue_bytes vs - n"
  by (induction n vs rule: consume.induct) (auto simp: piece_len_drop)

lemma consume_consume: "consume j (consume k vs) = consume (k + j) vs"
proof (induction k vs rule: consume.induct)
  case (2 n p ps)
  show ?case
  proof (cases "piece_len p \<le> n")
    case True
    with "2.IH" show ?thesis by (simp add: algebra_simps)
  next
    case False
    then have "n \<le> piece_len p" by simp
    from piece_len_drop [OF this] False show ?thesis
      by (auto simp: drop_piece_drop_piece diff_le_eq le_diff_conv add.commute)
  qed
qed simp

lemma views_frame:
  "views q us vs \<Longrightarrow> (\<And>x. x \<in> set us \<Longrightarrow> cells q' x = cells q x) \<Longrightarrow> views q' us vs"
  by (auto simp: views_def list_all2_conv_all_nth)

lemma chunk_view_next [simp]: "chunk_view (c\<lparr>next_chunk := p\<rparr>) v = chunk_view c v"
  by (cases v) simp_all

lemma buffer_holds_used_ptr: "buffer_holds b s \<Longrightarrow> unat (used_bytes b) = Suc n \<Longrightarrow> ptr b \<noteq> None"
  by (cases "ptr b") (auto simp: buffer_holds_def)

lemma chunk_view_unsent:
  "chunk_view c (Mem 0 s) \<longleftrightarrow> chunk_type c = CHUNK_MEM \<and> chunk_offset c = 0 \<and>
     ptr (mem c) \<noteq> None \<and> buffer_holds (mem c) s"
proof -
  have "unat (chunk_offset c) = 0 \<longleftrightarrow> chunk_offset c = 0" by (simp add: unat_eq_zero)
  then show ?thesis by auto
qed

lemma chunk_view_len: "chunk_view c v \<Longrightarrow> unat (chunk_remaining_len c) = piece_len v"
  by (cases v)
    (auto simp: chunk_remaining_len_def buffer_string_length_holds unat_sub_u32 word_le_nat_alt)

lemma chunk_view_advance:
  assumes "chunk_view c v" and "unat k \<le> piece_len v"
  shows "chunk_view (c\<lparr>chunk_offset := chunk_offset c + k\<rparr>) (drop_piece (unat k) v)"
proof (cases v)
  case (Mem j s)
  with assms obtain t where t: "buffer_holds (mem c) t" "unat (chunk_offset c) \<le> length t"
      "s = drop (unat (chunk_offset c)) t" by auto
  have "length t < 2 ^ 32"
    using buffer_string_length_holds [OF t(1)] unat_u32_lt [of "buffer_string_length (mem c)"] by simp
  then have "unat (chunk_offset c + k) = unat (chunk_offset c) + unat k"
    using assms t Mem by (intro unat_add_u32) simp
  with assms t Mem show ?thesis by (auto simp: add.commute)
next
  case (File j f pos n)
  then have "unat (chunk_offset c + k) = unat (chunk_offset c) + unat k"
    using assms by (intro unat_add_u32) auto
  with assms File show ?thesis by auto
qed

lemma views_same_next:
  assumes "views q us vs"
    and "\<And>x. map_option (\<lambda>c. c\<lparr>next_chunk := None\<rparr>) (cells q' x) =
             map_option (\<lambda>c. c\<lparr>next_chunk := None\<rparr>) (cells q x)"
  shows "views q' us vs"
proof -
  have "chunk_view (the (cells q' x)) v = chunk_view (the (cells q x)) v" for x v
    using assms(2) [of x] chunk_view_next [where c = "the (cells q' x)" and p = None and v = v]
      chunk_view_next [where c = "the (cells q x)" and p = None and v = v]
    by (cases "cells q' x"; cases "cells q x") (simp_all del: chunk_view_next)
  with assms(1) show ?thesis by (simp add: views_def)
qed

lemma views_append:
  "length us1 = length vs1 \<Longrightarrow> views q (us1 @ us2) (vs1 @ vs2) \<longleftrightarrow> views q us1 vs1 \<and> views q us2 vs2"
  by (simp add: views_def list_all2_append)

lemma views_Cons [simp]:
  "views q (a # us) (v # vs) \<longleftrightarrow> chunk_view (the (cells q a)) v \<and> views q us vs"
  "views q us [] \<longleftrightarrow> us = []" "views q [] vs \<longleftrightarrow> vs = []"
  by (simp_all add: views_def)

lemma views_snoc: "views q us vs \<Longrightarrow> chunk_view (the (cells q a)) v \<Longrightarrow> views q (us @ [a]) (vs @ [v])"
  by (simp add: views_def list_all2_append list_all2_lengthD)

lemma queue_rel_init: "queue_rel chunkqueue_init []"
  by (auto simp: queue_rel_def queue_wf_def queue_links_def views_def chunkqueue_init_def
      intro!: exI [of _ "[]"])

lemma queue_rel_put:
  assumes "queue_wf q us ids []" and "views q us vs" and "us = us1 @ a # us2" and "vs = vs1 @ v # vs2"
    and "length us1 = length vs1" and "cells q a = Some c" and "next_chunk c' = next_chunk c"
    and "chunk_view c' v'"
  shows "queue_rel (put_chunk q a c') (vs1 @ v' # vs2)"
proof -
  from assms(1) have "distinct us" "a \<notin> set ids"
    using assms(3) by (auto simp: queue_wf_def queue_links_def)
  then have "queue_wf (put_chunk q a c') us ids []"
    using queue_wf_put assms(1,6,7) by blast
  moreover have "views (put_chunk q a c') us (vs1 @ v' # vs2)"
    using assms(2,3,4,5,8) \<open>distinct us\<close>
    by (auto simp: views_append elim!: views_frame)
  ultimately show ?thesis by (auto simp: queue_rel_def)
qed

section \<open>Refinement: the operations on the abstract queue\<close>

text \<open>A chunk taken from the idle list, ready to be filled.\<close>

lemma get_unused_obtain:
  assumes "queue_wf q us ids []" and "views q us vs"
  obtains q' a ids' c where "chunkqueue_get_unused_chunk q = Inr (q', a)" "queue_wf q' us ids' [a]"
    "views q' us vs" "cells q' a = Some c" "idle_chunk c"
proof -
  obtain q' a ids' where get: "chunkqueue_get_unused_chunk q = Inr (q', a)"
    and wf: "queue_wf q' us ids' [a]" and idle: "idle_chunk (the (cells q' a))"
    and frame: "\<forall>x \<in> set us. cells q' x = cells q x"
    using chunkqueue_get_unused_chunk_wf [OF assms(1)] by (auto simp: returns_iff)
  from wf obtain c where c: "cells q' a = Some c"
    by (auto simp: queue_wf_def elim: queue_links_alive [of _ _ _ _ a])
  show ?thesis
    by (rule that [OF get wf _ c]) (use assms(2) frame idle c in \<open>auto elim: views_frame\<close>)
qed

lemma queue_wf_fill:
  assumes "queue_wf q us ids [a]" and "views q us vs" and "cells q a = Some c"
    and "next_chunk c' = next_chunk c"
  shows "queue_wf (put_chunk q a c') us ids [a] \<and> views (put_chunk q a c') us vs"
proof -
  have "a \<notin> set us" "a \<notin> set ids"
    using assms(1) by (auto simp: queue_wf_def queue_links_def)
  with queue_wf_put [OF assms(1,3,4)] assms(2) show ?thesis by (auto elim: views_frame)
qed

lemma fill_and_append:
  assumes "queue_wf q us ids [a]" and "views q us vs" and "cells q a = Some c"
    and "next_chunk c' = next_chunk c" and "chunk_view c' v"
  shows "returns (chunkqueue_append_chunk (put_chunk q a c') a) (\<lambda>q'. queue_rel q' (vs @ [v]))"
proof -
  let ?q = "put_chunk q a c'"
  from queue_wf_fill [OF assms(1-4)] have wf: "queue_wf ?q us ids [a]" and vw: "views ?q us vs"
    by simp_all
  from vw assms(5) have "views ?q (us @ [a]) (vs @ [v])" by (intro views_snoc) simp_all
  with chunkqueue_append_chunk_wf [OF wf] show ?thesis
    by (fastforce simp: returns_iff queue_rel_def intro: views_same_next)
qed

lemma chunkqueue_append_buffer_rel [returns_rules]:
  assumes "queue_rel q vs" and "buffer_holds b s" and "ptr b \<noteq> None" and "length s < buffer_max"
  shows "returns (chunkqueue_append_buffer q b) (\<lambda>q'. queue_rel q' (vs @ [Mem 0 s]))"
proof -
  from assms(1) obtain us ids where "queue_wf q us ids []" "views q us vs"
    by (auto simp: queue_rel_def)
  then obtain q1 a ids1 c where get: "chunkqueue_get_unused_chunk q = Inr (q1, a)"
    and q1: "queue_wf q1 us ids1 [a]" "views q1 us vs" "cells q1 a = Some c" and idle: "idle_chunk c"
    by (rule get_unused_obtain)
  have "buffer_holds (mem c) []" using idle by (simp add: idle_chunk_def)
  from buffer_copy_buffer_holds [OF this assms(2-4)] obtain m
    where m: "buffer_copy_buffer (mem c) b = Inr m" "buffer_holds m s" "unat (used_bytes m) = Suc (length s)"
    by (auto simp: returns_iff)
  let ?c = "c\<lparr>chunk_type := CHUNK_MEM, mem := m\<rparr>"
  have "chunk_view ?c (Mem 0 s)"
    using m(2) buffer_holds_used_ptr [OF m(2,3)] idle by (auto simp: idle_chunk_def)
  from fill_and_append [OF q1 _ this] show ?thesis
    using get q1(3) m(1) by (simp add: chunkqueue_append_buffer_def load_chunk_def)
qed

lemma chunkqueue_append_file_rel [returns_rules]:
  assumes "queue_rel q vs" and "buffer_holds b name" and "used_bytes b \<noteq> 0"
    and "NUL \<notin> set name" and "name \<noteq> []" and "length name < buffer_max"
    and "len \<noteq> 0" and "unat off + unat len < 2 ^ 32"
  shows "returns (chunkqueue_append_file q b off len)
           (\<lambda>q'. queue_rel q' (vs @ [File 0 name (unat off) (unat len)]))"
proof -
  from assms(1) obtain us ids where "queue_wf q us ids []" "views q us vs"
    by (auto simp: queue_rel_def)
  then obtain q1 a ids1 c where get: "chunkqueue_get_unused_chunk q = Inr (q1, a)"
    and q1: "queue_wf q1 us ids1 [a]" "views q1 us vs" "cells q1 a = Some c" and idle: "idle_chunk c"
    by (rule get_unused_obtain)
  have pt: "points_to (ptr b) name" by (rule buffer_holds_points_to [OF assms(2-4)])
  have "buffer_holds (filename c) []" using idle by (simp add: idle_chunk_def)
  from buffer_copy_buffer_holds [OF this assms(2) points_to_not_None [OF pt] assms(6)] obtain m
    where m: "buffer_copy_buffer (filename c) b = Inr m" "buffer_holds m name"
    by (auto simp: returns_iff)
  let ?c = "c\<lparr>chunk_type := CHUNK_FILE, filename := m, file_fd := -1,
              file_offset := Some off, file_length := len\<rparr>"
  have "chunk_view ?c (File 0 name (unat off) (unat len))"
    using m(2) idle assms(8) by (auto simp: idle_chunk_def)
  from fill_and_append [OF q1 _ this] show ?thesis
    using get q1(3) m(1) assms(5,7) cstr_points_to [OF pt]
    by (simp add: chunkqueue_append_file_def load_chunk_def)
qed

lemma chunkqueue_append_file_nothing:
  "points_to (ptr b) name \<Longrightarrow> name = [] \<or> len = 0 \<Longrightarrow> chunkqueue_append_file q b off len = Inr q"
  by (auto simp: chunkqueue_append_file_def)

lemma chunkqueue_prepend_buffer_rel [returns_rules]:
  assumes "queue_rel q vs" and "buffer_holds b s" and "ptr b \<noteq> None" and "length s < buffer_max"
  shows "returns (chunkqueue_prepend_buffer q b) (\<lambda>q'. queue_rel q' (Mem 0 s # vs))"
proof -
  from assms(1) obtain us ids where "queue_wf q us ids []" "views q us vs"
    by (auto simp: queue_rel_def)
  then obtain q1 a ids1 c where get: "chunkqueue_get_unused_chunk q = Inr (q1, a)"
    and q1: "queue_wf q1 us ids1 [a]" "views q1 us vs" "cells q1 a = Some c" and idle: "idle_chunk c"
    by (rule get_unused_obtain)
  have "buffer_holds (mem c) []" using idle by (simp add: idle_chunk_def)
  from buffer_copy_buffer_holds [OF this assms(2-4)] obtain m
    where m: "buffer_copy_buffer (mem c) b = Inr m" "buffer_holds m s" "unat (used_bytes m) = Suc (length s)"
    by (auto simp: returns_iff)
  let ?c = "c\<lparr>chunk_type := CHUNK_MEM, mem := m, next_chunk := q_first q1\<rparr>"
  let ?q2 = "(put_chunk q1 a ?c)\<lparr>q_first := Some a\<rparr>"
  let ?q3 = "if q_last ?q2 = None then ?q2\<lparr>q_last := Some a\<rparr> else ?q2"
  have "chunk_view ?c (Mem 0 s)"
    using m(2) buffer_holds_used_ptr [OF m(2,3)] idle by (auto simp: idle_chunk_def)
  moreover have "queue_wf ?q3 (a # us) ids1 []"
    using q1(1) by (auto simp: queue_wf_def queue_links_def linked_upd)
  moreover have "a \<notin> set us" using q1(1) by (auto simp: queue_wf_def queue_links_def)
  ultimately have "queue_rel ?q3 (Mem 0 s # vs)"
    unfolding queue_rel_def using q1(2)
    by (intro exI [of _ "a # us"] exI [of _ ids1]) (auto elim!: views_frame)
  then show ?thesis
    using get q1(3) m(1) by (simp add: chunkqueue_prepend_buffer_def load_chunk_def Let_def)
qed

lemma chunkqueue_pop_first_wf:
  assumes "queue_wf q (a # us) ids []" and "views q us vs" and "cells q a = Some c"
  shows "returns (chunkqueue_pop_first q a c)
           (\<lambda>q'. brk q' = brk q \<and> (\<exists>ids'. queue_wf q' us ids' [] \<and> views q' us vs))"
proof -
  let ?q1 = "q\<lparr>q_first := next_chunk c\<rparr>"
  let ?q2 = "if q_last ?q1 = Some a then ?q1\<lparr>q_last := None\<rparr> else ?q1"
  have "last us \<noteq> a" if "us \<noteq> []"
    using assms(1) that by (auto simp: queue_wf_def queue_links_def)
  then have wf2: "queue_wf ?q2 us ids [a]"
    using assms(1,3) by (auto simp: queue_wf_def queue_links_def)
  obtain q' ids' where "chunkqueue_push_unused_chunk ?q2 a = Inr q'" "queue_wf q' us ids' []"
      "\<forall>x \<in> set us. cells q' x = cells ?q2 x" "brk q' = brk ?q2"
    using chunkqueue_push_unused_chunk_wf [OF wf2] by (auto simp: returns_iff)
  moreover from this(3) have "views q' us vs"
    by (intro views_frame [OF assms(2)]) simp
  ultimately show ?thesis by (auto simp: chunkqueue_pop_first_def Let_def)
qed

lemma queue_wf_head:
  "queue_wf q (a # us) ids [] \<Longrightarrow> q_first q = Some a \<and> (\<exists>c. cells q a = Some c)"
  by (auto simp: queue_wf_def queue_links_def split: option.splits)

lemma queue_wf_empty: "queue_wf q [] ids ds \<Longrightarrow> q_first q = None \<and> q_last q = None"
  by (simp add: queue_wf_def queue_links_def)

lemma chunkqueue_mark_written_loop_rel:
  "queue_wf q us ids [] \<Longrightarrow> views q us vs \<Longrightarrow> length us < n \<Longrightarrow>
   returns (chunkqueue_mark_written_loop n q len)
     (\<lambda>(q', r). queue_rel q' (consume (unat len) vs) \<and> unat r = unat len - queue_bytes vs)"
proof (induction n arbitrary: q us ids vs len)
  case (Suc n)
  show ?case
  proof (cases us)
    case Nil
    with Suc.prems queue_wf_empty [of q ids "[]"] show ?thesis by (auto simp: queue_rel_def)
  next
    case (Cons a us')
    with Suc.prems(2) obtain v vs' where vs: "vs = v # vs'" and v: "chunk_view (the (cells q a)) v"
      and vs': "views q us' vs'" by (cases vs) auto
    from Suc.prems(1) Cons obtain c where c: "q_first q = Some a" "cells q a = Some c"
      using queue_wf_head by blast
    then have rem: "unat (chunk_remaining_len c) = piece_len v" using chunk_view_len v by simp
    show ?thesis
    proof (cases "piece_len v \<le> unat len \<and> (len = 0 \<longrightarrow> piece_len v = 0)")
      case True
      let ?c = "c\<lparr>chunk_offset := chunk_offset c + chunk_remaining_len c\<rparr>"
      have "a \<notin> set us'" "a \<notin> set ids"
        using Suc.prems(1) Cons by (auto simp: queue_wf_def queue_links_def)
      then have "queue_wf (put_chunk q a ?c) (a # us') ids []" "views (put_chunk q a ?c) us' vs'"
        using queue_wf_put [OF Suc.prems(1) c(2)] vs' Cons by (auto elim: views_frame)
      from chunkqueue_pop_first_wf [OF this, of ?c] obtain q1 ids1
        where q1: "chunkqueue_pop_first (put_chunk q a ?c) a ?c = Inr q1"
          "queue_wf q1 us' ids1 []" "views q1 us' vs'" by (auto simp: returns_iff)
      have "chunk_remaining_len c \<le> len" "(len = 0 \<and> 0 < chunk_remaining_len c) = False"
        using True rem by (auto simp: word_le_nat_alt word_less_nat_alt)
      moreover have "unat (len - chunk_remaining_len c) = unat len - piece_len v"
        using True rem by (simp add: unat_sub_u32 word_le_nat_alt)
      ultimately show ?thesis
        using Suc.IH [OF q1(2,3), of "len - chunk_remaining_len c"] Suc.prems(3) Cons c q1(1) True vs
        by (simp del: de_Morgan_conj add: load_chunk_def Let_def algebra_simps)
    next
      case False
      then have lt: "unat len < piece_len v" by (auto simp: unat_eq_zero)
      then have cons: "consume (unat len) vs = drop_piece (unat len) v # vs'"
        and zero: "unat len - queue_bytes vs = 0" by (simp_all add: vs)
      show ?thesis
      proof (cases "len = 0")
        case True
        have "drop_piece 0 v = v" by (cases v) simp_all
        with True Suc.prems Cons cons c rem lt vs show ?thesis
          by (auto simp: load_chunk_def Let_def word_less_nat_alt queue_rel_def)
      next
        case nz: False
        let ?c = "c\<lparr>chunk_offset := chunk_offset c + len\<rparr>"
        have "chunk_view ?c (drop_piece (unat len) v)"
          using v c lt by (intro chunk_view_advance) simp_all
        then have "queue_rel (put_chunk q a ?c) ([] @ drop_piece (unat len) v # vs')"
          using queue_rel_put [OF Suc.prems(1,2), of "[]" a us' "[]" v vs' c ?c] Cons vs c by simp
        with nz cons zero c rem lt show ?thesis
          by (simp add: load_chunk_def Let_def word_le_nat_alt)
      qed
    qed
  qed
qed simp

lemma chunkqueue_mark_written_rel [returns_rules]:
  assumes "queue_rel q vs"
  shows "returns (chunkqueue_mark_written q len)
     (\<lambda>(q', r). queue_rel q' (consume (unat len) vs) \<and> unat r = unat len - queue_bytes vs)"
proof -
  from assms obtain us ids where "queue_wf q us ids []" "views q us vs" by (auto simp: queue_rel_def)
  then show ?thesis
    using queue_wf_length(1) [of q us ids "[]"]
    by (simp only: chunkqueue_mark_written_def) (rule chunkqueue_mark_written_loop_rel, auto)
qed

text \<open>Only empty pieces are removed by \<open>chunkqueue_remove_finished_chunk\<close>: it consumes 0 bytes.\<close>

lemma chunkqueue_remove_finished_loop_rel:
  "queue_wf q us ids [] \<Longrightarrow> views q us vs \<Longrightarrow> length us < n \<Longrightarrow>
   returns (chunkqueue_remove_finished_loop n q) (\<lambda>q'. queue_rel q' (consume 0 vs))"
proof (induction n arbitrary: q us ids vs)
  case (Suc n)
  show ?case
  proof (cases us)
    case Nil
    with Suc.prems queue_wf_empty [of q ids "[]"] show ?thesis by (auto simp: queue_rel_def)
  next
    case (Cons a us')
    with Suc.prems(2) obtain v vs' where vs: "vs = v # vs'" and v: "chunk_view (the (cells q a)) v"
      and vs': "views q us' vs'" by (cases vs) auto
    from Suc.prems(1) Cons obtain c where c: "q_first q = Some a" "cells q a = Some c"
      using queue_wf_head by blast
    then have rem: "unat (chunk_remaining_len c) = piece_len v" using chunk_view_len v by simp
    show ?thesis
    proof (cases "piece_len v = 0")
      case True
      from chunkqueue_pop_first_wf [OF Suc.prems(1)[unfolded Cons] vs' c(2)] obtain q1 ids1
        where q1: "chunkqueue_pop_first q a c = Inr q1" "queue_wf q1 us' ids1 []" "views q1 us' vs'"
        by (auto simp: returns_iff)
      with Suc.IH [OF q1(2,3)] Suc.prems(3) True rem c Cons vs show ?thesis
        by (simp add: load_chunk_def word_less_nat_alt)
    next
      case False
      have "drop_piece 0 v = v" by (cases v) simp_all
      with False Suc.prems(1,2) rem c vs show ?thesis
        by (auto simp: load_chunk_def word_less_nat_alt queue_rel_def)
    qed
  qed
qed simp

lemma chunkqueue_remove_finished_chunk_rel [returns_rules]:
  assumes "queue_rel q vs"
  shows "returns (chunkqueue_remove_finished_chunk q) (\<lambda>q'. queue_rel q' (consume 0 vs))"
proof -
  from assms obtain us ids where "queue_wf q us ids []" "views q us vs" by (auto simp: queue_rel_def)
  then show ?thesis
    using queue_wf_length(1) [of q us ids "[]"]
    by (simp only: chunkqueue_remove_finished_chunk_def) (rule chunkqueue_remove_finished_loop_rel, auto)
qed

lemma chunkqueue_empty_rel: "queue_rel q vs \<Longrightarrow> chunkqueue_empty q \<longleftrightarrow> vs = []"
  by (auto simp: queue_rel_def queue_wf_def queue_links_def views_def chunkqueue_empty_def
      list_all2_Nil list_all2_Nil2 neq_Nil_conv)

text \<open>
  While \<open>chunkqueue_reset\<close> runs, \<open>first\<close> and \<open>last\<close> still point at chunks it has already moved to the
  idle list or freed; the structure is sound once both are cleared.
\<close>

abbreviation unlinked :: "chunkqueue \<Rightarrow> chunkqueue" where
  "unlinked q \<equiv> q\<lparr>q_first := None, q_last := None\<rparr>"

lemma push_unlinked:
  "chunkqueue_push_unused_chunk (unlinked q) a = Inr q'' \<Longrightarrow>
   \<exists>q'. chunkqueue_push_unused_chunk q a = Inr q' \<and> q'' = unlinked q'"
  by (auto simp: chunkqueue_push_unused_chunk_def chunk_free_def load_chunk_def split: option.splits if_splits)

lemma chunkqueue_reset_loop_wf:
  "queue_wf (unlinked q) [] ids us \<Longrightarrow> linked (cells q) p us \<Longrightarrow> length us < n \<Longrightarrow>
   returns (chunkqueue_reset_loop n q p) (\<lambda>q'. \<exists>ids'. queue_wf (unlinked q') [] ids' [])"
proof (induction n arbitrary: q p us ids)
  case (Suc n)
  show ?case
  proof (cases us)
    case Nil
    with Suc.prems show ?thesis by auto
  next
    case (Cons a us')
    with Suc.prems(2) obtain c where c: "p = Some a" "cells q a = Some c" "linked (cells q) (next_chunk c) us'"
      by (auto split: option.splits)
    obtain q' ids' where q': "chunkqueue_push_unused_chunk (unlinked q) a = Inr q'"
        "queue_wf q' [] ids' us'" "\<forall>x \<in> set us'. cells q' x = cells q x"
      using chunkqueue_push_unused_chunk_wf [OF Suc.prems(1)[unfolded Cons]] by (auto simp: returns_iff)
    from push_unlinked [OF q'(1)] obtain q1
      where q1: "chunkqueue_push_unused_chunk q a = Inr q1" "q' = unlinked q1" by blast
    from c(3) have "linked (cells q1) (next_chunk c) us'"
      by (rule linked_agree) (use q'(3) q1(2) in simp)
    with Suc.IH [of q1 ids' us'] q'(2) q1 c Suc.prems(3) Cons show ?thesis
      by (simp add: load_chunk_def)
  qed
qed simp

lemma chunkqueue_reset_rel [returns_rules]:
  assumes "queue_rel q vs"
  shows "returns (chunkqueue_reset q) (\<lambda>q'. queue_rel q' [])"
proof -
  from assms obtain us ids where wf: "queue_wf q us ids []" by (auto simp: queue_rel_def)
  then have "queue_wf (unlinked q) [] ids us" "linked (cells q) (q_first q) us"
    by (auto simp: queue_wf_def queue_links_def)
  from chunkqueue_reset_loop_wf [OF this, of "Suc (brk q)"] show ?thesis
    using queue_wf_length(1) [OF wf] by (auto simp: chunkqueue_reset_def queue_rel_def returns_iff)
qed

text \<open>
  \<open>chunkqueue_length\<close> sums whole chunks, sent bytes included, in 32-bit arithmetic.
\<close>

lemma chunk_view_total:
  assumes "chunk_view c v"
  shows "(case chunk_type c of CHUNK_MEM \<Rightarrow> buffer_string_length (mem c) | CHUNK_FILE \<Rightarrow> file_length c) =
    of_nat (piece_len v + piece_sent v)"
proof (cases v)
  case (Mem k s)
  with assms obtain t where "chunk_type c = CHUNK_MEM" "buffer_holds (mem c) t" "k \<le> length t" "s = drop k t"
    by auto
  with Mem buffer_string_length_holds [of "mem c" t] show ?thesis by (auto intro: of_nat_eq_u32I)
next
  case (File k f pos n)
  with assms show ?thesis by (auto intro!: of_nat_eq_u32I)
qed

lemma chunkqueue_length_loop_rel:
  "linked (cells q) p us \<Longrightarrow> views q us vs \<Longrightarrow> length us < n \<Longrightarrow>
   chunkqueue_length_loop n q p len = Inr (len + of_nat (queue_bytes vs + queue_sent vs))"
proof (induction n arbitrary: p us vs len)
  case (Suc n)
  show ?case
  proof (cases us)
    case (Cons a us')
    with Suc.prems obtain c v vs' where c: "p = Some a" "cells q a = Some c" "linked (cells q) (next_chunk c) us'"
      and vs: "vs = v # vs'" "chunk_view c v" "views q us' vs'"
      by (cases vs) (auto split: option.splits)
    have sum: "(case chunk_type c of CHUNK_MEM \<Rightarrow> len + buffer_string_length (mem c)
        | CHUNK_FILE \<Rightarrow> len + file_length c) = len + of_nat (piece_len v + piece_sent v)"
      using chunk_view_total [OF vs(2)] by (simp split: chunk_support_type.splits)
    from Suc.IH [OF c(3) vs(3)] Suc.prems(3) Cons c vs(1) sum show ?thesis
      by (simp add: load_chunk_def algebra_simps)
  qed (use Suc.prems in simp)
qed simp

lemma chunkqueue_length_rel:
  assumes "queue_rel q vs"
  shows "chunkqueue_length q = Inr (of_nat (queue_bytes vs + queue_sent vs))"
proof -
  from assms obtain us ids where wf: "queue_wf q us ids []" "views q us vs" by (auto simp: queue_rel_def)
  then have "linked (cells q) (q_first q) us" by (simp add: queue_wf_def queue_links_def)
  from chunkqueue_length_loop_rel [OF this wf(2), of "Suc (brk q)" 0] queue_wf_length(1) [OF wf(1)]
  show ?thesis by (simp add: chunkqueue_length_def)
qed

text \<open>Freeing a queue releases every chunk it ever allocated that is still live.\<close>

lemma chunkqueue_free_used_cells:
  "linked (cells q) (q_first q) us \<Longrightarrow> distinct us \<Longrightarrow> length us < n \<Longrightarrow>
   returns (chunkqueue_free_used n q) (\<lambda>q'. q_idle q' = q_idle q \<and> brk q' = brk q \<and>
     cells q' = (\<lambda>x. if x \<in> set us then None else cells q x))"
proof (induction n arbitrary: q us)
  case (Suc n)
  show ?case
  proof (cases us)
    case (Cons a us')
    with Suc.prems obtain c where c: "q_first q = Some a" "cells q a = Some c" "linked (cells q) (next_chunk c) us'"
      by (auto split: option.splits)
    let ?q = "q\<lparr>cells := (cells q)(a := None), closed_fds := closed_fds q @ chunk_fds c, q_first := next_chunk c\<rparr>"
    have "linked (cells ?q) (q_first ?q) us'"
      using Suc.prems(2) Cons c(3) by (simp add: linked_upd)
    from Suc.IH [OF this] Suc.prems(2,3) Cons c show ?thesis
      by (auto simp: load_chunk_def chunk_free_def returns_iff fun_eq_iff)
  qed (use Suc.prems in auto)
qed simp

lemma chunkqueue_free_idle_cells:
  "linked (cells q) (q_idle q) us \<Longrightarrow> distinct us \<Longrightarrow> length us < n \<Longrightarrow>
   returns (chunkqueue_free_idle n q) (\<lambda>q'. cells q' = (\<lambda>x. if x \<in> set us then None else cells q x))"
proof (induction n arbitrary: q us)
  case (Suc n)
  show ?case
  proof (cases us)
    case (Cons a us')
    with Suc.prems obtain c where c: "q_idle q = Some a" "cells q a = Some c" "linked (cells q) (next_chunk c) us'"
      by (auto split: option.splits)
    let ?q = "q\<lparr>cells := (cells q)(a := None), closed_fds := closed_fds q @ chunk_fds c, q_idle := next_chunk c\<rparr>"
    have "linked (cells ?q) (q_idle ?q) us'"
      using Suc.prems(2) Cons c(3) by (simp add: linked_upd)
    from Suc.IH [OF this] Suc.prems(2,3) Cons c show ?thesis
      by (auto simp: load_chunk_def chunk_free_def returns_iff fun_eq_iff)
  qed (use Suc.prems in auto)
qed simp

lemma chunkqueue_free_rel [returns_rules]:
  assumes "queue_rel q vs"
  shows "returns (chunkqueue_free q) (\<lambda>q'. cells q' = (\<lambda>_. None))"
proof -
  from assms obtain us ids where wf: "queue_wf q us ids []" by (auto simp: queue_rel_def)
  then have l: "linked (cells q) (q_first q) us" "linked (cells q) (q_idle q) ids"
    and d: "distinct us" "distinct ids" "set us \<inter> set ids = {}"
    by (auto simp: queue_wf_def queue_links_def)
  have dead: "cells q x = None" if "x \<notin> set us" "x \<notin> set ids" for x
    using wf that queue_linksD(4) [of q us ids "[]" x] by (auto simp: queue_wf_def)
  from chunkqueue_free_used_cells [OF l(1) d(1), of "Suc (brk q)"] queue_wf_length(1) [OF wf]
  obtain q1 where q1: "chunkqueue_free_used (Suc (brk q)) q = Inr q1" "q_idle q1 = q_idle q" "brk q1 = brk q"
      "cells q1 = (\<lambda>x. if x \<in> set us then None else cells q x)"
    by (auto simp: returns_iff)
  have "linked (cells q1) (q_idle q1) ids"
    unfolding q1(2) by (rule linked_agree [OF l(2)]) (use d(3) q1(4) in auto)
  from chunkqueue_free_idle_cells [OF this d(2), of "Suc (brk q)"] queue_wf_length(2) [OF wf] q1 dead
  show ?thesis by (auto simp: chunkqueue_free_def returns_iff fun_eq_iff)
qed

section \<open>Receiving into the last chunk\<close>

text \<open>What \<open>read\<close> does with the pointer of \<open>chunk_get_memory\<close>: it stores the received bytes there.\<close>

definition chunk_fill :: "chunkqueue \<Rightarrow> addr \<Rightarrow> u32 \<Rightarrow> string \<Rightarrow> fault + chunkqueue" where
  "chunk_fill q a off bs = andthen (load_chunk q a) (\<lambda>c.
     andthen (write_cells (ptr (mem c)) (unat off) (map Some bs)) (\<lambda>p.
     Inr (put_chunk q a (c\<lparr>mem := (mem c)\<lparr>ptr := p\<rparr>\<rparr>))))"

text \<open>
  \<open>open_tail q vs s a off room\<close>: the used list stands for \<open>vs\<close> followed by the memory chunk \<open>a\<close> that
  holds \<open>s\<close>, and the block of \<open>a\<close> has \<open>room\<close> bytes from offset \<open>off\<close>, the end of \<open>s\<close>.
\<close>

definition open_tail :: "chunkqueue \<Rightarrow> piece list \<Rightarrow> string \<Rightarrow> addr \<Rightarrow> u32 \<Rightarrow> nat \<Rightarrow> bool" where
  "open_tail q vs s a off room \<longleftrightarrow> unat off = length s \<and> (\<exists>us ids c cs.
     queue_wf q (us @ [a]) ids [] \<and> views q us vs \<and> cells q a = Some c \<and>
     chunk_type c = CHUNK_MEM \<and> chunk_offset c = 0 \<and> buffer_holds (mem c) s \<and> ptr (mem c) = Some cs \<and>
     length cs = unat (buf_size (mem c)) \<and> length cs = length s + room)"

lemma open_tail_rel: "open_tail q vs s a off room \<Longrightarrow> queue_rel q (vs @ [Mem 0 s])"
proof -
  assume "open_tail q vs s a off room"
  then obtain us ids c where wf: "queue_wf q (us @ [a]) ids []" and v: "views q us vs"
    and c: "cells q a = Some c" "chunk_type c = CHUNK_MEM" "chunk_offset c = 0" "buffer_holds (mem c) s"
      "ptr (mem c) \<noteq> None"
    by (auto simp: open_tail_def)
  from v c have "views q (us @ [a]) (vs @ [Mem 0 s])" by (intro views_snoc) simp_all
  with wf show ?thesis by (auto simp: queue_rel_def)
qed

lemma chunk_receive_rel:
  assumes "open_tail q vs s a off room" and "bs \<noteq> []" and "length bs < room"
  shows "returns (andthen (chunk_fill q a off bs) (\<lambda>q1. chunk_commit_memory q1 (of_nat (length bs))))
    (\<lambda>q'. queue_rel q' (vs @ [Mem 0 (s @ bs)]))"
proof -
  let ?n = "of_nat (length bs) :: u32"
  from assms(1) obtain us ids c cs where off: "unat off = length s"
    and wf: "queue_wf q (us @ [a]) ids []" and vw: "views q us vs" and c: "cells q a = Some c"
    and ty: "chunk_type c = CHUNK_MEM" "chunk_offset c = 0" and b: "buffer_holds (mem c) s"
    and cs: "ptr (mem c) = Some cs" "length cs = unat (buf_size (mem c))" "length cs = length s + room"
    by (auto simp: open_tail_def)
  have small: "length s + length bs < 2 ^ 32"
    using cs(2,3) assms(3) unat_u32_lt [of "buf_size (mem c)"] by simp
  then have n: "unat ?n = length bs" "?n \<noteq> 0"
    using assms(2) by (auto simp: unat_of_nat_u32 unat_eq_0_iff)
  have used: "used_bytes (mem c) = 0 \<longrightarrow> s = []" "used_bytes (mem c) \<noteq> 0 \<longrightarrow> unat (used_bytes (mem c)) = Suc (length s)"
    using buffer_holds_used [OF b] buffer_holds_empty [OF b] by auto
  let ?u = "if buffer_string_length (mem c) = 0 then ?n + 1 else used_bytes (mem c) + ?n"
  have u: "unat ?u = Suc (length s + length bs)"
  proof (cases "buffer_string_length (mem c) = 0")
    case True
    then have "s = []" using buffer_string_length_holds [OF b] by simp
    with True n small show ?thesis
      using unat_u32_lt [of "buf_size (mem c)"] cs(2,3) assms(3) by (simp add: unat_add_u32)
  next
    case False
    then have "used_bytes (mem c) \<noteq> 0" by (auto simp: buffer_string_length_def)
    with False n used show ?thesis
      using unat_u32_lt [of "buf_size (mem c)"] cs(2,3) assms(3) by (simp add: unat_add_u32)
  qed
  have pre: "take (length s) cs = map Some s"
    using buffer_holds_provides [OF b] used(1) by (cases "used_bytes (mem c) = 0") (auto simp: provides_def cs)
  have fits: "length s + length bs < unat (buf_size (mem c))" using cs assms(3) by simp
  from buffer_store_holds [OF cs(1,2) pre fits u] obtain p m
    where p: "write_cells (ptr (mem c)) (length s) (map Some bs) = Inr p"
      and m: "buffer_set_nul ((mem c)\<lparr>ptr := p, used_bytes := ?u\<rparr>) = Inr m" "buffer_holds m (s @ bs)" "used_bytes m = ?u"
    by (auto simp: returns_iff andthen_Inr_iff)
  have pm: "ptr m \<noteq> None" using buffer_holds_used_ptr [OF m(2)] m(3) u by simp
  let ?c1 = "c\<lparr>mem := (mem c)\<lparr>ptr := p\<rparr>\<rparr>"
  let ?c2 = "c\<lparr>mem := m\<rparr>"
  let ?q2 = "put_chunk q a ?c2"
  have anew: "a \<notin> set us" "a \<notin> set ids" using wf by (auto simp: queue_wf_def queue_links_def)
  have "queue_wf ?q2 (us @ [a]) ids []"
    by (rule queue_wf_put [OF wf c _ anew(2)]) simp
  moreover have "views ?q2 (us @ [a]) (vs @ [Mem 0 (s @ bs)])"
    by (intro views_snoc views_frame [OF vw]) (use ty m(2) pm anew(1) in auto)
  ultimately have rel: "queue_rel ?q2 (vs @ [Mem 0 (s @ bs)])" by (auto simp: queue_rel_def)
  have last: "q_last q = Some a" using wf by (simp add: queue_wf_def queue_links_def)
  have len: "buffer_string_length (mem ?c1) = buffer_string_length (mem c)"
    by (simp add: buffer_string_length_def)
  have "chunk_commit_memory (put_chunk q a ?c1) ?n = Inr ?q2"
    using n(2) last ty(1) m(1) len
    by (cases "buffer_string_length (mem c) = 0") (simp_all add: chunk_commit_memory_def load_chunk_def)
  with rel off c p show ?thesis by (simp add: chunk_fill_def load_chunk_def)
qed

text \<open>Getting memory ends in an open tail with room for the request.\<close>

lemma same_but_next:
  "map_option (\<lambda>c. c\<lparr>next_chunk := None\<rparr>) x = map_option (\<lambda>c. c\<lparr>next_chunk := None\<rparr>) (Some c) \<Longrightarrow>
   \<exists>c'. x = Some c' \<and> mem c' = mem c \<and> chunk_offset c' = chunk_offset c"
  by (cases x) (auto dest: arg_cong [where f = mem] arg_cong [where f = chunk_offset])

lemma get_memory_fresh:
  assumes "queue_wf q us ids []" and "views q us vs" and "unat n + 64 \<le> 2 ^ 32" and "n \<noteq> 0"
  shows "returns (andthen (chunkqueue_get_unused_chunk q) (\<lambda>(q2, a).
      andthen (chunkqueue_append_chunk q2 a) (\<lambda>q3. andthen (load_chunk q3 a) (\<lambda>c.
      let b = buffer_alloc_size (mem c) n
      in Inr (put_chunk q3 a (c\<lparr>chunk_type := CHUNK_MEM, mem := b\<rparr>), Some (a, buffer_string_length b))))))
    (\<lambda>(q', r). \<exists>a off. r = Some (a, off) \<and> open_tail q' vs [] a off (unat (buffer_align_size n)))"
proof -
  obtain q1 a ids1 c where get: "chunkqueue_get_unused_chunk q = Inr (q1, a)"
    and q1: "queue_wf q1 us ids1 [a]" "views q1 us vs" "cells q1 a = Some c" and idle: "idle_chunk c"
    by (rule get_unused_obtain [OF assms(1,2)])
  obtain q2 where q2: "chunkqueue_append_chunk q1 a = Inr q2" "queue_wf q2 (us @ [a]) ids1 []"
    and same: "\<And>x. map_option (\<lambda>c. c\<lparr>next_chunk := None\<rparr>) (cells q2 x) =
                   map_option (\<lambda>c. c\<lparr>next_chunk := None\<rparr>) (cells q1 x)"
    using chunkqueue_append_chunk_wf [OF q1(1)] by (auto simp: returns_iff)
  from same_but_next [of "cells q2 a" c] same [of a] q1(3) idle obtain c2
    where c2: "cells q2 a = Some c2" "mem c2 = buffer_init" "chunk_offset c2 = 0"
    by (auto simp: idle_chunk_def)
  have v2: "views q2 us vs" by (rule views_same_next [OF q1(2) same])
  let ?b = "buffer_alloc_size (mem c2) n"
  let ?c = "c2\<lparr>chunk_type := CHUNK_MEM, mem := ?b\<rparr>"
  let ?q = "put_chunk q2 a ?c"
  have hb: "buffer_holds (mem c2) []" "used_bytes (mem c2) = 0"
    unfolding c2(2) by (rule buffer_init_holds) (simp add: buffer_init_def)
  note blk = buffer_alloc_size_block [OF hb(1) assms(3)]
  from blk(1) obtain cs where cs: "ptr ?b = Some cs" "length cs = unat (buf_size ?b)" by blast
  have hb': "buffer_holds ?b []" by (rule buffer_alloc_size_holds [OF hb])
  have anew: "a \<notin> set us" "a \<notin> set ids1" using q2(2) by (auto simp: queue_wf_def queue_links_def)
  have "queue_wf ?q (us @ [a]) ids1 []" by (rule queue_wf_put [OF q2(2) c2(1) _ anew(2)]) simp
  moreover have "views ?q us vs" by (rule views_frame [OF v2]) (use anew in auto)
  moreover have "unat (buffer_string_length ?b) = 0"
    using buffer_string_length_holds [OF hb'] by simp
  moreover have "length cs = unat (buffer_align_size n)"
    using cs assms(4) by (auto simp: c2(2) buffer_alloc_size_def buffer_init_def malloc_cells_def Let_def)
  ultimately have "open_tail ?q vs [] a (buffer_string_length ?b) (unat (buffer_align_size n))"
    using hb' cs c2(3) unfolding open_tail_def by auto
  then show ?thesis
    using get q2(1) c2(1) by (auto simp: load_chunk_def Let_def)
qed

lemma chunk_get_memory_rel:
  assumes "queue_rel q vs" and "\<forall>v \<in> set vs. \<exists>s. v = Mem 0 s" and "n \<noteq> 0" and "unat n + 64 \<le> 2 ^ 32"
  shows "returns (chunk_get_memory q n) (\<lambda>(q', r). \<exists>vs' s a off room. r = Some (a, off) \<and>
      open_tail q' vs' s a off room \<and> (vs = vs' @ [Mem 0 s] \<or> vs = vs' \<and> s = []) \<and>
      unat n \<le> room \<and> (s \<noteq> [] \<longrightarrow> unat n < room))"
proof -
  from assms(1) obtain us ids where wf: "queue_wf q us ids []" and vw: "views q us vs"
    by (auto simp: queue_rel_def)
  have al: "unat n \<le> unat (buffer_align_size n)"
    using buffer_align_size_bounds(1) [of n] assms(4) by simp
  show ?thesis
  proof (cases us rule: rev_cases)
    case Nil
    then have "q_last q = None" using wf by (simp add: queue_wf_def queue_links_def)
    with get_memory_fresh [OF wf vw assms(4,3)] al show ?thesis
      using assms(3) by (force simp: chunk_get_memory_def returns_iff)
  next
    case (snoc us0 l)
    then obtain vs0 v where vs: "vs = vs0 @ [v]" and len: "length us0 = length vs0"
      using vw by (cases vs rule: rev_cases) (auto simp: views_def dest: list_all2_lengthD)
    from assms(2) vs obtain s where v: "v = Mem 0 s" by auto
    have "l \<in> set (us @ ids @ [])" using snoc by simp
    then obtain c where c: "cells q l = Some c"
      using wf by (auto simp: queue_wf_def elim: queue_links_alive)
    have views0: "views q us0 vs0" and vc: "chunk_view c (Mem 0 s)"
      using vw by (simp_all only: snoc vs views_append [OF len] v views_Cons c option.sel simp_thms)
    then have ty: "chunk_type c = CHUNK_MEM" "chunk_offset c = 0" and pc: "ptr (mem c) \<noteq> None"
      and hold: "buffer_holds (mem c) s"
      by (simp_all only: chunk_view_unsent not_False_eq_True simp_thms)
    have last: "q_last q = Some l" using wf snoc by (simp add: queue_wf_def queue_links_def)
    let ?b = "if buffer_is_empty (mem c) then buffer_alloc_size (mem c) n else mem c"
    let ?q = "put_chunk q l (c\<lparr>mem := ?b\<rparr>)"
    have lnew: "l \<notin> set us0" "l \<notin> set ids" using wf snoc by (auto simp: queue_wf_def queue_links_def)
    have wf1: "queue_wf ?q (us0 @ [l]) ids []"
      using queue_wf_put [OF wf c _ lnew(2)] snoc by simp
    have hold1: "buffer_holds ?b s"
      using hold buffer_alloc_size_holds [OF hold] buffer_holds_empty [OF hold]
      by (auto simp: buffer_is_empty_def word_gt_0)
    have pb: "ptr ?b \<noteq> None" using pc by (auto simp: buffer_alloc_size_def malloc_cells_def Let_def)
    have v1: "views ?q us0 vs0" by (rule views_frame [OF views0]) (use lnew in auto)
    have rem: "unat (buffer_remaining_bytes ?b) = unat (buf_size ?b) - unat (used_bytes ?b)"
      using buffer_holds_used_le [OF hold1]
      by (auto simp: buffer_remaining_bytes_def unat_sub_u32 word_le_nat_alt word_gt_0)
    show ?thesis
    proof (cases "n \<le> buffer_remaining_bytes ?b")
      case True
      then have fits: "unat n + unat (used_bytes ?b) \<le> unat (buf_size ?b)" and "buf_size ?b \<noteq> 0"
        using rem assms(3) by (auto simp: word_le_nat_alt unat_eq_0_iff)
      then obtain cs where cs: "ptr ?b = Some cs" "length cs = unat (buf_size ?b)"
        using hold1 by (cases "ptr ?b") (auto simp: buffer_holds_def)
      have used: "length s \<le> unat (used_bytes ?b)" "s \<noteq> [] \<longrightarrow> length s < unat (used_bytes ?b)"
        using buffer_holds_used [OF hold1] buffer_holds_empty [OF hold1]
        by (cases "used_bytes ?b = 0"; auto)+
      have "open_tail ?q vs0 s l (buffer_string_length ?b) (length cs - length s)"
        unfolding open_tail_def using wf1 v1 ty hold1 cs buffer_string_length_holds [OF hold1] used(1) fits
        by (intro conjI exI [of _ us0] exI [of _ ids]) auto
      then have "\<exists>vs' t a off room. Some (l, buffer_string_length ?b) = Some (a, off) \<and>
          open_tail ?q vs' t a off room \<and> (vs = vs' @ [Mem 0 t] \<or> vs = vs' \<and> t = []) \<and>
          unat n \<le> room \<and> (t \<noteq> [] \<longrightarrow> unat n < room)"
        using vs v fits used cs by (intro exI [of _ vs0] exI [of _ s]) auto
      then show ?thesis
        using True assms(3) last c ty by (simp add: chunk_get_memory_def load_chunk_def Let_def)
    next
      case False
      have "views ?q (us0 @ [l]) (vs0 @ [Mem 0 s])"
        by (rule views_snoc [OF v1]) (use ty hold1 pb in auto)
      from get_memory_fresh [OF wf1 this assms(4,3)] al show ?thesis
        using False assms(3) last c ty vs v
        by (force simp: chunk_get_memory_def load_chunk_def Let_def returns_iff)
    qed
  qed
qed

text \<open>
  A read that fills the block to its end is committed one byte too far: the NUL goes behind the block.
\<close>

lemma chunk_receive_overflow:
  assumes "open_tail q vs s a off room" and "bs \<noteq> []" and "length bs = room"
  shows "andthen (chunk_fill q a off bs) (\<lambda>q1. chunk_commit_memory q1 (of_nat (length bs))) = Inl OutOfBounds"
proof -
  let ?n = "of_nat (length bs) :: u32"
  from assms(1) obtain us ids c cs where off: "unat off = length s"
    and wf: "queue_wf q (us @ [a]) ids []" and c: "cells q a = Some c"
    and ty: "chunk_type c = CHUNK_MEM" and b: "buffer_holds (mem c) s"
    and cs: "ptr (mem c) = Some cs" "length cs = unat (buf_size (mem c))" "length cs = length s + room"
    by (auto simp: open_tail_def)
  have small: "length s + length bs < 2 ^ 32"
    using cs(2,3) assms(3) unat_u32_lt [of "buf_size (mem c)"] by simp
  then have n: "?n \<noteq> 0" using assms(2) by (auto simp: unat_of_nat_u32 unat_eq_0_iff)
  have "buffer_string_length (mem c) = of_nat (length s)"
    using buffer_string_length_holds [OF b] by (rule of_nat_eq_u32I)
  then have "(if buffer_string_length (mem c) = 0 then ?n + 1 else used_bytes (mem c) + ?n) - 1 =
      of_nat (length s + length bs)"
    by (auto simp: buffer_string_length_def diff_eq_eq split: if_splits)
  then have "unat ((if buffer_string_length (mem c) = 0 then ?n + 1 else used_bytes (mem c) + ?n) - 1) = length cs"
    using small cs(3) assms(3) by (simp only: unat_of_nat_u32)
  moreover have "q_last q = Some a" using wf by (simp add: queue_wf_def queue_links_def)
  ultimately show ?thesis
    using n off c ty cs assms(3)
    by (auto simp: chunk_fill_def load_chunk_def chunk_commit_memory_def buffer_set_nul_def buffer_string_length_def)
qed

section \<open>The interface: a queue of bytes to send\<close>

text \<open>
  The write path relies on one law: acknowledging \<open>n\<close> sent bytes consumes \<open>n\<close> bytes of the queue.
  Whatever sizes the kernel accepts, the acknowledgements of a transfer add up.
\<close>

fun mark_each :: "('q \<Rightarrow> u32 \<Rightarrow> fault + ('q \<times> u32)) \<Rightarrow> 'q \<Rightarrow> u32 list \<Rightarrow> fault + 'q" where
  "mark_each f q [] = Inr q"
| "mark_each f q (n # ns) = andthen (f q n) (\<lambda>(q', r). mark_each f q' ns)"

locale send_queue =
  fixes rel :: "'q \<Rightarrow> piece list \<Rightarrow> bool"
    and mark :: "'q \<Rightarrow> u32 \<Rightarrow> fault + ('q \<times> u32)"
  assumes mark_rel: "rel q vs \<Longrightarrow> returns (mark q n) (\<lambda>(q', r).
    rel q' (consume (unat n) vs) \<and> unat r = unat n - queue_bytes vs)"
begin

lemma mark_each_rel:
  "rel q vs \<Longrightarrow> returns (mark_each mark q ns) (\<lambda>q'. rel q' (foldl (\<lambda>ws n. consume (unat n) ws) vs ns))"
proof (induction ns arbitrary: q vs)
  case (Cons n ns)
  from mark_rel [OF Cons.prems, of n] obtain q1 r
    where "mark q n = Inr (q1, r)" "rel q1 (consume (unat n) vs)" by (auto simp: returns_iff)
  with Cons.IH show ?case by simp
qed simp

lemma mark_accepts: "rel q vs \<Longrightarrow> unat n \<le> queue_bytes vs \<Longrightarrow> \<exists>q'. mark q n = Inr (q', 0)"
  using mark_rel [of q vs n] by (auto simp: returns_iff unat_eq_zero)

end

interpretation chunks: send_queue queue_rel chunkqueue_mark_written
  by unfold_locales (rule chunkqueue_mark_written_rel)

lemma foldl_consume_from:
  "foldl (\<lambda>ws n. consume (unat n) ws) (consume k vs) ns = consume (k + sum_list (map unat ns)) vs"
  by (induction ns arbitrary: k) (simp_all add: consume_consume add.assoc)

lemma foldl_consume:
  "ns \<noteq> [] \<Longrightarrow>
   foldl (\<lambda>ws n. consume (unat n) ws) vs ns = consume (sum_list (map unat ns)) vs"
  by (cases ns) (simp_all add: foldl_consume_from)

text \<open>The bytes a queue will put on the wire, for given file contents.\<close>

fun piece_stream :: "(string \<Rightarrow> string) \<Rightarrow> piece \<Rightarrow> string" where
  "piece_stream fs (Mem k s) = s"
| "piece_stream fs (File k f pos n) = take n (drop pos (fs f))"

definition queue_stream :: "(string \<Rightarrow> string) \<Rightarrow> piece list \<Rightarrow> string" where
  "queue_stream fs vs = concat (map (piece_stream fs) vs)"

text \<open>Every file piece lies inside its file.\<close>

fun piece_backed :: "(string \<Rightarrow> string) \<Rightarrow> piece \<Rightarrow> bool" where
  "piece_backed fs (Mem k s) \<longleftrightarrow> True"
| "piece_backed fs (File k f pos n) \<longleftrightarrow> pos + n \<le> length (fs f)"

lemma length_piece_stream: "piece_backed fs p \<Longrightarrow> length (piece_stream fs p) = piece_len p"
  by (cases p) auto

lemma piece_stream_drop: "piece_stream fs (drop_piece k p) = drop k (piece_stream fs p)"
  by (cases p) (auto simp: drop_take add.commute)

lemma queue_stream_consume:
  "\<forall>p \<in> set vs. piece_backed fs p \<Longrightarrow> queue_stream fs (consume n vs) = drop n (queue_stream fs vs)"
  by (induction n vs rule: consume.induct)
    (auto simp: queue_stream_def length_piece_stream piece_stream_drop)

section \<open>Properties\<close>

text \<open>C27: appending a buffer to a well-formed chunk queue never faults and puts its bytes behind
  everything queued; the linked structure stays sound.\<close>

theorem append_buffer_is_fifo:
  assumes "queue_rel q vs" and "buffer_holds b s" and "ptr b \<noteq> None" and "length s < buffer_max"
  shows "\<exists>q'. chunkqueue_append_buffer q b = Inr q' \<and> queue_rel q' (vs @ [Mem 0 s])"
  using chunkqueue_append_buffer_rel [OF assms] by (simp add: returns_iff)

text \<open>A buffer for the witnesses, holding one short string.\<close>

definition sample_buffer :: "string \<Rightarrow> buffer" where
  "sample_buffer s = \<lparr>ptr = lit s, used_bytes = of_nat (Suc (length s)), buf_size = of_nat (Suc (length s))\<rparr>"

lemma sample_buffer_holds: "length s < 2 ^ 31 \<Longrightarrow> buffer_holds (sample_buffer s) s"
proof -
  assume "length s < 2 ^ 31"
  then have u: "unat (of_nat (Suc (length s)) :: u32) = Suc (length s)" by (intro unat_of_nat_u32) simp
  then have "(of_nat (Suc (length s)) :: u32) \<noteq> 0" by (simp add: unat_eq_0_iff)
  with u show ?thesis by (simp add: sample_buffer_def buffer_holds_def lit_def del: of_nat_Suc)
qed

theorem append_buffer_is_fifo_witness:
  "\<exists>q'. chunkqueue_append_buffer chunkqueue_init (sample_buffer ''hi'') = Inr q' \<and>
     queue_rel q' ([] @ [Mem 0 ''hi''])"
  by (rule append_buffer_is_fifo [OF queue_rel_init sample_buffer_holds])
    (simp_all add: sample_buffer_def lit_def)

text \<open>C26: whatever sizes the kernel reports for a run of writes, acknowledging them one by one removes
  exactly their sum from the front of the byte stream of the queue, across chunk borders, for memory
  and file chunks alike; no loop diverges and no freed chunk is touched.\<close>

theorem mark_written_stream:
  assumes "queue_rel q vs" and "\<forall>p \<in> set vs. piece_backed fs p"
  shows "\<exists>q' ws. mark_each chunkqueue_mark_written q ns = Inr q' \<and> queue_rel q' ws \<and>
    queue_stream fs ws = drop (sum_list (map unat ns)) (queue_stream fs vs)"
proof (cases "ns = []")
  case True
  with assms show ?thesis by auto
next
  case False
  from chunks.mark_each_rel [OF assms(1), of ns] obtain q'
    where "mark_each chunkqueue_mark_written q ns = Inr q'"
      "queue_rel q' (consume (sum_list (map unat ns)) vs)"
    by (auto simp: returns_iff foldl_consume [OF False])
  with queue_stream_consume [OF assms(2)] show ?thesis by blast
qed

lemma sample_queue: "\<exists>q. queue_rel q [Mem 0 ''hello'']"
  using chunkqueue_append_buffer_rel [OF queue_rel_init sample_buffer_holds, of "''hello''"]
  by (auto simp: returns_iff sample_buffer_def lit_def)

theorem mark_written_stream_witness:
  "\<exists>q q' ws. queue_rel q [Mem 0 ''hello''] \<and>
    mark_each chunkqueue_mark_written q [1, 3] = Inr q' \<and> queue_rel q' ws \<and>
    queue_stream (\<lambda>_. []) ws = ''o''"
proof -
  obtain q where q: "queue_rel q [Mem 0 ''hello'']" using sample_queue by blast
  from mark_written_stream [OF q, of "\<lambda>_. []" "[1, 3]"] q show ?thesis
    by (auto simp: queue_stream_def)
qed

text \<open>Freeing a well-formed queue releases every chunk it owns, on either list, exactly once.\<close>

theorem chunkqueue_free_releases_all:
  assumes "queue_rel q vs"
  shows "\<exists>q'. chunkqueue_free q = Inr q' \<and> cells q' = (\<lambda>_. None)"
  using chunkqueue_free_rel [OF assms] by (simp add: returns_iff)

theorem chunkqueue_free_releases_all_witness:
  "\<exists>q q'. queue_rel q [Mem 0 ''hello''] \<and> chunkqueue_free q = Inr q' \<and> cells q' = (\<lambda>_. None)"
proof -
  obtain q where q: "queue_rel q [Mem 0 ''hello'']" using sample_queue by blast
  from chunkqueue_free_releases_all [OF q] q show ?thesis by blast
qed

end
