(* ===== verification/Memory.thy ===== *)
theory Memory
  imports Chunk
begin

text \<open>
  The blocks of memory the program owns: what the \<open>*_free\<close> functions of \<open>src/buffer.cpp\<close>, \<open>src/request.cpp\<close>,
  \<open>src/response.cpp\<close>, \<open>src/key_map.cpp\<close>, \<open>src/config.cpp\<close>, \<open>src/fdevents.cpp\<close> and \<open>src/server.cpp\<close> give back, and in which
  order. The other theories describe a struct by its value; here an object is the tree of its blocks: the address of the
  struct and the addresses its pointers hold (\<open>None\<close> for \<open>NULL\<close>), together with what decides whether an operation allocates.
  The locale \<open>owner\<close> states what freeing an object promises: the blocks it owns are given back, each once, and no other
  block is touched; \<open>lifecycle\<close> adds the function that makes the object. Two properties show where the program does not keep
  to this: a response set up anew, and the configuration at the end of the program.
\<close>

section \<open>The C code: blocks\<close>

text \<open>Which blocks are allocated, and the address the next \<open>malloc\<close> answers; \<open>malloc\<close> is assumed to succeed, as the code assumes.\<close>

record memory =
  live :: "addr set"
  next_block :: addr

definition mem_malloc :: "memory \<Rightarrow> addr \<times> memory" where
  "mem_malloc m = (next_block m, m\<lparr>live := insert (next_block m) (live m), next_block := Suc (next_block m)\<rparr>)"

text \<open>\<open>free(NULL)\<close> does nothing; a block that is not allocated must not be freed.\<close>

definition mem_free :: "addr option \<Rightarrow> memory \<Rightarrow> fault + memory" where
  "mem_free p m =
     (case p of
        None \<Rightarrow> Inr m
      | Some a \<Rightarrow> if a \<in> live m then Inr (m\<lparr>live := live m - {a}\<rparr>) else Inl UseAfterFree)"

section \<open>The C code: buffers\<close>

text \<open>A buffer: the address of its struct, the block \<open>ptr\<close> points at, and its fields as \<open>Buffer\<close> has them.\<close>

record buffer_obj =
  buffer_at :: addr
  ptr_at :: "addr option"
  contents :: buffer

definition buffer_init_obj :: "memory \<Rightarrow> buffer_obj \<times> memory" where
  "buffer_init_obj m = (let (a, m1) = mem_malloc m in (\<lparr>buffer_at = a, ptr_at = None, contents = buffer_init\<rparr>, m1))"

definition buffer_free :: "buffer_obj option \<Rightarrow> memory \<Rightarrow> fault + memory" where
  "buffer_free p m =
     (case p of
        None \<Rightarrow> Inr m
      | Some b \<Rightarrow> andthen (mem_free (ptr_at b) m) (\<lambda>m1. mem_free (Some (buffer_at b)) m1))"

definition buffer_reset_obj :: "buffer_obj \<Rightarrow> memory \<Rightarrow> fault + (buffer_obj \<times> memory)" where
  "buffer_reset_obj b m =
     andthen (mem_free (ptr_at b) m) (\<lambda>m1. Inr (b\<lparr>ptr_at := None, contents := buffer_reset (contents b)\<rparr>, m1))"

text \<open>The two operations that get a new block: the old one is freed, here and by \<open>realloc\<close>.\<close>

definition buffer_alloc_obj :: "buffer_obj \<Rightarrow> u32 \<Rightarrow> memory \<Rightarrow> fault + (buffer_obj \<times> memory)" where
  "buffer_alloc_obj b sizes0 m =
     (let sizes = (if sizes0 = 0 then 1 else sizes0)
      in if sizes \<le> buf_size (contents b) then Inr (b, m)
         else andthen (mem_free (ptr_at b) m) (\<lambda>m1.
              let (a, m2) = mem_malloc m1
              in Inr (b\<lparr>ptr_at := Some a, contents := buffer_alloc_size (contents b) sizes0\<rparr>, m2)))"

definition buffer_prepare_obj :: "buffer_obj \<Rightarrow> u32 \<Rightarrow> memory \<Rightarrow> fault + (buffer_obj \<times> memory)" where
  "buffer_prepare_obj b sizes m =
     (if buffer_remaining_bytes (contents b) < sizes
      then andthen (mem_free (ptr_at b) m) (\<lambda>m1.
           let (a, m2) = mem_malloc m1
           in Inr (b\<lparr>ptr_at := Some a, contents := buffer_append_prepare_sizes (contents b) sizes\<rparr>, m2))
      else Inr (b, m))"

section \<open>The C code: requests and responses\<close>

text \<open>Both are parts of the struct of their connection and own their buffers only.\<close>

record request_obj =
  request_content_at :: buffer_obj
  http_method_at :: buffer_obj
  request_url_at :: buffer_obj
  hostname_at :: buffer_obj
  http_range_at :: buffer_obj

definition request_initialize_obj :: "memory \<Rightarrow> request_obj \<times> memory" where
  "request_initialize_obj m =
     (let (content, m1) = buffer_init_obj m; (meth, m2) = buffer_init_obj m1; (url, m3) = buffer_init_obj m2;
          (host, m4) = buffer_init_obj m3; (range, m5) = buffer_init_obj m4
      in (\<lparr>request_content_at = content, http_method_at = meth, request_url_at = url, hostname_at = host,
           http_range_at = range\<rparr>, m5))"

definition request_free :: "request_obj \<Rightarrow> memory \<Rightarrow> fault + memory" where
  "request_free r m =
     andthen (buffer_free (Some (request_content_at r)) m) (\<lambda>m.
     andthen (buffer_free (Some (http_method_at r)) m) (\<lambda>m.
     andthen (buffer_free (Some (request_url_at r)) m) (\<lambda>m.
     andthen (buffer_free (Some (http_range_at r)) m) (\<lambda>m.
     buffer_free (Some (hostname_at r)) m))))"

record response_obj =
  content_type_at :: buffer_obj
  fullpath_at :: buffer_obj

definition response_initialize_obj :: "memory \<Rightarrow> response_obj \<times> memory" where
  "response_initialize_obj m =
     (let (ct, m1) = buffer_init_obj m; (path, m2) = buffer_init_obj m1
      in (\<lparr>content_type_at = ct, fullpath_at = path\<rparr>, m2))"

definition response_reset_obj :: "response_obj \<Rightarrow> memory \<Rightarrow> fault + (response_obj \<times> memory)" where
  "response_reset_obj r m =
     andthen (buffer_reset_obj (fullpath_at r) m) (\<lambda>(path, m1).
     andthen (buffer_reset_obj (content_type_at r) m1) (\<lambda>(ct, m2).
     Inr (\<lparr>content_type_at = ct, fullpath_at = path\<rparr>, m2)))"

definition response_free :: "response_obj \<Rightarrow> memory \<Rightarrow> fault + memory" where
  "response_free r m =
     andthen (buffer_free (Some (fullpath_at r)) m) (\<lambda>m. buffer_free (Some (content_type_at r)) m)"

section \<open>The C code: the mime table, the configuration, the server, the event table\<close>

record mime_entry_obj =
  entry_at :: addr
  extension_at :: "addr option"
  mime_type_at :: "addr option"

record mime_table_obj =
  table_at :: addr
  array_at :: addr
  entries_at :: "mime_entry_obj option list"
  used_entries :: u32

fun mime_free_loop :: "nat list \<Rightarrow> mime_table_obj \<Rightarrow> memory \<Rightarrow> fault + (mime_table_obj \<times> memory)" where
  "mime_free_loop [] t m = Inr (t, m)"
| "mime_free_loop (i # is) t m =
     (if i < length (entries_at t)
      then (case entries_at t ! i of
              None \<Rightarrow> Inl AssertFailed
            | Some e \<Rightarrow>
                andthen (mem_free (extension_at e) m) (\<lambda>m.
                andthen (mem_free (mime_type_at e) m) (\<lambda>m.
                andthen (mem_free (Some (entry_at e)) m) (\<lambda>m.
                mime_free_loop is (t\<lparr>entries_at := (entries_at t)[i := None]\<rparr>) m))))
      else Inl OutOfBounds)"

definition mime_table_free :: "mime_table_obj \<Rightarrow> memory \<Rightarrow> fault + memory" where
  "mime_table_free t m =
     andthen (mime_free_loop [0..<unat (used_entries t)] t m) (\<lambda>(t, m).
     andthen (mem_free (Some (array_at t)) m) (\<lambda>m. mem_free (Some (table_at t)) m))"

record config_obj =
  config_at :: addr
  service_name_at :: buffer_obj
  service_root_dir_at :: buffer_obj
  mimetype_filepath_at :: buffer_obj
  config_filepath_at :: buffer_obj
  log_filename_at :: buffer_obj
  version_info_at :: buffer_obj
  mime_at :: "mime_table_obj option"

definition server_config_init_obj :: "memory \<Rightarrow> config_obj \<times> memory" where
  "server_config_init_obj m =
     (let (a, m) = mem_malloc m; (name, m) = buffer_init_obj m; (root, m) = buffer_init_obj m;
          (mime, m) = buffer_init_obj m; (path, m) = buffer_init_obj m; (log, m) = buffer_init_obj m;
          (version, m) = buffer_init_obj m
      in (\<lparr>config_at = a, service_name_at = name, service_root_dir_at = root, mimetype_filepath_at = mime,
           config_filepath_at = path, log_filename_at = log, version_info_at = version, mime_at = None\<rparr>, m))"

definition server_config_free :: "config_obj \<Rightarrow> memory \<Rightarrow> fault + memory" where
  "server_config_free c m =
     andthen (buffer_free (Some (service_name_at c)) m) (\<lambda>m.
     andthen (buffer_free (Some (version_info_at c)) m) (\<lambda>m.
     andthen (buffer_free (Some (service_root_dir_at c)) m) (\<lambda>m.
     andthen (buffer_free (Some (mimetype_filepath_at c)) m) (\<lambda>m.
     andthen (buffer_free (Some (config_filepath_at c)) m) (\<lambda>m.
     andthen (buffer_free (Some (log_filename_at c)) m) (\<lambda>m.
     andthen (case mime_at c of None \<Rightarrow> Inr m | Some t \<Rightarrow> mime_table_free t m) (\<lambda>m.
     mem_free (Some (config_at c)) m)))))))"

record server_obj =
  server_at :: addr
  child_at :: addr
  config_of :: config_obj

text \<open>The configuration is given back with \<open>free\<close>, not with \<open>server_config_free\<close>.\<close>

definition server_free :: "server_obj \<Rightarrow> memory \<Rightarrow> fault + memory" where
  "server_free srv m =
     andthen (mem_free (Some (child_at srv)) m) (\<lambda>m.
     andthen (mem_free (Some (config_at (config_of srv))) m) (\<lambda>m.
     mem_free (Some (server_at srv)) m))"

text \<open>Without a descriptor for epoll the struct is given back at once.\<close>

record fdevents_obj =
  fdevents_at :: addr
  nodes_at :: addr
  epoll_events_at :: addr

definition fdevent_initialize_obj :: "(int \<Rightarrow> int) \<Rightarrow> int \<Rightarrow> memory \<Rightarrow> fault + (fdevents_obj option \<times> memory)" where
  "fdevent_initialize_obj epoll_create n m =
     (let (ev, m) = mem_malloc m
      in if epoll_create n < 0 then andthen (mem_free (Some ev) m) (\<lambda>m. Inr (None, m))
         else let (nodes, m) = mem_malloc m; (evs, m) = mem_malloc m
              in Inr (Some \<lparr>fdevents_at = ev, nodes_at = nodes, epoll_events_at = evs\<rparr>, m))"

definition fdevent_free :: "fdevents_obj option \<Rightarrow> memory \<Rightarrow> fault + memory" where
  "fdevent_free p m =
     (case p of
        None \<Rightarrow> Inr m
      | Some ev \<Rightarrow>
          andthen (mem_free (Some (epoll_events_at ev)) m) (\<lambda>m.
          andthen (mem_free (Some (nodes_at ev)) m) (\<lambda>m.
          mem_free (Some (fdevents_at ev)) m)))"

section \<open>Freeing a list of blocks\<close>

text \<open>The blocks of a list, one after the other: it succeeds exactly when they are distinct and allocated.\<close>

fun free_list :: "addr list \<Rightarrow> memory \<Rightarrow> fault + memory" where
  "free_list [] m = Inr m"
| "free_list (a # as) m = andthen (mem_free (Some a) m) (free_list as)"

lemma mem_free_simps [simp]:
  "mem_free None m = Inr m"
  "a \<in> live m \<Longrightarrow> mem_free (Some a) m = Inr (m\<lparr>live := live m - {a}\<rparr>)"
  "a \<notin> live m \<Longrightarrow> mem_free (Some a) m = Inl UseAfterFree"
  by (simp_all add: mem_free_def)

lemma andthen_assoc: "andthen (andthen m f) g = andthen m (\<lambda>x. andthen (f x) g)"
  by (cases m) simp_all

lemma andthen_Inr [simp]: "andthen m Inr = m"
  by (cases m) simp_all

lemma free_list_fun: "free_list [] = Inr" "free_list (a # as) = (\<lambda>m. andthen (mem_free (Some a) m) (free_list as))"
  by (rule ext, simp)+

lemma free_list_single: "free_list [a] = mem_free (Some a)"
  by (rule ext) (simp add: free_list_fun(1))

lemma free_list_append_fun: "free_list (as @ bs) = (\<lambda>m. andthen (free_list as m) (free_list bs))"
proof (induction as)
  case Nil
  show ?case by (rule ext) (simp add: free_list_fun)
next
  case (Cons a as)
  then show ?case by (intro ext) (simp add: free_list_fun andthen_assoc)
qed

lemmas free_list_append = fun_cong [OF free_list_append_fun]

definition blocks_of_ptr :: "addr option \<Rightarrow> addr list" where
  "blocks_of_ptr p = (case p of None \<Rightarrow> [] | Some a \<Rightarrow> [a])"

lemma blocks_of_ptr_simps [simp]: "blocks_of_ptr None = []" "blocks_of_ptr (Some a) = [a]"
  by (simp_all add: blocks_of_ptr_def)

lemma mem_free_list: "mem_free p m = free_list (blocks_of_ptr p) m"
  by (cases p) (simp_all add: free_list_fun)

lemma free_list_exact:
  "distinct as \<Longrightarrow> set as \<subseteq> live m \<Longrightarrow> free_list as m = Inr (m\<lparr>live := live m - set as\<rparr>)"
proof (induction as arbitrary: m)
  case (Cons a as)
  then have "free_list as (m\<lparr>live := live m - {a}\<rparr>) = Inr (m\<lparr>live := live m - {a} - set as\<rparr>)"
    by (subst Cons.IH) auto
  moreover have "live m - {a} - set as = live m - set (a # as)" by auto
  ultimately show ?case using Cons.prems by simp
qed simp

lemma free_list_fails: "\<not> (distinct as \<and> set as \<subseteq> live m) \<Longrightarrow> free_list as m = Inl UseAfterFree"
proof (induction as arbitrary: m)
  case (Cons a as)
  show ?case
  proof (cases "a \<in> live m")
    case True
    then have "\<not> (distinct as \<and> set as \<subseteq> live m - {a})" using Cons.prems by auto
    then have "free_list as (m\<lparr>live := live m - {a}\<rparr>) = Inl UseAfterFree" by (intro Cons.IH) simp
    with True show ?thesis by simp
  qed simp
qed simp

lemma free_list_Inr:
  "free_list as m = Inr m' \<longleftrightarrow> distinct as \<and> set as \<subseteq> live m \<and> m' = m\<lparr>live := live m - set as\<rparr>"
  using free_list_exact [of as m] free_list_fails [of as m]
  by (cases "distinct as \<and> set as \<subseteq> live m") auto

section \<open>The interfaces: owning blocks\<close>

text \<open>
  \<open>owner\<close>: an object that is \<open>sound\<close> owns the blocks of a list, and freeing it gives back these, in this order. So it
  succeeds exactly when they are allocated and distinct, touches no other block, and cannot be done twice.
\<close>

locale owner =
  fixes owned :: "'a \<Rightarrow> addr list" and sound :: "'a \<Rightarrow> bool" and release :: "'a \<Rightarrow> memory \<Rightarrow> fault + memory"
  assumes release_owned: "sound x \<Longrightarrow> release x m = free_list (owned x) m"
begin

lemma release_exact:
  "sound x \<Longrightarrow> distinct (owned x) \<Longrightarrow> set (owned x) \<subseteq> live m \<Longrightarrow>
   release x m = Inr (m\<lparr>live := live m - set (owned x)\<rparr>)"
  by (simp add: release_owned free_list_exact)

lemma release_needs: "sound x \<Longrightarrow> release x m = Inr m' \<Longrightarrow> distinct (owned x) \<and> set (owned x) \<subseteq> live m"
  by (simp add: release_owned free_list_Inr)

lemma release_frame: "sound x \<Longrightarrow> release x m = Inr m' \<Longrightarrow> a \<notin> set (owned x) \<Longrightarrow> a \<in> live m' \<longleftrightarrow> a \<in> live m"
  by (auto simp: release_owned free_list_Inr)

lemma release_twice:
  assumes "sound x" and "owned x \<noteq> []" and "release x m = Inr m'"
  shows "release x m' = Inl UseAfterFree"
proof -
  have "m' = m\<lparr>live := live m - set (owned x)\<rparr>" using assms by (simp add: release_owned free_list_Inr)
  then have "\<not> set (owned x) \<subseteq> live m'" using assms(2) by (cases "owned x") auto
  then show ?thesis using free_list_fails [of "owned x" m'] by (simp add: release_owned [OF assms(1)])
qed

end

definition memory_wf :: "memory \<Rightarrow> bool" where
  "memory_wf m \<longleftrightarrow> (\<forall>a \<in> live m. a < next_block m)"

text \<open>A function that makes an object: its blocks are new.\<close>

definition takes :: "memory \<Rightarrow> addr list \<Rightarrow> memory \<Rightarrow> bool" where
  "takes m as m' \<longleftrightarrow> distinct as \<and> set as \<inter> live m = {} \<and> live m' = live m \<union> set as \<and> memory_wf m'"

locale lifecycle = owner +
  fixes make :: "memory \<Rightarrow> 'a \<times> memory"
  assumes make_takes: "memory_wf m \<Longrightarrow> make m = (x, m') \<Longrightarrow> sound x \<and> takes m (owned x) m'"
begin

lemma make_release:
  assumes "memory_wf m" and "make m = (x, m')"
  shows "\<exists>m''. release x m' = Inr m'' \<and> live m'' = live m"
proof -
  have x: "sound x" "distinct (owned x)" "set (owned x) \<inter> live m = {}" "live m' = live m \<union> set (owned x)"
    using make_takes [OF assms] by (simp_all add: takes_def)
  then have "release x m' = Inr (m'\<lparr>live := live m' - set (owned x)\<rparr>)" by (intro release_exact) auto
  then show ?thesis using x by auto
qed

end
section \<open>What the objects own\<close>

definition buffer_blocks :: "buffer_obj \<Rightarrow> addr list" where
  "buffer_blocks b = blocks_of_ptr (ptr_at b) @ [buffer_at b]"

lemma buffer_free_list: "buffer_free (Some b) m = free_list (buffer_blocks b) m"
  by (simp add: buffer_free_def buffer_blocks_def mem_free_list [of "ptr_at b"] free_list_append_fun free_list_single)

definition request_blocks :: "request_obj \<Rightarrow> addr list" where
  "request_blocks r = buffer_blocks (request_content_at r) @ buffer_blocks (http_method_at r) @
     buffer_blocks (request_url_at r) @ buffer_blocks (http_range_at r) @ buffer_blocks (hostname_at r)"

definition response_blocks :: "response_obj \<Rightarrow> addr list" where
  "response_blocks r = buffer_blocks (fullpath_at r) @ buffer_blocks (content_type_at r)"

definition entry_blocks :: "mime_entry_obj \<Rightarrow> addr list" where
  "entry_blocks e = blocks_of_ptr (extension_at e) @ blocks_of_ptr (mime_type_at e) @ [entry_at e]"

definition filled_entries :: "mime_table_obj \<Rightarrow> mime_entry_obj list" where
  "filled_entries t = map the (take (unat (used_entries t)) (entries_at t))"

definition mime_sound :: "mime_table_obj \<Rightarrow> bool" where
  "mime_sound t \<longleftrightarrow> unat (used_entries t) \<le> length (entries_at t) \<and>
     (\<forall>i < unat (used_entries t). entries_at t ! i \<noteq> None)"

definition mime_blocks :: "mime_table_obj \<Rightarrow> addr list" where
  "mime_blocks t = concat (map entry_blocks (filled_entries t)) @ [array_at t, table_at t]"

definition config_contents :: "config_obj \<Rightarrow> addr list" where
  "config_contents c = buffer_blocks (service_name_at c) @ buffer_blocks (version_info_at c) @
     buffer_blocks (service_root_dir_at c) @ buffer_blocks (mimetype_filepath_at c) @
     buffer_blocks (config_filepath_at c) @ buffer_blocks (log_filename_at c) @
     (case mime_at c of None \<Rightarrow> [] | Some t \<Rightarrow> mime_blocks t)"

definition config_sound :: "config_obj \<Rightarrow> bool" where
  "config_sound c \<longleftrightarrow> (case mime_at c of None \<Rightarrow> True | Some t \<Rightarrow> mime_sound t)"

definition config_blocks :: "config_obj \<Rightarrow> addr list" where
  "config_blocks c = config_contents c @ [config_at c]"

definition fdevents_blocks :: "fdevents_obj option \<Rightarrow> addr list" where
  "fdevents_blocks p = (case p of None \<Rightarrow> [] | Some ev \<Rightarrow> [epoll_events_at ev, nodes_at ev, fdevents_at ev])"

definition server_blocks :: "server_obj \<Rightarrow> addr list" where
  "server_blocks srv = child_at srv # config_blocks (config_of srv) @ [server_at srv]"

text \<open>The loop over the mime table frees its entries in order; it leaves the other fields alone.\<close>

lemma mime_free_loop_list:
  assumes "\<forall>j. i \<le> j \<longrightarrow> j < n \<longrightarrow> j < length (entries_at t) \<and> entries_at t ! j \<noteq> None"
  shows "andthen (mime_free_loop [i..<n] t m) (\<lambda>(t', m'). f (array_at t') (table_at t') m') =
    andthen (free_list (concat (map (\<lambda>j. entry_blocks (the (entries_at t ! j))) [i..<n])) m) (f (array_at t) (table_at t))"
  using assms
proof (induction "n - i" arbitrary: i t m)
  case 0
  then show ?case by (simp add: free_list_fun)
next
  case (Suc d)
  then have i: "i < n" by simp
  then have up: "[i..<n] = i # [Suc i..<n]" by (rule upt_conv_Cons)
  obtain e where e: "entries_at t ! i = Some e" and len: "i < length (entries_at t)" using Suc.prems i by blast
  let ?t = "t\<lparr>entries_at := (entries_at t)[i := None]\<rparr>"
  have hyp: "\<forall>j. Suc i \<le> j \<longrightarrow> j < n \<longrightarrow> j < length (entries_at ?t) \<and> entries_at ?t ! j \<noteq> None" using Suc.prems by auto
  have same: "map (\<lambda>j. entry_blocks (the (entries_at ?t ! j))) [Suc i..<n] =
      map (\<lambda>j. entry_blocks (the (entries_at t ! j))) [Suc i..<n]" by (intro map_cong) auto
  have ih: "andthen (mime_free_loop [Suc i..<n] ?t m) (\<lambda>(t', m'). f (array_at t') (table_at t') m') =
      andthen (free_list (concat (map (\<lambda>j. entry_blocks (the (entries_at t ! j))) [Suc i..<n])) m) (f (array_at t) (table_at t))" for m
    using Suc.hyps(1) [OF _ hyp, of m] Suc.hyps(2) unfolding same by simp
  show ?case
    unfolding up
    by (simp add: len e ih entry_blocks_def andthen_assoc mem_free_list [of "extension_at e"] mem_free_list [of "mime_type_at e"]
        free_list_append_fun free_list_single)
qed
lemma mime_table_free_list:
  assumes "mime_sound t"
  shows "mime_table_free t m = free_list (mime_blocks t) m"
proof -
  let ?n = "unat (used_entries t)"
  have len: "?n \<le> length (entries_at t)" using assms by (simp add: mime_sound_def)
  have hyp: "\<forall>j. 0 \<le> j \<longrightarrow> j < ?n \<longrightarrow> j < length (entries_at t) \<and> entries_at t ! j \<noteq> None"
    using assms by (auto simp: mime_sound_def)
  have "take ?n (entries_at t) = map ((!) (entries_at t)) [0..<?n]"
    by (rule nth_equalityI) (use len in auto)
  then have eq: "map (\<lambda>j. entry_blocks (the (entries_at t ! j))) [0..<?n] = map entry_blocks (filled_entries t)"
    by (simp add: filled_entries_def comp_def)
  show ?thesis
    using mime_free_loop_list [OF hyp, of m "\<lambda>a b m. andthen (mem_free (Some a) m) (mem_free (Some b))"] len
    by (simp add: mime_table_free_def mime_blocks_def eq free_list_append_fun free_list_fun)
qed

interpretation buffer_owner: lifecycle "\<lambda>p. case p of None \<Rightarrow> [] | Some b \<Rightarrow> buffer_blocks b" "\<lambda>p. True" buffer_free
    "\<lambda>m. case buffer_init_obj m of (b, m1) \<Rightarrow> (Some b, m1)"
proof unfold_locales
  fix p :: "buffer_obj option" and m
  show "buffer_free p m = free_list (case p of None \<Rightarrow> [] | Some b \<Rightarrow> buffer_blocks b) m"
    by (cases p) (simp add: buffer_free_def, simp add: buffer_free_list)
next
  fix m m' :: memory and x
  assume "memory_wf m" "(case buffer_init_obj m of (b, m1) \<Rightarrow> (Some b, m1)) = (x, m')"
  then show "True \<and> takes m (case x of None \<Rightarrow> [] | Some b \<Rightarrow> buffer_blocks b) m'"
    by (auto simp: buffer_init_obj_def mem_malloc_def Let_def takes_def buffer_blocks_def memory_wf_def
        simp: less_Suc_eq)
qed

interpretation mime_owner: owner mime_blocks mime_sound mime_table_free
  by unfold_locales (rule mime_table_free_list)

lemmas make_defs = buffer_init_obj_def mem_malloc_def Let_def takes_def buffer_blocks_def memory_wf_def

interpretation request_owner: lifecycle request_blocks "\<lambda>r. True" request_free request_initialize_obj
proof unfold_locales
  fix r m
  show "request_free r m = free_list (request_blocks r) m"
    by (simp add: request_free_def request_blocks_def buffer_free_list free_list_append_fun)
next
  fix m m' :: memory and r
  assume "memory_wf m" "request_initialize_obj m = (r, m')"
  then show "True \<and> takes m (request_blocks r) m'"
    by (auto simp: request_initialize_obj_def request_blocks_def make_defs simp: less_Suc_eq)
qed

interpretation response_owner: lifecycle response_blocks "\<lambda>r. True" response_free response_initialize_obj
proof unfold_locales
  fix r m
  show "response_free r m = free_list (response_blocks r) m"
    by (simp add: response_free_def response_blocks_def buffer_free_list free_list_append_fun)
next
  fix m m' :: memory and r
  assume "memory_wf m" "response_initialize_obj m = (r, m')"
  then show "True \<and> takes m (response_blocks r) m'"
    by (auto simp: response_initialize_obj_def response_blocks_def make_defs simp: less_Suc_eq)
qed

interpretation config_owner: lifecycle config_blocks config_sound server_config_free server_config_init_obj
proof unfold_locales
  fix c m
  assume sound: "config_sound c"
  have "(case mime_at c of None \<Rightarrow> Inr m | Some t \<Rightarrow> mime_table_free t m) =
      free_list (case mime_at c of None \<Rightarrow> [] | Some t \<Rightarrow> mime_blocks t) m" for m
    using sound by (auto simp: config_sound_def mime_table_free_list split: option.split)
  then show "server_config_free c m = free_list (config_blocks c) m"
    by (simp add: server_config_free_def config_blocks_def config_contents_def buffer_free_list free_list_append_fun
        free_list_single andthen_assoc)
next
  fix m m' :: memory and c
  assume "memory_wf m" "server_config_init_obj m = (c, m')"
  then show "config_sound c \<and> takes m (config_blocks c) m'"
    by (auto simp: server_config_init_obj_def config_sound_def config_blocks_def config_contents_def make_defs simp: less_Suc_eq)
qed

text \<open>The event table, when \<open>epoll_create\<close> answers a descriptor.\<close>

interpretation fdevents_owner: owner fdevents_blocks "\<lambda>p. True" fdevent_free
proof unfold_locales
  fix p m
  show "fdevent_free p m = free_list (fdevents_blocks p) m"
    by (cases p) (simp_all add: fdevent_free_def fdevents_blocks_def free_list_fun)
qed

lemma fdevent_initialize_takes:
  assumes "memory_wf m"
  shows "\<exists>p m'. fdevent_initialize_obj epoll_create n m = Inr (p, m') \<and> takes m (fdevents_blocks p) m' \<and>
    (p = None \<longleftrightarrow> epoll_create n < 0)"
  using assms
  by (auto simp: fdevent_initialize_obj_def fdevents_blocks_def make_defs simp: less_Suc_eq)
section \<open>A response over the life of its connection\<close>

text \<open>
  What happens to the response of a connection, any number of times and in any order: it is set up anew
  (\<open>CON_STATE_HANDLE_REQUEST\<close>; the index counts how often), its buffers get room, it is reset.
\<close>

inductive response_run :: "response_obj \<times> memory \<Rightarrow> nat \<Rightarrow> response_obj \<times> memory \<Rightarrow> bool" for s where
  run_start: "response_run s 0 s"
| run_initialize: "response_run s n (r, m) \<Longrightarrow> response_run s (Suc n) (response_initialize_obj m)"
| run_alloc_path: "response_run s n (r, m) \<Longrightarrow> buffer_alloc_obj (fullpath_at r) k m = Inr (b, m') \<Longrightarrow>
    response_run s n (r\<lparr>fullpath_at := b\<rparr>, m')"
| run_alloc_type: "response_run s n (r, m) \<Longrightarrow> buffer_alloc_obj (content_type_at r) k m = Inr (b, m') \<Longrightarrow>
    response_run s n (r\<lparr>content_type_at := b\<rparr>, m')"
| run_prepare_path: "response_run s n (r, m) \<Longrightarrow> buffer_prepare_obj (fullpath_at r) k m = Inr (b, m') \<Longrightarrow>
    response_run s n (r\<lparr>fullpath_at := b\<rparr>, m')"
| run_prepare_type: "response_run s n (r, m) \<Longrightarrow> buffer_prepare_obj (content_type_at r) k m = Inr (b, m') \<Longrightarrow>
    response_run s n (r\<lparr>content_type_at := b\<rparr>, m')"
| run_reset: "response_run s n (r, m) \<Longrightarrow> response_reset_obj r m = Inr (r', m') \<Longrightarrow> response_run s n (r', m')"

text \<open>
  A step on one buffer: it keeps its struct; if its block changes, the old one is given back and the new one was not
  allocated.
\<close>

definition buffer_step :: "buffer_obj \<Rightarrow> memory \<Rightarrow> buffer_obj \<Rightarrow> memory \<Rightarrow> bool" where
  "buffer_step b m b' m' \<longleftrightarrow> buffer_at b' = buffer_at b \<and>
     (ptr_at b' = ptr_at b \<and> m' = m \<or>
      set (blocks_of_ptr (ptr_at b)) \<subseteq> live m \<and> memory_wf m' \<and>
      set (blocks_of_ptr (ptr_at b')) \<inter> live m = {} \<and>
      live m' = live m - set (blocks_of_ptr (ptr_at b)) \<union> set (blocks_of_ptr (ptr_at b')))"

lemma mem_free_Inr: "mem_free p m = Inr m' \<longleftrightarrow> set (blocks_of_ptr p) \<subseteq> live m \<and> m' = m\<lparr>live := live m - set (blocks_of_ptr p)\<rparr>"
  by (cases p) (auto simp: mem_free_def)

lemma alloc_step:
  assumes "memory_wf m" and "buffer_alloc_obj b k m = Inr (b', m')"
  shows "buffer_step b m b' m'"
  using assms
  by (auto simp: buffer_alloc_obj_def mem_malloc_def Let_def andthen_Inr_iff mem_free_Inr buffer_step_def memory_wf_def
      less_Suc_eq split: if_splits)

lemma prepare_step:
  assumes "memory_wf m" and "buffer_prepare_obj b k m = Inr (b', m')"
  shows "buffer_step b m b' m'"
  using assms
  by (auto simp: buffer_prepare_obj_def mem_malloc_def Let_def andthen_Inr_iff mem_free_Inr buffer_step_def memory_wf_def
      less_Suc_eq split: if_splits)

lemma reset_step:
  assumes "memory_wf m" and "buffer_reset_obj b m = Inr (b', m')"
  shows "buffer_step b m b' m'"
  using assms by (auto simp: buffer_reset_obj_def andthen_Inr_iff mem_free_Inr buffer_step_def memory_wf_def)

text \<open>
  \<open>lost\<close> blocks: allocated, not the response's and not of \<open>base\<close>, what was there before. At least two for every time the
  response was set up.
\<close>

definition leaks :: "addr set \<Rightarrow> nat \<Rightarrow> response_obj \<times> memory \<Rightarrow> bool" where
  "leaks base n s \<longleftrightarrow> (case s of (r, m) \<Rightarrow> memory_wf m \<and> distinct (response_blocks r) \<and> set (response_blocks r) \<subseteq> live m \<and>
     base \<inter> set (response_blocks r) = {} \<and> base \<subseteq> live m \<and>
     (\<exists>lost. finite lost \<and> 2 * n \<le> card lost \<and> lost \<subseteq> live m \<and> lost \<inter> (base \<union> set (response_blocks r)) = {}))"

lemma leaks_initialize:
  assumes "leaks base n (r, m)"
  shows "leaks base (Suc n) (response_initialize_obj m)"
proof -
  obtain r' m' where new: "response_initialize_obj m = (r', m')" by fastforce
  obtain lost where lost: "finite lost" "2 * n \<le> card lost" "lost \<subseteq> live m" "lost \<inter> (base \<union> set (response_blocks r)) = {}"
    and old: "memory_wf m" "distinct (response_blocks r)" "set (response_blocks r) \<subseteq> live m" "base \<inter> set (response_blocks r) = {}"
      "base \<subseteq> live m"
    using assms by (auto simp: leaks_def)
  have t: "takes m (response_blocks r') m'" using response_owner.make_takes [OF old(1) new] by simp
  let ?lost = "lost \<union> set (response_blocks r)"
  have "2 \<le> card (set (response_blocks r))"
    unfolding distinct_card [OF old(2)] by (simp add: response_blocks_def buffer_blocks_def)
  then have "2 * Suc n \<le> card ?lost" using lost by (subst card_Un_disjoint) auto
  moreover have "finite ?lost" "?lost \<subseteq> live m'" "?lost \<inter> (base \<union> set (response_blocks r')) = {}"
    using lost old t by (auto simp: takes_def)
  ultimately show ?thesis
    using old t unfolding new leaks_def takes_def prod.case by (intro conjI exI [of _ ?lost]) auto
qed

lemma leaks_step:
  assumes "leaks base n (r, m)" and "memory_wf m'" and "distinct (response_blocks r')"
    and "set (response_blocks r') \<subseteq> live m'"
    and "live m - set (response_blocks r) = live m' - set (response_blocks r')"
  shows "leaks base n (r', m')"
proof -
  obtain lost where lost: "finite lost" "2 * n \<le> card lost" "lost \<subseteq> live m" "lost \<inter> (base \<union> set (response_blocks r)) = {}"
    and old: "base \<inter> set (response_blocks r) = {}" "base \<subseteq> live m"
    using assms(1) by (auto simp: leaks_def)
  then have "base \<subseteq> live m' - set (response_blocks r')" "lost \<subseteq> live m' - set (response_blocks r')"
    using assms(5) by auto
  then show ?thesis using lost assms(2-4) unfolding leaks_def prod.case by (intro conjI exI [of _ lost]) auto
qed

lemma leaks_path:
  assumes "leaks base n (r, m)" and "buffer_step (fullpath_at r) m b m'"
  shows "leaks base n (r\<lparr>fullpath_at := b\<rparr>, m')"
proof (rule leaks_step [OF assms(1)])
  show "memory_wf m'" "distinct (response_blocks (r\<lparr>fullpath_at := b\<rparr>))"
    "set (response_blocks (r\<lparr>fullpath_at := b\<rparr>)) \<subseteq> live m'"
    "live m - set (response_blocks r) = live m' - set (response_blocks (r\<lparr>fullpath_at := b\<rparr>))"
    using assms by (auto simp: leaks_def buffer_step_def response_blocks_def buffer_blocks_def blocks_of_ptr_def split: option.splits)
qed

lemma leaks_type:
  assumes "leaks base n (r, m)" and "buffer_step (content_type_at r) m b m'"
  shows "leaks base n (r\<lparr>content_type_at := b\<rparr>, m')"
proof (rule leaks_step [OF assms(1)])
  show "memory_wf m'" "distinct (response_blocks (r\<lparr>content_type_at := b\<rparr>))"
    "set (response_blocks (r\<lparr>content_type_at := b\<rparr>)) \<subseteq> live m'"
    "live m - set (response_blocks r) = live m' - set (response_blocks (r\<lparr>content_type_at := b\<rparr>))"
    using assms by (auto simp: leaks_def buffer_step_def response_blocks_def buffer_blocks_def blocks_of_ptr_def split: option.splits)
qed

lemma leaks_wf: "leaks base n (r, m) \<Longrightarrow> memory_wf m"
  by (simp add: leaks_def)

lemma leaks_reset:
  assumes "leaks base n (r, m)" and "response_reset_obj r m = Inr (r', m')"
  shows "leaks base n (r', m')"
proof -
  obtain path m1 ct where steps: "buffer_reset_obj (fullpath_at r) m = Inr (path, m1)"
      "buffer_reset_obj (content_type_at r) m1 = Inr (ct, m')" "r' = \<lparr>content_type_at = ct, fullpath_at = path\<rparr>"
    using assms(2) by (auto simp: response_reset_obj_def andthen_Inr_iff)
  have one: "leaks base n (r\<lparr>fullpath_at := path\<rparr>, m1)"
    by (rule leaks_path [OF assms(1) reset_step [OF leaks_wf [OF assms(1)] steps(1)]])
  have "leaks base n (r\<lparr>fullpath_at := path, content_type_at := ct\<rparr>, m')"
    using leaks_type [OF one] reset_step [OF leaks_wf [OF one] steps(2)] by simp
  moreover have "r\<lparr>fullpath_at := path, content_type_at := ct\<rparr> = r'" by (cases r) (simp add: steps(3))
  ultimately show ?thesis by simp
qed

lemma response_run_leaks:
  assumes "response_run s n s'" and "leaks base 0 s"
  shows "leaks base n s'"
  using assms(1)
  by induction (use assms(2) in \<open>auto intro: leaks_initialize leaks_reset leaks_path leaks_type alloc_step prepare_step
      dest: leaks_wf\<close>)

lemma leaks_fresh:
  assumes "memory_wf m" and "response_initialize_obj m = (r, m')"
  shows "leaks (live m) 0 (r, m')"
  using response_owner.make_takes [OF assms] by (auto simp: leaks_def takes_def intro!: exI [of _ "{}"])

text \<open>
  The steps on a response that owns its blocks never free what is not allocated.
\<close>

lemma leaks_reset_returns:
  assumes "leaks base n (r, m)"
  shows "\<exists>r' m'. response_reset_obj r m = Inr (r', m')"
  using assms
  by (auto simp: leaks_def response_reset_obj_def buffer_reset_obj_def response_blocks_def buffer_blocks_def
      blocks_of_ptr_def split: option.splits)
section \<open>Properties\<close>

text \<open>C37:
  Every request a connection handles costs memory that is never given back: \<open>CON_STATE_HANDLE_REQUEST\<close> sets up the
  response anew without freeing the buffers it had. However the response is filled and reset in between, after \<open>n\<close> requests
  \<open>response_free\<close> succeeds, nothing that was allocated before the connection is lost, and at least \<open>2 * n\<close> blocks more than
  before stay allocated.
\<close>

theorem response_buffers_leak:
  assumes "memory_wf m" and "response_run (response_initialize_obj m) n (r, m1)"
  shows "\<exists>m2. response_free r m1 = Inr m2 \<and> live m \<subseteq> live m2 \<and>
    (\<exists>lost. finite lost \<and> 2 * n \<le> card lost \<and> lost \<subseteq> live m2 - live m)"
proof -
  have l: "leaks (live m) n (r, m1)"
    using response_run_leaks [OF assms(2)] leaks_fresh [OF assms(1)] by (metis surj_pair)
  then obtain lost where lost: "finite lost" "2 * n \<le> card lost" "lost \<subseteq> live m1" "lost \<inter> (live m \<union> set (response_blocks r)) = {}"
    by (auto simp: leaks_def)
  have "response_free r m1 = Inr (m1\<lparr>live := live m1 - set (response_blocks r)\<rparr>)"
    using l by (intro response_owner.release_exact) (auto simp: leaks_def)
  then show ?thesis using l lost by (auto simp: leaks_def intro!: exI [of _ lost])
qed

theorem response_buffers_leak_witness:
  "\<exists>r m1 m2 lost. response_run (response_initialize_obj \<lparr>live = {}, next_block = 0\<rparr>) 2 (r, m1) \<and>
     response_free r m1 = Inr m2 \<and> finite lost \<and> 4 \<le> card lost \<and> lost \<subseteq> live m2"
proof -
  let ?m = "\<lparr>live = {}, next_block = 0\<rparr>"
  obtain r0 m0 where s0: "response_initialize_obj ?m = (r0, m0)" by fastforce
  obtain r1 m1 where s1: "response_initialize_obj m0 = (r1, m1)" by fastforce
  obtain r2 m2 where s2: "response_initialize_obj m1 = (r2, m2)" by fastforce
  have "response_run (r0, m0) (Suc (Suc 0)) (r2, m2)"
    using run_initialize [OF run_initialize [OF run_start [of "(r0, m0)"], unfolded s1], unfolded s2] .
  then have run: "response_run (response_initialize_obj ?m) 2 (r2, m2)" by (simp only: s0 numeral_2_eq_2)
  have "memory_wf ?m" by (simp add: memory_wf_def)
  from response_buffers_leak [OF this run] run show ?thesis by auto
qed

text \<open>C29:
  What the end of the program gives back. \<open>server_free\<close> frees the array of workers and the structs of the configuration
  and the server, and leaves the buffers and the mime table of the configuration allocated; \<open>server_config_free\<close>, which is
  never called, would free exactly the blocks of the configuration, each once.
\<close>

theorem server_free_leaks_configuration:
  assumes "distinct (server_blocks srv)" and "set (server_blocks srv) \<subseteq> live m" and "config_sound (config_of srv)"
  shows "\<exists>m1 m2. server_free srv m = Inr m1 \<and>
    live m1 = live m - {child_at srv, config_at (config_of srv), server_at srv} \<and>
    set (config_contents (config_of srv)) \<subseteq> live m1 \<and>
    server_config_free (config_of srv) m = Inr m2 \<and> live m2 = live m - set (config_blocks (config_of srv))"
proof -
  let ?three = "[child_at srv, config_at (config_of srv), server_at srv]"
  have "free_list ?three m = Inr (m\<lparr>live := live m - set ?three\<rparr>)"
    by (rule free_list_exact) (use assms(1,2) in \<open>auto simp: server_blocks_def config_blocks_def\<close>)
  then have one: "server_free srv m = Inr (m\<lparr>live := live m - set ?three\<rparr>)"
    by (simp add: server_free_def free_list_fun)
  have two: "server_config_free (config_of srv) m = Inr (m\<lparr>live := live m - set (config_blocks (config_of srv))\<rparr>)"
    using assms by (intro config_owner.release_exact) (auto simp: server_blocks_def)
  have "set (config_contents (config_of srv)) \<subseteq> live m - set ?three"
    using assms(1,2) by (auto simp: server_blocks_def config_blocks_def)
  with one two show ?thesis by auto
qed

text \<open>A configuration whose six buffers are set and whose mime table has one entry.\<close>

definition sample_server :: server_obj where
  "sample_server =
     (let b = (\<lambda>a. \<lparr>buffer_at = a, ptr_at = Some (Suc a), contents = buffer_init\<rparr>);
          t = \<lparr>table_at = 20, array_at = 21,
               entries_at = [Some \<lparr>entry_at = 22, extension_at = Some 23, mime_type_at = Some 24\<rparr>, None], used_entries = 1\<rparr>
      in \<lparr>server_at = 0, child_at = 1,
          config_of = \<lparr>config_at = 2, service_name_at = b 4, service_root_dir_at = b 6, mimetype_filepath_at = b 8,
            config_filepath_at = b 10, log_filename_at = b 12, version_info_at = b 14, mime_at = Some t\<rparr>\<rparr>)"

theorem server_free_leaks_configuration_witness:
  "\<exists>m1. server_free sample_server \<lparr>live = {0..<25}, next_block = 25\<rparr> = Inr m1 \<and> {4, 14, 20, 23} \<subseteq> live m1"
proof -
  have blocks: "config_blocks (config_of sample_server) = [5, 4, 15, 14, 7, 6, 9, 8, 11, 10, 13, 12, 23, 24, 22, 21, 20, 2]"
    "server_at sample_server = 0" "child_at sample_server = 1"
    by (simp_all add: sample_server_def Let_def config_blocks_def config_contents_def buffer_blocks_def mime_blocks_def
        filled_entries_def entry_blocks_def)
  have "config_sound (config_of sample_server)"
    by (simp add: sample_server_def Let_def config_sound_def mime_sound_def)
  moreover have "distinct (server_blocks sample_server)"
    "set (server_blocks sample_server) \<subseteq> live \<lparr>live = {0..<25}, next_block = 25\<rparr>"
    by (simp_all add: server_blocks_def blocks)
  ultimately obtain m1 where m1: "server_free sample_server \<lparr>live = {0..<25}, next_block = 25\<rparr> = Inr m1"
    "set (config_contents (config_of sample_server)) \<subseteq> live m1"
    using server_free_leaks_configuration by blast
  have "set (config_contents (config_of sample_server)) = {5, 4, 15, 14, 7, 6, 9, 8, 11, 10, 13, 12, 23, 24, 22, 21, 20}"
    using blocks(1) by (simp add: config_blocks_def)
  with m1 show ?thesis by auto
qed

end
