(* ===== verification/CLib.thy ===== *)
theory CLib
  imports Prelude
begin

text \<open>
  The C library functions on NUL-terminated strings the sources call, on the list of bytes before the
  NUL: \<open>strstr\<close>, \<open>strchr\<close>, \<open>strncmp\<close>, \<open>strncasecmp\<close>, \<open>isspace\<close>, \<open>strtol\<close> (base 10, 64-bit \<open>long\<close>),
  the conversion of a \<open>long\<close> to an \<open>int\<close>, and the \<open>%d\<close> conversion of \<open>snprintf\<close>.
\<close>

abbreviation QUOTE :: char where "QUOTE \<equiv> CHR 0x22"

text \<open>In the C locale: space, and the control characters 9 to 13.\<close>

definition isspace :: "char \<Rightarrow> bool" where
  "isspace c \<longleftrightarrow> (let n = of_char c :: nat in n = 32 \<or> 9 \<le> n \<and> n \<le> 13)"

definition tolower :: "char \<Rightarrow> char" where
  "tolower c = (let n = of_char c :: nat in if 65 \<le> n \<and> n \<le> 90 then char_of (n + 32) else c)"

fun is_prefix_of :: "string \<Rightarrow> string \<Rightarrow> bool" where
  "is_prefix_of [] s = True"
| "is_prefix_of (c # p) [] = False"
| "is_prefix_of (c # p) (d # s) = (c = d \<and> is_prefix_of p s)"

text \<open>The position of the first occurrence, if any.\<close>

fun strstr :: "string \<Rightarrow> string \<Rightarrow> nat option" where
  "strstr [] pat = (if pat = [] then Some 0 else None)"
| "strstr (c # s) pat = (if is_prefix_of pat (c # s) then Some 0 else map_option Suc (strstr s pat))"

fun strchr :: "string \<Rightarrow> char \<Rightarrow> nat option" where
  "strchr [] x = None"
| "strchr (c # s) x = (if c = x then Some 0 else map_option Suc (strchr s x))"

text \<open>\<open>strncmp (s, t, n) == 0\<close> and \<open>strncasecmp (s, t, n) == 0\<close>.\<close>

fun strncmp_eq :: "nat \<Rightarrow> string \<Rightarrow> string \<Rightarrow> bool" where
  "strncmp_eq 0 s t = True"
| "strncmp_eq (Suc n) [] [] = True"
| "strncmp_eq (Suc n) (c # s) (d # t) = (c = d \<and> strncmp_eq n s t)"
| "strncmp_eq (Suc n) _ _ = False"

fun strncasecmp_eq :: "nat \<Rightarrow> string \<Rightarrow> string \<Rightarrow> bool" where
  "strncasecmp_eq 0 s t = True"
| "strncasecmp_eq (Suc n) [] [] = True"
| "strncasecmp_eq (Suc n) (c # s) (d # t) = (tolower c = tolower d \<and> strncasecmp_eq n s t)"
| "strncasecmp_eq (Suc n) _ _ = False"

definition is_digit :: "char \<Rightarrow> bool" where
  "is_digit c \<longleftrightarrow> (let n = of_char c :: nat in 48 \<le> n \<and> n \<le> 57)"

fun digits_value :: "int \<Rightarrow> string \<Rightarrow> int" where
  "digits_value acc [] = acc"
| "digits_value acc (c # s) = digits_value (10 * acc + (int (of_char c) - 48)) s"

text \<open>
  \<open>strtol(s, &err, 10)\<close>: the value, saturated to a 64-bit \<open>long\<close>, and the rest of the string \<open>err\<close>
  points at; without digits the value is 0 and \<open>err\<close> is the start of the string.
\<close>

definition strtol10 :: "string \<Rightarrow> int \<times> string" where
  "strtol10 s =
     (let s1 = dropWhile isspace s;
          neg = (s1 \<noteq> [] \<and> hd s1 = CHR ''-'');
          s2 = (if s1 \<noteq> [] \<and> (hd s1 = CHR ''-'' \<or> hd s1 = CHR ''+'') then tl s1 else s1);
          ds = takeWhile is_digit s2;
          v = digits_value 0 ds
      in if ds = [] then (0, s)
         else (max (- (2 ^ 63)) (min (2 ^ 63 - 1) (if neg then - v else v)), drop (length ds) s2))"

text \<open>The conversion of a \<open>long\<close> to a 32-bit \<open>int\<close>.\<close>

definition long_to_int :: "int \<Rightarrow> int" where
  "long_to_int v = (v + 2 ^ 31) mod 2 ^ 32 - 2 ^ 31"

text \<open>The decimal digits of a number.\<close>

fun nat_digits :: "nat \<Rightarrow> string" where
  "nat_digits n = (if n < 10 then [char_of (48 + n)] else nat_digits (n div 10) @ [char_of (48 + n mod 10)])"

declare nat_digits.simps [simp del]

text \<open>\<open>snprintf(buf, 32, "%d", x)\<close> of a \<open>uint32_t\<close>, which \<open>%d\<close> reads as a signed \<open>int\<close>.\<close>

definition format_d :: "u32 \<Rightarrow> string" where
  "format_d x =
     (let v = sint x in if v < 0 then CHR ''-'' # nat_digits (nat (- v)) else nat_digits (nat v))"

lemma strchr_None: "strchr s x = None \<longleftrightarrow> x \<notin> set s"
  by (induction s) auto

lemma strchr_Some: "strchr s x = Some i \<Longrightarrow> i < length s \<and> s ! i = x \<and> x \<notin> set (take i s)"
  by (induction s arbitrary: i) (auto split: if_splits)

lemma strchr_append_notin: "x \<notin> set s \<Longrightarrow> strchr (s @ x # t) x = Some (length s)"
  by (induction s) auto

lemma strncmp_eq_prefix: "NUL \<notin> set p \<Longrightarrow> strncmp_eq (length p) (p @ s) p"
  by (induction p) auto

lemma strncasecmp_eq_prefix: "strncasecmp_eq (length p) (p @ s) p"
  by (induction p) auto

lemma nat_digits_not_empty [simp]: "nat_digits n \<noteq> []"
  by (subst nat_digits.simps) simp

lemma is_digit_char_of: "d < 10 \<Longrightarrow> is_digit (char_of (48 + d :: nat))"
  by (simp add: is_digit_def Let_def)

lemma nat_digits_digits: "c \<in> set (nat_digits n) \<Longrightarrow> is_digit c"
proof (induction n rule: nat_digits.induct)
  case (1 n)
  then show ?case
    by (subst (asm) nat_digits.simps) (auto split: if_splits intro: is_digit_char_of)
qed

lemma digits_value_append: "digits_value a (s @ t) = digits_value (digits_value a s) t"
  by (induction s arbitrary: a) auto

lemma digits_value_char: "d < 10 \<Longrightarrow> digits_value a [char_of (48 + d :: nat)] = 10 * a + int d"
  by simp

lemma digits_value_nat_digits: "digits_value 0 (nat_digits n) = int n"
proof (induction n rule: nat_digits.induct)
  case (1 n)
  show ?case
  proof (cases "n < 10")
    case True
    then show ?thesis using digits_value_char [of n 0] by (subst nat_digits.simps) simp
  next
    case False
    with "1.IH" digits_value_char [of "n mod 10" "int (n div 10)"]
    have "digits_value 0 (nat_digits n) = 10 * int (n div 10) + int (n mod 10)"
      by (subst nat_digits.simps) (simp add: digits_value_append)
    also have "\<dots> = int (10 * (n div 10) + n mod 10)"
      by (simp only: of_nat_add of_nat_mult of_nat_numeral)
    also have "\<dots> = int n" by (simp only: mult_div_mod_eq)
    finally show ?thesis .
  qed
qed

end
