(* ===== verification/Key_Map.thy ===== *)
theory Key_Map
  imports CLib
begin

text \<open>
  \<open>src/key_map.h\<close> and \<open>src/key_map.cpp\<close>: the table of HTTP status strings and the parser of the mime
  type file. A file is its content; a file that cannot be opened is \<open>None\<close>. \<open>mime_table\<close> keeps the
  array of entry pointers as a list, with the fields \<open>used_entry\<close> and \<open>entry_sizes\<close> of the C struct.
\<close>

section \<open>HTTP status strings\<close>

text \<open>The array ends with the sentinel \<open>{-1, NULL}\<close>.\<close>

definition http_status_table :: "(u32 \<times> string option) list" where
  "http_status_table =
    [(100, Some ''Continue''), (101, Some ''Switching Protocols''), (102, Some ''Processing''),
     (200, Some ''OK''), (201, Some ''Created''), (202, Some ''Accepted''),
     (203, Some ''Non-Authoritative Information''), (204, Some ''No Content''),
     (205, Some ''Reset Content''), (206, Some ''Partial Content''), (207, Some ''Multi-status''),
     (300, Some ''Multiple Choices''), (301, Some ''Moved Permanently''), (302, Some ''Found''),
     (303, Some ''See Other''), (304, Some ''Not Modified''), (305, Some ''Use Proxy''),
     (306, Some ''(Unused)''), (307, Some ''Temporary Redirect''),
     (400, Some ''Bad Request''), (401, Some ''Unauthorized''), (402, Some ''Payment Required''),
     (403, Some ''Forbidden''), (404, Some ''Not Found''), (405, Some ''Method Not Allowed''),
     (406, Some ''Not Acceptable''), (407, Some ''Proxy Authentication Required''),
     (408, Some ''Request Timeout''), (409, Some ''Conflict''), (410, Some ''Gone''),
     (411, Some ''Length Required''), (412, Some ''Precondition Failed''),
     (413, Some ''Request Entity Too Large''), (414, Some ''Request-URI Too Long''),
     (415, Some ''Unsupported Media Type''), (416, Some ''Requested Range Not Satisfiable''),
     (417, Some ''Expectation Failed''), (422, Some ''Unprocessable Entity''),
     (423, Some ''Locked''), (424, Some ''Failed Dependency''), (426, Some ''Upgrade Required''),
     (500, Some ''Internal Server Error''), (501, Some ''Not Implemented''),
     (502, Some ''Bad Gateway''), (503, Some ''Service Not Available''),
     (504, Some ''Gateway Timeout''), (505, Some ''HTTP Version Not Supported''),
     (507, Some ''Insufficient Storage''), (-1, None)]"

fun query_status_loop :: "(u32 \<times> string option) list \<Rightarrow> u32 \<Rightarrow> (u32 \<times> string) option" where
  "query_status_loop [] code = None"
| "query_status_loop ((k, None) # rest) code = None"
| "query_status_loop ((k, Some s) # rest) code =
     (if k = code then Some (k, s) else query_status_loop rest code)"

definition query_http_status_string :: "u32 \<Rightarrow> (u32 \<times> string) option" where
  "query_http_status_string code = query_status_loop http_status_table code"

section \<open>The mime table\<close>

record mime_table =
  entry :: "(string \<times> string) list"
  used_entry :: u32
  entry_sizes :: u32

text \<open>
  \<open>fgets\<close> with a buffer of 1024 bytes: at most 1023 bytes, up to and including the first newline. The
  code reads the buffer as a C string, so a NUL in the file ends the line early.
\<close>

fun fgets_take :: "nat \<Rightarrow> string \<Rightarrow> string" where
  "fgets_take 0 s = []"
| "fgets_take (Suc n) [] = []"
| "fgets_take (Suc n) (c # s) = (if c = LF then [c] else c # fgets_take n s)"

text \<open>The byte at an index of the line buffer: its NUL at the end of the string.\<close>

definition char_at :: "string \<Rightarrow> nat \<Rightarrow> char" where
  "char_at s i = (if i < length s then s ! i else NUL)"

text \<open>\<open>while (P(buf[i])) i++\<close>, for a \<open>P\<close> that is false at the NUL.\<close>

definition skip_while :: "(char \<Rightarrow> bool) \<Rightarrow> string \<Rightarrow> nat \<Rightarrow> nat" where
  "skip_while P s i = i + length (takeWhile P (drop i s))"

definition substring :: "string \<Rightarrow> nat \<Rightarrow> nat \<Rightarrow> string" where
  "substring s i n = take n (drop i s)"

definition mime_parse_line :: "string \<Rightarrow> (string \<times> string) option" where
  "mime_parse_line mime_buf =
     (if length mime_buf = 0 \<or> char_at mime_buf 0 = CHR ''#'' then None
      else case strstr mime_buf ''=>'' of
        None \<Rightarrow> None
      | Some extension_end \<Rightarrow>
          if extension_end = 0 then None
          else let mime_type_start = extension_end + 2;
                   i = skip_while isspace mime_buf 0
               in if char_at mime_buf i \<noteq> QUOTE then None
                  else let ext_start = i + 1;
                           ext_end = ext_start +
                             length (takeWhile (\<lambda>c. c \<noteq> QUOTE)
                                       (substring mime_buf ext_start (extension_end - ext_start)))
                       in if ext_end = extension_end \<or> ext_end - ext_start = 0 then None
                          else let j = skip_while isspace mime_buf mime_type_start
                               in if char_at mime_buf j \<noteq> QUOTE then None
                                  else let type_start = j + 1;
                                           type_end = skip_while (\<lambda>c. c \<noteq> QUOTE) mime_buf type_start
                                       in if char_at mime_buf type_end = NUL
                                             \<or> type_end - type_start = 0 then None
                                          else Some (substring mime_buf ext_start (ext_end - ext_start),
                                                     substring mime_buf type_start (type_end - type_start)))"

definition mime_table_add :: "mime_table \<Rightarrow> string \<times> string \<Rightarrow> mime_table" where
  "mime_table_add t e =
     (let t1 = (if used_entry t = entry_sizes t then t\<lparr>entry_sizes := entry_sizes t + 1024\<rparr> else t)
      in t1\<lparr>entry := entry t1 @ [e], used_entry := used_entry t1 + 1\<rparr>)"

function mime_table_loop :: "string \<Rightarrow> mime_table \<Rightarrow> mime_table" where
  "mime_table_loop content t =
     (if content = [] then t
      else let line = fgets_take 1023 content
           in mime_table_loop (drop (length line) content)
                (case mime_parse_line (takeWhile (\<lambda>c. c \<noteq> NUL) line) of
                   None \<Rightarrow> t | Some e \<Rightarrow> mime_table_add t e))"
  by pat_completeness auto
termination
proof (relation "measure (\<lambda>(content, t). length content)", goal_cases)
  case (2 content t line)
  then show ?case by (cases content) (auto simp: eval_nat_numeral)
qed simp

declare mime_table_loop.simps [simp del]

definition mime_table_initialize :: "(string \<Rightarrow> string option) \<Rightarrow> string \<Rightarrow> mime_table option" where
  "mime_table_initialize fopen filename =
     (if length filename = 0 then None
      else case fopen filename of
             None \<Rightarrow> None
           | Some content \<Rightarrow>
               Some (mime_table_loop content \<lparr>entry = [], used_entry = 0, entry_sizes = 1024\<rparr>))"

section \<open>Facts about the status table\<close>

lemma query_status_found:
  "query_http_status_string code \<noteq> None \<longleftrightarrow>
   code \<in> {100, 101, 102, 200, 201, 202, 203, 204, 205, 206, 207, 300, 301, 302, 303, 304, 305, 306, 307,
           400, 401, 402, 403, 404, 405, 406, 407, 408, 409, 410, 411, 412, 413, 414, 415, 416, 417, 422,
           423, 424, 426, 500, 501, 502, 503, 504, 505, 507}"
  by (auto simp: query_http_status_string_def http_status_table_def)

lemma query_status_loop_code: "query_status_loop t code = Some (k, str) \<Longrightarrow> k = code"
  by (induction t code rule: query_status_loop.induct) (auto split: if_splits)

lemma query_status_code: "query_http_status_string code = Some (k, str) \<Longrightarrow> k = code"
  unfolding query_http_status_string_def by (rule query_status_loop_code)

section \<open>Facts about the mime parser\<close>

text \<open>The form of a line of \<open>doc/mime_type.conf\<close>.\<close>

definition mime_line :: "string \<times> string \<Rightarrow> string" where
  "mime_line e = ''    '' @ [QUOTE] @ fst e @ [QUOTE] @ '' => '' @ [QUOTE] @ snd e @ [QUOTE] @ '','' @ [LF]"

text \<open>What a line can express: non-empty strings without quotes, NULs, newlines and equality signs.\<close>

definition mime_entry_ok :: "string \<times> string \<Rightarrow> bool" where
  "mime_entry_ok e \<longleftrightarrow> fst e \<noteq> [] \<and> snd e \<noteq> [] \<and>
     (\<forall>c \<in> set (fst e) \<union> set (snd e). c \<noteq> QUOTE \<and> c \<noteq> NUL \<and> c \<noteq> LF) \<and> CHR ''='' \<notin> set (fst e)"

lemma strstr_arrow: "CHR ''='' \<notin> set pre \<Longrightarrow> strstr (pre @ ''=>'' @ post) ''=>'' = Some (length pre)"
  by (induction pre) auto

lemma skip_while_stop:
  "\<forall>c \<in> set xs. P c \<Longrightarrow> \<not> P y \<Longrightarrow> skip_while P (pre @ xs @ y # ys) (length pre) = length pre + length xs"
  by (simp add: skip_while_def takeWhile_stop)

lemma char_at_append: "char_at (pre @ c # post) (length pre) = c"
  by (simp add: char_at_def)

lemma substring_append: "substring (pre @ xs @ post) (length pre) (length xs) = xs"
  by (simp add: substring_def)

lemma isspace_simps [simp]: "isspace CHR '' ''" "\<not> isspace QUOTE"
  by (simp_all add: isspace_def)

lemma mime_parse_line_ok:
  assumes "mime_entry_ok (ext, typ)"
  shows "mime_parse_line (mime_line (ext, typ)) = Some (ext, typ)"
proof -
  let ?l = "mime_line (ext, typ)"
  let ?tail = "''=>'' @ '' '' @ QUOTE # typ @ QUOTE # CHR '','' # [LF]"
  let ?pre = "''    '' @ QUOTE # ext @ QUOTE # '' ''"
  let ?pre2 = "?pre @ ''=>''"
  let ?pre3 = "?pre2 @ '' '' @ [QUOTE]"
  from assms have ok: "ext \<noteq> []" "typ \<noteq> []" "QUOTE \<notin> set ext" "QUOTE \<notin> set typ" "CHR ''='' \<notin> set ext"
    "NUL \<notin> set typ"
    by (auto simp: mime_entry_ok_def)
  have l: "?l = ?pre @ ?tail" by (simp add: mime_line_def)
  have e: "strstr ?l ''=>'' = Some (length ext + 7)"
    using strstr_arrow [of ?pre "'' '' @ QUOTE # typ @ QUOTE # CHR '','' # [LF]"] ok(5) by (simp add: l eval_nat_numeral)
  have i: "skip_while isspace ?l 0 = 4"
    using skip_while_stop [of "''    ''" isspace QUOTE "[]" "ext @ QUOTE # '' '' @ ?tail"] by (simp add: l eval_nat_numeral)
  have ci: "char_at ?l 4 = QUOTE"
    by (simp add: l char_at_def eval_nat_numeral)
  have sub: "substring ?l 5 (length ext + 2) = ext @ QUOTE # '' ''"
    using substring_append [of "''    '' @ [QUOTE]" "ext @ QUOTE # '' ''" ?tail] by (simp add: l eval_nat_numeral)
  have j: "skip_while isspace ?l (9 + length ext) = 10 + length ext"
    using skip_while_stop [of "'' ''" isspace QUOTE ?pre2 "typ @ QUOTE # CHR '','' # [LF]"] by (simp add: l eval_nat_numeral)
  have cj: "char_at ?l (10 + length ext) = QUOTE"
    using char_at_append [of "?pre2 @ '' ''" QUOTE "typ @ QUOTE # CHR '','' # [LF]"] by (simp add: l eval_nat_numeral)
  have k: "skip_while (\<lambda>c. c \<noteq> QUOTE) ?l (Suc (10 + length ext)) = Suc (10 + length ext) + length typ"
    using skip_while_stop [of "typ" "\<lambda>c. c \<noteq> QUOTE" QUOTE ?pre3 "CHR '','' # [LF]"] ok(4) by (auto simp: l eval_nat_numeral)
  have ck: "char_at ?l (Suc (10 + length ext) + length typ) = QUOTE"
    using char_at_append [of "?pre3 @ typ" QUOTE "CHR '','' # [LF]"] by (simp add: l eval_nat_numeral)
  have se: "substring ?l 5 (length ext) = ext"
    using substring_append [of "''    '' @ [QUOTE]" ext "QUOTE # '' '' @ ?tail"] by (simp add: l eval_nat_numeral)
  have st: "substring ?l (Suc (10 + length ext)) (length typ) = typ"
    using substring_append [of ?pre3 "typ" "QUOTE # CHR '','' # [LF]"] by (simp add: l eval_nat_numeral)
  have first: "length ?l \<noteq> 0" "char_at ?l 0 \<noteq> CHR ''#''" by (simp_all add: l char_at_def)
  have tw: "takeWhile (\<lambda>c. c \<noteq> QUOTE) (ext @ QUOTE # '' '') = ext"
    using ok(3) by (intro takeWhile_stop) auto
  show ?thesis
    using first e i ci sub tw j cj k ck se st ok(1,2)
    by (simp add: mime_parse_line_def Let_def)
qed

lemma fgets_take_line: "LF \<notin> set l \<Longrightarrow> length l < n \<Longrightarrow> fgets_take n (l @ LF # rest) = l @ [LF]"
proof (induction l arbitrary: n)
  case Nil
  then show ?case by (cases n) auto
next
  case (Cons c l)
  then show ?case by (cases n) auto
qed

lemma mime_line_split: "\<exists>l. mime_line e = l @ [LF] \<and> length l = length (fst e) + length (snd e) + 13 \<and>
    (mime_entry_ok e \<longrightarrow> LF \<notin> set l \<and> NUL \<notin> set l)"
  by (rule exI [of _ "''    '' @ [QUOTE] @ fst e @ [QUOTE] @ '' => '' @ [QUOTE] @ snd e @ [QUOTE] @ '',''"])
    (auto simp: mime_line_def mime_entry_ok_def)

lemma mime_table_loop_lines:
  "\<forall>e \<in> set es. mime_entry_ok e \<and> length (fst e) + length (snd e) < 1000 \<Longrightarrow>
   mime_table_loop (concat (map mime_line es)) t = foldl mime_table_add t es"
proof (induction es arbitrary: t)
  case Nil
  then show ?case by (subst mime_table_loop.simps) simp
next
  case (Cons e es)
  let ?rest = "concat (map mime_line es)"
  obtain l where l: "mime_line e = l @ [LF]" "length l < 1023" "LF \<notin> set l" "NUL \<notin> set l"
    using mime_line_split [of e] Cons.prems by auto
  then have line: "fgets_take 1023 (mime_line e @ ?rest) = mime_line e"
    using fgets_take_line [of l 1023 ?rest] by simp
  have "takeWhile (\<lambda>c. c \<noteq> NUL) (mime_line e) = mime_line e"
    using l by (simp add: takeWhile_eq_all_conv) blast
  then have "mime_parse_line (takeWhile (\<lambda>c. c \<noteq> NUL) (mime_line e)) = Some e"
    using mime_parse_line_ok [of "fst e" "snd e"] Cons.prems by (simp only: prod.collapse list.set_intros)
  moreover have "mime_line e \<noteq> []" by (simp add: l)
  ultimately show ?case
    using line Cons by (subst mime_table_loop.simps) (simp add: Let_def)
qed

text \<open>The array never overflows: an entry is stored below the allocated size.\<close>

definition mime_table_wf :: "mime_table \<Rightarrow> bool" where
  "mime_table_wf t \<longleftrightarrow> unat (used_entry t) = length (entry t) \<and> used_entry t \<le> entry_sizes t"

lemma mime_table_add_wf:
  assumes "mime_table_wf t" and "length (entry t) < 2 ^ 31"
  shows "mime_table_wf (mime_table_add t e) \<and> entry (mime_table_add t e) = entry t @ [e]"
proof -
  from assms have used: "unat (used_entry t) = length (entry t)" "used_entry t \<le> entry_sizes t"
    by (simp_all add: mime_table_wf_def)
  have u: "unat (used_entry t + 1) = Suc (length (entry t))"
    using used(1) assms(2) by (subst unat_add_u32) simp_all
  show ?thesis
  proof (cases "used_entry t = entry_sizes t")
    case True
    then have "unat (entry_sizes t + 1024) = length (entry t) + 1024"
      using used(1) assms(2) by (subst unat_add_u32) simp_all
    with True u show ?thesis by (simp add: mime_table_add_def mime_table_wf_def word_le_nat_alt)
  next
    case False
    with used u show ?thesis
      by (auto simp: mime_table_add_def mime_table_wf_def word_le_nat_alt order_le_less
          dest: word_unat_eq_iff [THEN iffD2])
  qed
qed

lemma foldl_mime_table_add:
  "mime_table_wf t \<Longrightarrow> length (entry t) + length es < 2 ^ 31 \<Longrightarrow>
   mime_table_wf (foldl mime_table_add t es) \<and> entry (foldl mime_table_add t es) = entry t @ es"
proof (induction es arbitrary: t)
  case (Cons e es)
  with mime_table_add_wf [of t e] show ?case by simp
qed simp

section \<open>Properties\<close>

text \<open>C28: a mime file written line by line in the documented format is read back as exactly its entries,
  in order; the entry array is always large enough.\<close>

theorem mime_table_roundtrip:
  assumes "\<forall>e \<in> set es. mime_entry_ok e \<and> length (fst e) + length (snd e) < 1000"
    and "length es < 2 ^ 31" and "fname \<noteq> []" and "fopen fname = Some (concat (map mime_line es))"
  shows "\<exists>t. mime_table_initialize fopen fname = Some t \<and> entry t = es \<and>
    unat (used_entry t) = length es \<and> used_entry t \<le> entry_sizes t"
proof -
  let ?t = "\<lparr>entry = [], used_entry = 0, entry_sizes = 1024\<rparr>"
  have "mime_table_wf ?t" by (simp add: mime_table_wf_def)
  from foldl_mime_table_add [OF this, of es] mime_table_loop_lines [OF assms(1), of ?t] assms(2-4)
  show ?thesis by (simp add: mime_table_initialize_def mime_table_wf_def)
qed

theorem mime_table_roundtrip_witness:
  "\<exists>t. mime_table_initialize [''f'' \<mapsto> concat (map mime_line [(''.gz'', ''application/gzip'')])] ''f'' = Some t \<and>
    entry t = [(''.gz'', ''application/gzip'')] \<and>
    unat (used_entry t) = length [(''.gz'', ''application/gzip'')] \<and> used_entry t \<le> entry_sizes t"
  by (rule mime_table_roundtrip) (simp_all add: mime_entry_ok_def)

section \<open>Any mime file\<close>

text \<open>Whatever a mime file contains, its table is well formed, and the types in it are short strings.\<close>

lemma length_fgets_take: "length (fgets_take n s) \<le> n"
  by (induction n s rule: fgets_take.induct) auto

lemma fgets_take_nonempty: "s \<noteq> [] \<Longrightarrow> 0 < n \<Longrightarrow> fgets_take n s \<noteq> []"
  by (cases "(n, s)" rule: fgets_take.cases) auto

lemma mime_parse_line_type:
  assumes "mime_parse_line l = Some (ext, ty)"
  shows "set ty \<subseteq> set l \<and> length ty \<le> length l"
proof -
  have "set (substring l i n) \<subseteq> set l \<and> length (substring l i n) \<le> length l" for i n
    by (auto simp: substring_def dest: in_set_takeD in_set_dropD)
  then show ?thesis using assms by (auto simp: mime_parse_line_def Let_def split: if_splits option.splits)
qed

definition short_types :: "mime_table \<Rightarrow> bool" where
  "short_types t \<longleftrightarrow> (\<forall>(ext, ty) \<in> set (entry t). NUL \<notin> set ty \<and> length ty < 1024)"

lemma mime_table_loop_wf:
  "mime_table_wf t \<Longrightarrow> short_types t \<Longrightarrow> length (entry t) + length content < 2 ^ 31 \<Longrightarrow>
   mime_table_wf (mime_table_loop content t) \<and> short_types (mime_table_loop content t)"
proof (induction content t rule: mime_table_loop.induct)
  case (1 content t)
  show ?case
  proof (cases "content = []")
    case True
    have "mime_table_loop content t = t" unfolding mime_table_loop.simps [of content t] by (simp add: True)
    then show ?thesis using "1.prems" by simp
  next
    case False
    let ?line = "fgets_take 1023 content" and ?rest = "drop (length (fgets_take 1023 content)) content"
    let ?t = "case mime_parse_line (takeWhile (\<lambda>c. c \<noteq> NUL) ?line) of None \<Rightarrow> t | Some e \<Rightarrow> mime_table_add t e"
    have line: "?line \<noteq> []" "length ?line \<le> 1023" using fgets_take_nonempty [OF False] length_fgets_take by simp_all
    have rest: "length ?rest < length content" using line(1) False by (simp add: Suc_le_eq)
    have "mime_table_wf ?t \<and> short_types ?t \<and> length (entry ?t) + length ?rest < 2 ^ 31"
    proof (cases "mime_parse_line (takeWhile (\<lambda>c. c \<noteq> NUL) ?line)")
      case None
      then show ?thesis using "1.prems" rest by simp
    next
      case (Some e)
      obtain ext ty where e: "e = (ext, ty)" by (cases e)
      note ty = mime_parse_line_type [OF Some [unfolded e]]
      have "NUL \<notin> set ty" using ty by (auto dest: set_takeWhileD)
      moreover have "length ty < 1024" using ty line(2) length_takeWhile_le [of "\<lambda>c. c \<noteq> NUL" ?line] by linarith
      moreover have "length (entry t) < 2 ^ 31" using "1.prems"(3) by simp
      ultimately show ?thesis using "1.prems" rest mime_table_add_wf [OF "1.prems"(1), of e] e
        by (simp add: Some short_types_def)
    qed
    with "1.IH" [OF False refl] show ?thesis using False by (simp add: mime_table_loop.simps [of content t] Let_def)
  qed
qed

lemma mime_table_initialize_wf:
  assumes "mime_table_initialize fopen f = Some t" and "\<And>content. fopen f = Some content \<Longrightarrow> length content < 2 ^ 31"
  shows "mime_table_wf t" and "short_types t"
proof -
  obtain content where c: "fopen f = Some content" "t = mime_table_loop content \<lparr>entry = [], used_entry = 0, entry_sizes = 1024\<rparr>"
    using assms(1) by (auto simp: mime_table_initialize_def split: if_splits option.splits)
  have "mime_table_wf \<lparr>entry = [], used_entry = 0, entry_sizes = 1024\<rparr>" "short_types \<lparr>entry = [], used_entry = 0, entry_sizes = 1024\<rparr>"
    by (simp_all add: mime_table_wf_def short_types_def)
  from mime_table_loop_wf [OF this, of content] assms(2) [OF c(1)] c(2)
  show "mime_table_wf t" "short_types t" by simp_all
qed

end
