(* ===== verification/State.thy ===== *)
theory State
  imports Chunk Key_Map
begin

text \<open>
  The data of the server that its components share: the configuration (\<open>src/config.h\<close>,
  \<open>src/config.cpp\<close>), the parsed request (\<open>src/request.h\<close>), the response (\<open>src/response.h\<close>) and the
  connection (\<open>src/connection.h\<close>), with the operations that initialise and reset them. A connection
  reaches its worker through a pointer; here the handlers take what they use of the worker as an
  argument. Flags that only ever hold 0 or 1 are \<open>bool\<close>, times are \<open>int\<close> (\<open>time_t\<close> is 64 bits wide).
\<close>

section \<open>Configuration\<close>

record server_config =
  service_name :: buffer
  version_info :: buffer
  support_http_1_1 :: u32
  max_http_head_size :: u32
  listenint_port :: int
  max_listening_number :: u32
  service_root_dir :: buffer
  mimetype_filepath :: buffer
  minihttpd_global_config_filepath :: buffer
  max_fd :: u32
  max_worker_number :: u32
  log_filename :: buffer
  table :: "mime_table option"
  max_read_idle_ts :: u32
  max_write_idle_ts :: u32

definition MINIHTTPD_CLOSE_TIMEOUT :: int where "MINIHTTPD_CLOSE_TIMEOUT = 4"

text \<open>The \<open>memset\<close> to 0 leaves the fields that are not assigned at 0.\<close>

definition server_config_init :: server_config where
  "server_config_init =
     \<lparr>service_name = buffer_init, version_info = buffer_init, support_http_1_1 = 0, max_http_head_size = 0,
      listenint_port = 0, max_listening_number = 0, service_root_dir = buffer_init,
      mimetype_filepath = buffer_init, minihttpd_global_config_filepath = buffer_init, max_fd = 0,
      max_worker_number = 0, log_filename = buffer_init, table = None,
      max_read_idle_ts = 60, max_write_idle_ts = 360\<rparr>"

definition set_config_default :: "server_config \<Rightarrow> fault + server_config" where
  "set_config_default config =
     andthen (buffer_copy_string (service_name config) (lit ''minihttpd'')) (\<lambda>name.
     andthen (buffer_copy_string (service_root_dir config) (lit ''/var/opt/minihttpd/minihttpd'')) (\<lambda>root.
     andthen (buffer_copy_string (mimetype_filepath config) (lit ''/var/opt/minihttpd/mime_type.conf'')) (\<lambda>mime.
     andthen (buffer_copy_string (log_filename config) (lit ''/var/opt/minihttpd/minihttpd.log'')) (\<lambda>log.
     andthen (buffer_copy_string (minihttpd_global_config_filepath config)
                (lit ''/var/opt/minihttpd/minihttpd.conf'')) (\<lambda>conf.
     andthen (buffer_copy_string (version_info config) (lit ''v0.1'')) (\<lambda>version.
     Inr (config\<lparr>service_name := name, support_http_1_1 := 1, max_http_head_size := 2 ^ 16 - 1,
            listenint_port := 80, max_listening_number := 128 * 8, service_root_dir := root,
            mimetype_filepath := mime, log_filename := log,
            minihttpd_global_config_filepath := conf, max_fd := 4096, max_worker_number := 4,
            version_info := version\<rparr>)))))))"

section \<open>Requests\<close>

datatype http_method_t =
    HTTP_METHOD_UNSET
  | HTTP_METHOD_GET | HTTP_METHOD_HEAD | HTTP_METHOD_POST | HTTP_METHOD_PUT | HTTP_METHOD_DELETE
  | HTTP_METHOD_CONNECT | HTTP_METHOD_OPTIONS | HTTP_METHOD_TRACE | HTTP_METHOD_ACL
  | HTTP_METHOD_BASELINE_CONTROL | HTTP_METHOD_BIND | HTTP_METHOD_CHECKIN | HTTP_METHOD_CHECKOUT
  | HTTP_METHOD_COPY | HTTP_METHOD_LABEL | HTTP_METHOD_LINK | HTTP_METHOD_LOCK | HTTP_METHOD_MERGE
  | HTTP_METHOD_MKACTIVITY | HTTP_METHOD_MKCALENDAR | HTTP_METHOD_MKCOL
  | HTTP_METHOD_MKREDIRECTREF | HTTP_METHOD_MKWORKSPACE | HTTP_METHOD_MOVE | HTTP_METHOD_ORDERPATCH
  | HTTP_METHOD_PATCH | HTTP_METHOD_PROPFIND | HTTP_METHOD_PROPPATCH | HTTP_METHOD_REBIND
  | HTTP_METHOD_REPORT | HTTP_METHOD_SEARCH | HTTP_METHOD_UNBIND | HTTP_METHOD_UNCHECKOUT
  | HTTP_METHOD_UNLINK | HTTP_METHOD_UNLOCK | HTTP_METHOD_UPDATE | HTTP_METHOD_UPDATEREDIRECTREF
  | HTTP_METHOD_VERSION_CONTROL

datatype http_version_t = HTTP_VERSION_UNSET | HTTP_VERSION_1_0 | HTTP_VERSION_1_1

datatype http_connection_t =
  HTTP_CONNECTION_UNSET | HTTP_CONNECTION_KEEP_ALIVE | HTTP_CONNECTION_CLOSE

record request =
  request_content :: buffer
  http_method :: buffer
  request_url :: buffer
  http_version :: http_version_t
  req_keep_alive :: http_connection_t
  hostname :: buffer
  http_range :: buffer

definition request_initialize :: request where
  "request_initialize =
     \<lparr>request_content = buffer_init, http_method = buffer_init, request_url = buffer_init,
      http_version = HTTP_VERSION_UNSET, req_keep_alive = HTTP_CONNECTION_UNSET,
      hostname = buffer_init, http_range = buffer_init\<rparr>"

definition request_reset :: "request \<Rightarrow> request" where
  "request_reset r =
     \<lparr>request_content = buffer_reset (request_content r), http_method = buffer_reset (http_method r),
      request_url = buffer_reset (request_url r), http_version = HTTP_VERSION_UNSET,
      req_keep_alive = HTTP_CONNECTION_UNSET, hostname = buffer_reset (hostname r),
      http_range = buffer_reset (http_range r)\<rparr>"

section \<open>Responses\<close>

text \<open>What the program reads of \<open>struct stat\<close>.\<close>

datatype file_kind = Regular | Directory | Other_Kind

record stat =
  st_kind :: file_kind
  st_size :: int
  st_mtime :: int

record response =
  fullpath :: buffer
  s_stat :: "stat option"
  content_length :: u32
  content_type :: buffer

definition response_initialize :: response where
  "response_initialize =
     \<lparr>fullpath = buffer_init, s_stat = None, content_length = 0, content_type = buffer_init\<rparr>"

definition response_reset :: "response \<Rightarrow> response" where
  "response_reset r =
     \<lparr>fullpath = buffer_reset (fullpath r), s_stat = None, content_length = 0,
      content_type = buffer_reset (content_type r)\<rparr>"

section \<open>Connections\<close>

datatype connection_state_t =
    CON_STATE_REQUEST_START | CON_STATE_REQUEST_END | CON_STATE_READ | CON_STATE_HANDLE_REQUEST
  | CON_STATE_RESPONSE_START | CON_STATE_WRITE | CON_STATE_RESPONSE_END | CON_STATE_ERROR
  | CON_STATE_CLOSE | CON_STATE_CONNECT

record connection =
  connection_index :: u32
  state :: connection_state_t
  conn_socket_fd :: int
  start_ts :: int
  active_read_ts :: int
  active_write_ts :: int
  close_timeout_ts :: int
  readable :: bool
  writeable :: bool
  keep_alive :: bool
  http_status :: u32
  http_response_body_finished :: bool
  readqueue :: chunkqueue
  writequeue :: chunkqueue
  connection_request :: request
  connection_response :: response

text \<open>
  \<open>connection_set_default\<close> gets a struct fresh from \<open>malloc\<close>: the fields it does not assign
  (\<open>start_ts\<close>, \<open>close_timeout_ts\<close>, \<open>connection_index\<close>) keep whatever the memory held.
\<close>

definition connection_set_default :: "connection \<Rightarrow> connection" where
  "connection_set_default conn = conn
     \<lparr>state := CON_STATE_REQUEST_START, conn_socket_fd := -1, readable := False, writeable := False,
      keep_alive := False, http_status := 0, http_response_body_finished := False,
      readqueue := chunkqueue_init, writequeue := chunkqueue_init,
      connection_request := request_initialize, connection_response := response_initialize,
      active_read_ts := 0, active_write_ts := 0\<rparr>"

definition connection_reset :: "connection \<Rightarrow> fault + connection" where
  "connection_reset conn =
     andthen (chunkqueue_reset (readqueue conn)) (\<lambda>rq.
     andthen (chunkqueue_reset (writequeue conn)) (\<lambda>wq.
     Inr (conn\<lparr>readable := False, writeable := False, http_status := 0,
            http_response_body_finished := False, keep_alive := False,
            readqueue := rq, writequeue := wq,
            connection_request := request_reset (connection_request conn),
            connection_response := response_reset (connection_response conn),
            active_read_ts := 0, active_write_ts := 0\<rparr>)))"

definition connection_set_state :: "connection \<Rightarrow> connection_state_t \<Rightarrow> connection" where
  "connection_set_state conn st = conn\<lparr>state := st\<rparr>"

definition connection_get_state :: "connection \<Rightarrow> string" where
  "connection_get_state conn =
     (case state conn of
        CON_STATE_REQUEST_START \<Rightarrow> ''connecection_state_request_start''
      | CON_STATE_REQUEST_END \<Rightarrow> ''connecection_state_request_end''
      | CON_STATE_READ \<Rightarrow> ''connecection_state_read''
      | CON_STATE_HANDLE_REQUEST \<Rightarrow> ''connecection_state_handle_request''
      | CON_STATE_RESPONSE_START \<Rightarrow> ''connecection_state_response_start''
      | CON_STATE_WRITE \<Rightarrow> ''connecection_state_write''
      | CON_STATE_RESPONSE_END \<Rightarrow> ''connecection_state_response_end''
      | CON_STATE_ERROR \<Rightarrow> ''connecection_state_error''
      | CON_STATE_CLOSE \<Rightarrow> ''connection_state_closed''
      | CON_STATE_CONNECT \<Rightarrow> ''conenction_state_connect'')"

section \<open>Well-formedness\<close>

definition request_wf :: "request \<Rightarrow> bool" where
  "request_wf r \<longleftrightarrow> (\<exists>c m u h g. buffer_holds (request_content r) c \<and> buffer_holds (http_method r) m \<and>
     buffer_holds (request_url r) u \<and> buffer_holds (hostname r) h \<and> buffer_holds (http_range r) g)"

definition response_wf :: "response \<Rightarrow> bool" where
  "response_wf r \<longleftrightarrow> (\<exists>p c. buffer_holds (fullpath r) p \<and> buffer_holds (content_type r) c)"

definition connection_wf :: "connection \<Rightarrow> bool" where
  "connection_wf conn \<longleftrightarrow> (\<exists>vs ws. queue_rel (readqueue conn) vs \<and> queue_rel (writequeue conn) ws) \<and>
     request_wf (connection_request conn) \<and> response_wf (connection_response conn)"

lemma request_wf_initialize [simp]: "request_wf request_initialize"
  by (auto simp: request_wf_def request_initialize_def intro!: exI [of _ "[]"])

lemma request_wf_reset [simp]: "request_wf (request_reset r)"
  by (auto simp: request_wf_def request_reset_def intro!: exI [of _ "[]"])

lemma response_wf_initialize [simp]: "response_wf response_initialize"
  by (auto simp: response_wf_def response_initialize_def intro!: exI [of _ "[]"])

lemma response_wf_reset [simp]: "response_wf (response_reset r)"
  by (auto simp: response_wf_def response_reset_def intro!: exI [of _ "[]"])

lemma connection_set_default_wf: "connection_wf (connection_set_default conn)"
  using queue_rel_init by (auto simp: connection_wf_def connection_set_default_def)

lemma connection_reset_wf [returns_rules]:
  assumes "connection_wf conn"
  shows "returns (connection_reset conn) (\<lambda>conn'. connection_wf conn' \<and>
     queue_rel (readqueue conn') [] \<and> queue_rel (writequeue conn') [] \<and>
     state conn' = state conn \<and> conn_socket_fd conn' = conn_socket_fd conn \<and>
     close_timeout_ts conn' = close_timeout_ts conn \<and> connection_index conn' = connection_index conn \<and>
     \<not> readable conn' \<and> \<not> writeable conn' \<and> \<not> keep_alive conn' \<and> http_status conn' = 0 \<and>
     \<not> http_response_body_finished conn')"
proof -
  from assms obtain vs ws where "queue_rel (readqueue conn) vs" "queue_rel (writequeue conn) ws"
    by (auto simp: connection_wf_def)
  then obtain rq where rq: "chunkqueue_reset (readqueue conn) = Inr rq" "queue_rel rq []"
    using chunkqueue_reset_rel [OF \<open>queue_rel (readqueue conn) vs\<close>] by (auto simp: returns_iff)
  obtain wq where wq: "chunkqueue_reset (writequeue conn) = Inr wq" "queue_rel wq []"
    using chunkqueue_reset_rel [OF \<open>queue_rel (writequeue conn) ws\<close>] by (auto simp: returns_iff)
  from rq wq assms show ?thesis by (auto simp: connection_reset_def connection_wf_def)
qed

end
