(* ===== verification/Request.thy ===== *)
theory Request
  imports State
begin

text \<open>
  The HTTP request parser (\<open>src/request.cpp\<close>). It works in place on the bytes the connection has
  received: pointers into \<open>request_content->ptr\<close> are the offsets of the bytes they point at, and the
  stores through them are \<open>poke\<close>s. Offsets stay below the length of the content, a 32-bit number, so
  none of the \<open>index+1\<close> of the code wraps around. The lemmas show that no received byte string makes
  the parser leave its buffer, what its verdict says of the parsed request, and that a rendered
  request is parsed back.
\<close>

section \<open>The C code\<close>

definition poke :: "buffer \<Rightarrow> nat \<Rightarrow> char \<Rightarrow> fault + buffer" where
  "poke b i c = andthen (write_cells (ptr b) i [Some c]) (\<lambda>p. Inr (b\<lparr>ptr := p\<rparr>))"

definition http_methods :: "(http_method_t \<times> string) list" where
  "http_methods =
    [(HTTP_METHOD_GET, ''GET''), (HTTP_METHOD_HEAD, ''HEAD''), (HTTP_METHOD_POST, ''POST''),
     (HTTP_METHOD_PUT, ''PUT''), (HTTP_METHOD_DELETE, ''DELETE''), (HTTP_METHOD_CONNECT, ''CONNECT''),
     (HTTP_METHOD_OPTIONS, ''OPTIONS''), (HTTP_METHOD_TRACE, ''TRACE''), (HTTP_METHOD_ACL, ''ACL''),
     (HTTP_METHOD_BASELINE_CONTROL, ''BASELINE-CONTROL''), (HTTP_METHOD_BIND, ''BIND''),
     (HTTP_METHOD_CHECKIN, ''CHECKIN''), (HTTP_METHOD_CHECKOUT, ''CHECKOUT''),
     (HTTP_METHOD_COPY, ''COPY''), (HTTP_METHOD_LABEL, ''LABEL''), (HTTP_METHOD_LINK, ''LINK''),
     (HTTP_METHOD_LOCK, ''LOCK''), (HTTP_METHOD_MERGE, ''MERGE''),
     (HTTP_METHOD_MKACTIVITY, ''MKACTIVITY''), (HTTP_METHOD_MKCALENDAR, ''MKCALENDAR''),
     (HTTP_METHOD_MKCOL, ''MKCOL''), (HTTP_METHOD_MKREDIRECTREF, ''MKREDIRECTREF''),
     (HTTP_METHOD_MKWORKSPACE, ''MKWORKSPACE''), (HTTP_METHOD_MOVE, ''MOVE''),
     (HTTP_METHOD_ORDERPATCH, ''ORDERPATCH''), (HTTP_METHOD_PATCH, ''PATCH''),
     (HTTP_METHOD_PROPFIND, ''PROPFIND''), (HTTP_METHOD_PROPPATCH, ''PROPPATCH''),
     (HTTP_METHOD_REBIND, ''REBIND''), (HTTP_METHOD_REPORT, ''REPORT''),
     (HTTP_METHOD_SEARCH, ''SEARCH''), (HTTP_METHOD_UNBIND, ''UNBIND''),
     (HTTP_METHOD_UNCHECKOUT, ''UNCHECKOUT''), (HTTP_METHOD_UNLINK, ''UNLINK''),
     (HTTP_METHOD_UNLOCK, ''UNLOCK''), (HTTP_METHOD_UPDATE, ''UPDATE''),
     (HTTP_METHOD_UPDATEREDIRECTREF, ''UPDATEREDIRECTREF''),
     (HTTP_METHOD_VERSION_CONTROL, ''VERSION-CONTROL'')]"

fun http_method_lookup :: "(http_method_t \<times> string) list \<Rightarrow> string \<Rightarrow> http_method_t" where
  "http_method_lookup [] s = HTTP_METHOD_UNSET"
| "http_method_lookup ((k, v) # ms) s = (if s = v then k else http_method_lookup ms s)"

definition http_get_request_method :: "buffer \<Rightarrow> fault + http_method_t" where
  "http_get_request_method b = andthen (cstr (ptr b)) (\<lambda>s. Inr (http_method_lookup http_methods s))"

text \<open>
  The loop over the request line stops at the first CRLF. It ends with the offsets of the method, the
  URL and the protocol and the index of the CR, with a refusal (status 400), or at the end of the
  content.
\<close>

datatype line_scan =
    Line_end "nat option" "nat option" nat nat
  | Line_bad
  | Line_open

function scan_request_line ::
  "buffer \<Rightarrow> nat \<Rightarrow> nat \<Rightarrow> nat \<Rightarrow> nat \<Rightarrow> nat option \<Rightarrow> nat option \<Rightarrow> fault + line_scan" where
  "scan_request_line b len index request_line_state offset http_request_method http_request_url =
     (if index < len
      then andthen (peek (ptr b) index) (\<lambda>buf_c.
           if buf_c = CHR '' ''
           then (if request_line_state = 0
                 then scan_request_line b len (index + 1) 1 (index + 1) (Some offset) http_request_url
                 else if request_line_state = 1
                 then scan_request_line b len (index + 1) 2 (index + 1) http_request_method (Some offset)
                 else Inr Line_bad)
           else if buf_c = CR
           then andthen (peek (ptr b) (index + 1)) (\<lambda>next_c.
                if next_c = LF
                then (if request_line_state \<noteq> 2 then Inr Line_bad
                      else Inr (Line_end http_request_method http_request_url offset index))
                else scan_request_line b len (index + 1) request_line_state offset
                       http_request_method http_request_url)
           else scan_request_line b len (index + 1) request_line_state offset
                  http_request_method http_request_url)
      else Inr Line_open)"
  by pat_completeness auto
termination
  by (relation "measure (\<lambda>(b, len, index, st, off, m, u). len - index)") auto

declare scan_request_line.simps [simp del]

text \<open>
  The version of \<open>HTTP/major.minor\<close>: the string after \<open>HTTP/\<close>. The code puts a NUL in place of the
  dot for the first \<open>strtol\<close> and then puts the dot back.
\<close>

definition http_version_numbers :: "string \<Rightarrow> (int \<times> int) option" where
  "http_version_numbers s =
     (case strchr s CHR ''.'' of
        None \<Rightarrow> None
      | Some i \<Rightarrow>
          if i = 0 \<or> i + 1 = length s then None
          else let major = strtol10 (take i s); minor = strtol10 (drop (i + 1) s)
               in if snd major \<noteq> [] \<or> snd minor \<noteq> [] then None
                  else Some (long_to_int (fst major), long_to_int (fst minor)))"

definition refuse :: "u32 \<Rightarrow> connection \<Rightarrow> connection" where
  "refuse status conn = conn\<lparr>http_status := status, keep_alive := False\<rparr>"

definition http_check_version :: "server_config \<Rightarrow> string \<Rightarrow> connection \<Rightarrow> bool \<times> connection" where
  "http_check_version config proto conn =
     (if strncmp_eq 5 proto ''HTTP/''
      then case http_version_numbers (drop 5 proto) of
             None \<Rightarrow> (False, refuse 400 conn)
           | Some (major_num, minor_num) \<Rightarrow>
               if major_num = 1 \<and> minor_num = 1
               then (True, conn\<lparr>connection_request := (connection_request conn)
                       \<lparr>http_version := if support_http_1_1 config \<noteq> 0 then HTTP_VERSION_1_1
                                        else HTTP_VERSION_1_0\<rparr>\<rparr>)
               else if major_num = 1 \<and> minor_num = 0
               then (True, conn\<lparr>connection_request := (connection_request conn)
                       \<lparr>http_version := HTTP_VERSION_1_0\<rparr>\<rparr>)
               else (False, refuse 400 conn)
      else (False, refuse 400 conn))"

text \<open>A pointer that was never set is \<open>NULL\<close>; \<open>store_before\<close> is \<open>*(p-1)='\0'\<close>.\<close>

definition offset_of :: "nat option \<Rightarrow> fault + nat" where
  "offset_of p = (case p of None \<Rightarrow> Inl NullDeref | Some i \<Rightarrow> Inr i)"

definition store_before :: "buffer \<Rightarrow> nat \<Rightarrow> fault + buffer" where
  "store_before b i = (if i = 0 then Inl OutOfBounds else poke b (i - 1) NUL)"

text \<open>What the loop does at the CRLF; the boolean says whether it goes on or returns -1.\<close>

definition request_line_end ::
  "server_config \<Rightarrow> nat option \<Rightarrow> nat option \<Rightarrow> nat \<Rightarrow> nat \<Rightarrow> connection \<Rightarrow> fault + (bool \<times> connection)" where
  "request_line_end config http_request_method http_request_url proto index conn =
     andthen (poke (request_content (connection_request conn)) index NUL) (\<lambda>b1.
     andthen (poke b1 (index + 1) NUL) (\<lambda>b2.
     andthen (offset_of http_request_url) (\<lambda>url.
     andthen (store_before b2 url) (\<lambda>b3.
     andthen (store_before b3 proto) (\<lambda>b4.
     andthen (offset_of http_request_method) (\<lambda>meth.
     andthen (buffer_append_string buffer_init (advance (ptr b4) meth)) (\<lambda>method_b.
     andthen (http_get_request_method method_b) (\<lambda>method_key.
     let r = (connection_request conn)\<lparr>request_content := b4\<rparr>
     in if method_key \<noteq> HTTP_METHOD_GET \<and> method_key \<noteq> HTTP_METHOD_POST
        then Inr (False, refuse 501 (conn\<lparr>connection_request := r\<rparr>))
        else andthen (buffer_copy_buffer (http_method r) method_b) (\<lambda>hm.
             andthen (buffer_copy_string (request_url r) (advance (ptr b4) url)) (\<lambda>ru.
             andthen (cstr (advance (ptr b4) proto)) (\<lambda>p.
             Inr (http_check_version config p
                    (conn\<lparr>connection_request := r\<lparr>http_method := hm, request_url := ru\<rparr>\<rparr>)))))))))))))"

text \<open>
  One option line. The lengths are those of the code: \<open>sizeof("Connection"-1)\<close> is the size of a
  pointer, 8, so only a prefix of the name is compared; the other lengths are those of the names.
\<close>

definition http_request_option :: "request \<Rightarrow> nat \<Rightarrow> nat \<Rightarrow> fault + request" where
  "http_request_option r option_key option_buf =
     andthen (cstr (advance (ptr (request_content r)) option_key)) (\<lambda>key.
     andthen (cstr (advance (ptr (request_content r)) option_buf)) (\<lambda>val.
     if strncasecmp_eq 8 key ''Connection''
     then Inr (if strncasecmp_eq 10 val ''keep-alive'' then r\<lparr>req_keep_alive := HTTP_CONNECTION_KEEP_ALIVE\<rparr>
               else if strncasecmp_eq 5 val ''close'' then r\<lparr>req_keep_alive := HTTP_CONNECTION_CLOSE\<rparr>
               else r)
     else if strncasecmp_eq 4 key ''Host''
     then andthen (buffer_copy_string (hostname r) (advance (ptr (request_content r)) option_buf))
            (\<lambda>h. Inr (r\<lparr>hostname := h\<rparr>))
     else if strncasecmp_eq 5 key ''Range''
     then andthen (buffer_copy_string (http_range r) (advance (ptr (request_content r)) option_buf))
            (\<lambda>g. Inr (r\<lparr>http_range := g\<rparr>))
     else Inr r))"

text \<open>What happens at the CRLF that ends an option line.\<close>

definition http_option_line :: "request \<Rightarrow> nat \<Rightarrow> nat \<Rightarrow> nat \<Rightarrow> fault + request" where
  "http_option_line r index offset option_buf =
     andthen (poke (request_content r) index NUL) (\<lambda>b1.
     andthen (poke b1 (index + 1) NUL) (\<lambda>b2.
     let r1 = r\<lparr>request_content := b2\<rparr>;
         option_buf_len = (of_nat index - of_nat option_buf :: u32)
     in if 0 < option_buf_len then http_request_option r1 offset option_buf else Inr r1))"

function scan_options ::
  "nat \<Rightarrow> nat \<Rightarrow> bool \<Rightarrow> nat \<Rightarrow> nat \<Rightarrow> request \<Rightarrow> fault + (bool \<times> request)" where
  "scan_options len index is_key offset option_buf r =
     (if index < len
      then andthen (peek (ptr (request_content r)) index) (\<lambda>buf_c.
           if is_key
           then (if buf_c = CHR '':''
                 then scan_options len (index + 1) False offset (index + 1) r
                 else scan_options len (index + 1) True offset option_buf r)
           else if buf_c = CR
           then andthen (peek (ptr (request_content r)) (index + 1)) (\<lambda>next_c.
                if next_c = LF
                then andthen (http_option_line r index offset option_buf)
                       (\<lambda>r2. scan_options len (index + 2) True (index + 2) option_buf r2)
                else Inr (False, r))
           else if (buf_c = CHR '' '' \<or> buf_c = CHR 0x09) \<and> option_buf = index
           then scan_options len (index + 1) False offset (index + 1) r
           else scan_options len (index + 1) False offset option_buf r)
      else Inr (True, r))"
  by pat_completeness auto
termination
  by (relation "measure (\<lambda>(len, index, k, off, ob, r). len - index)") auto

declare scan_options.simps [simp del]

text \<open>The checks after the last option.\<close>

definition request_post_check :: "connection \<Rightarrow> int \<times> connection" where
  "request_post_check conn =
     (let r = connection_request conn
      in if http_version r = HTTP_VERSION_1_1
         then (if buffer_is_empty (hostname r) then (-1, refuse 400 conn)
               else (0, conn\<lparr>keep_alive := (req_keep_alive r \<noteq> HTTP_CONNECTION_CLOSE)\<rparr>))
         else (0, conn\<lparr>keep_alive := (req_keep_alive r = HTTP_CONNECTION_KEEP_ALIVE)\<rparr>))"

text \<open>
  From the check of the URL on: \<open>index\<close> is where the loop over the request line stopped, \<open>offset\<close>
  the start of the first option.
\<close>

definition request_options ::
  "nat \<Rightarrow> nat \<Rightarrow> nat \<Rightarrow> connection \<Rightarrow> fault + (int \<times> connection)" where
  "request_options len index offset conn =
     (if buffer_is_empty (request_url (connection_request conn)) then Inr (-1, refuse 400 conn)
      else andthen (scan_options len index True offset 0 (connection_request conn)) (\<lambda>(ok, r).
           let conn1 = conn\<lparr>connection_request := r\<rparr>
           in if ok then Inr (request_post_check conn1) else Inr (-1, refuse 400 conn1)))"

definition http_reuqest_parse :: "server_config \<Rightarrow> connection \<Rightarrow> fault + (int \<times> connection)" where
  "http_reuqest_parse config conn =
     (let content = request_content (connection_request conn);
          len = unat (buffer_string_length content)
      in andthen (scan_request_line content len 0 0 0 None None) (\<lambda>scan.
         case scan of
           Line_bad \<Rightarrow> Inr (-1, refuse 400 conn)
         | Line_open \<Rightarrow> request_options len len 0 conn
         | Line_end meth url proto index \<Rightarrow>
             andthen (request_line_end config meth url proto index conn) (\<lambda>(ok, conn1).
             if ok then request_options len (index + 2) (index + 2) conn1 else Inr (-1, conn1))))"

section \<open>Reading and writing the content\<close>

definition text_buffer :: "buffer \<Rightarrow> string \<Rightarrow> bool" where
  "text_buffer b s \<longleftrightarrow> buffer_holds b s \<and> used_bytes b \<noteq> 0"

lemma text_buffer_cells:
  "text_buffer b s \<longleftrightarrow> used_bytes b \<noteq> 0 \<and> unat (used_bytes b) = Suc (length s) \<and>
     (\<exists>rest. ptr b = Some (map Some s @ Some NUL # rest) \<and> Suc (length s + length rest) = unat (buf_size b))"
proof -
  have "take (Suc n) cs = xs @ [y] \<longleftrightarrow> (\<exists>rest. cs = xs @ y # rest)" if "length xs = n"
    for n and cs xs :: "cell list" and y
  proof
    assume "take (Suc n) cs = xs @ [y]"
    then have "cs = (xs @ [y]) @ drop (Suc n) cs" by (metis append_take_drop_id)
    then show "\<exists>rest. cs = xs @ y # rest" by auto
  qed (use that in auto)
  from this [of "map Some s" "length s" _ "Some NUL"] show ?thesis
    by (auto simp: text_buffer_def buffer_holds_def split: option.splits)
qed

lemma text_buffer_peek [returns_rules]:
  "text_buffer b s \<Longrightarrow> i \<le> length s \<Longrightarrow> peek (ptr b) i = Inr (if i < length s then s ! i else NUL)"
  by (auto simp: text_buffer_cells nth_append)

lemma text_buffer_poke [returns_rules]:
  "text_buffer b s \<Longrightarrow> i < length s \<Longrightarrow> returns (poke b i c) (\<lambda>b'. text_buffer b' (s[i := c]))"
  by (auto simp: text_buffer_cells poke_def map_update upd_conv_take_nth_drop take_map drop_map
      length_append)

lemma cstr_cells_takeWhile:
  "cstr_cells (map Some s @ Some NUL # rest) = Inr (takeWhile (\<lambda>c. c \<noteq> NUL) s)"
  by (induction s) auto

lemma text_buffer_cstr:
  "text_buffer b s \<Longrightarrow> i \<le> length s \<Longrightarrow>
   cstr (advance (ptr b) i) = Inr (takeWhile (\<lambda>c. c \<noteq> NUL) (drop i s))"
  by (auto simp: text_buffer_cells advance_def cstr_cells_takeWhile drop_map)

lemma takeWhile_NUL: "NUL \<notin> set (takeWhile (\<lambda>c. c \<noteq> NUL) s)"
  by (auto dest: set_takeWhileD)

lemma cells_takeWhile_points_to:
  "points_to (Some (map Some s @ Some NUL # rest)) (takeWhile (\<lambda>c. c \<noteq> NUL) s)"
proof (induction s)
  case Nil
  then show ?case by (auto simp: points_to_def)
next
  case (Cons c s)
  then show ?case by (auto simp: points_to_def)
qed

lemma text_buffer_points_to:
  "text_buffer b s \<Longrightarrow> i \<le> length s \<Longrightarrow>
   points_to (advance (ptr b) i) (takeWhile (\<lambda>c. c \<noteq> NUL) (drop i s))"
  by (auto simp: text_buffer_cells advance_def drop_map cells_takeWhile_points_to)

lemma text_buffer_length: "text_buffer b s \<Longrightarrow> unat (buffer_string_length b) = length s"
  by (simp add: text_buffer_def buffer_string_length_holds)

lemma text_buffer_small: "text_buffer b s \<Longrightarrow> Suc (length s) < 2 ^ 32"
  using unat_u32_lt [of "used_bytes b"] by (simp add: text_buffer_cells)

lemma text_buffer_holds: "text_buffer b s \<Longrightarrow> buffer_holds b s"
  by (simp add: text_buffer_def)

section \<open>The method table\<close>

lemma http_method_lookup_GET: "http_method_lookup http_methods s = HTTP_METHOD_GET \<longleftrightarrow> s = ''GET''"
  by (simp add: http_methods_def)

lemma http_method_lookup_POST: "http_method_lookup http_methods s = HTTP_METHOD_POST \<longleftrightarrow> s = ''POST''"
  by (simp add: http_methods_def)

text \<open>Every entry of the table is found by its name.\<close>

lemma http_method_lookup_found: "\<forall>(k, v) \<in> set http_methods. http_method_lookup http_methods v = k"
  by code_simp

section \<open>No content makes the parser fault\<close>

text \<open>What the request line loop keeps: where the method, the URL and the current field start.\<close>

definition scan_inv :: "string \<Rightarrow> nat \<Rightarrow> nat \<Rightarrow> nat \<Rightarrow> nat option \<Rightarrow> nat option \<Rightarrow> bool" where
  "scan_inv s i st off m u \<longleftrightarrow> i \<le> length s \<and> off \<le> i \<and>
     (st = 0 \<and> off = 0 \<and> m = None \<and> u = None \<or>
      st = 1 \<and> 1 \<le> off \<and> m = Some 0 \<and> u = None \<or>
      st = 2 \<and> m = Some 0 \<and> (\<exists>x. u = Some x \<and> 1 \<le> x \<and> x < off))"

definition line_scan_ok :: "string \<Rightarrow> line_scan \<Rightarrow> bool" where
  "line_scan_ok s r \<longleftrightarrow> (case r of
     Line_end m u p i \<Rightarrow> m = Some 0 \<and> (\<exists>x. u = Some x \<and> 1 \<le> x \<and> x < p) \<and> p \<le> i \<and> Suc i < length s
   | _ \<Rightarrow> True)"

lemma scan_request_line_ok:
  assumes "text_buffer b s" and "scan_inv s i st off m u"
  shows "returns (scan_request_line b (length s) i st off m u) (line_scan_ok s)"
  using assms(2)
proof (induction "length s - i" arbitrary: i st off m u rule: less_induct)
  case less
  show ?case
  proof (cases "i < length s")
    case False
    then show ?thesis by (simp add: scan_request_line.simps [of b "length s" i] line_scan_ok_def)
  next
    case True
    have step: "returns (scan_request_line b (length s) (i + 1) st' off' m' u') (line_scan_ok s)"
      if "scan_inv s (i + 1) st' off' m' u'" for st' off' m' u'
      by (rule less.hyps) (use True that in auto)
    have same: "scan_inv s (i + 1) st off m u"
      using less.prems True by (auto simp: scan_inv_def)
    have space: "scan_inv s (i + 1) (Suc st) (i + 1) (if st = 0 then Some off else m) (if st = 0 then u else Some off)"
      if "s ! i = CHR '' ''" "st < 2"
      using less.prems True that by (auto simp: scan_inv_def)
    show ?thesis
      using less.prems True assms(1) step same space
      by (subst scan_request_line.simps)
        (auto simp: text_buffer_peek scan_inv_def line_scan_ok_def numeral_2_eq_2 split: if_splits)
  qed
qed

text \<open>The target of the request line: what stands between its first two spaces, up to a NUL.\<close>

definition request_target :: "string \<Rightarrow> string" where
  "request_target s = takeWhile (\<lambda>c. c \<noteq> NUL) (takeWhile (\<lambda>c. c \<noteq> CHR '' '') (tl (dropWhile (\<lambda>c. c \<noteq> CHR '' '') s)))"

text \<open>The first field of \<open>s\<close> ends before \<open>x\<close>, the second lies from \<open>x\<close> to the space before \<open>p\<close>.\<close>

definition first_field :: "string \<Rightarrow> nat \<Rightarrow> bool" where
  "first_field s x \<longleftrightarrow> 0 < x \<and> x \<le> length s \<and> s ! (x - 1) = CHR '' '' \<and> (\<forall>j < x - 1. s ! j \<noteq> CHR '' '')"

definition line_fields :: "string \<Rightarrow> nat \<Rightarrow> nat \<Rightarrow> bool" where
  "line_fields s x p \<longleftrightarrow> first_field s x \<and> x < p \<and> p \<le> length s \<and> s ! (p - 1) = CHR '' '' \<and>
     (\<forall>j. x \<le> j \<longrightarrow> j < p - 1 \<longrightarrow> s ! j \<noteq> CHR '' '')"

definition fields_inv :: "string \<Rightarrow> nat \<Rightarrow> nat \<Rightarrow> nat \<Rightarrow> nat option \<Rightarrow> bool" where
  "fields_inv s i st off u \<longleftrightarrow>
     st = 0 \<and> (\<forall>j < i. s ! j \<noteq> CHR '' '') \<or>
     st = 1 \<and> first_field s off \<and> off \<le> i \<and> (\<forall>j. off \<le> j \<longrightarrow> j < i \<longrightarrow> s ! j \<noteq> CHR '' '') \<or>
     st = 2 \<and> (\<exists>x. u = Some x \<and> line_fields s x off)"

lemma scan_request_line_fields_inv:
  assumes "text_buffer b s" and "fields_inv s i st off u"
  shows "ensures (scan_request_line b (length s) i st off m u)
    (\<lambda>r. \<forall>m u p i. r = Line_end m u p i \<longrightarrow> (\<exists>x. u = Some x \<and> line_fields s x p))"
  using assms(2)
proof (induction "length s - i" arbitrary: i st off m u rule: less_induct)
  case less
  show ?case
  proof (cases "i < length s")
    case False
    then show ?thesis by (simp add: scan_request_line.simps [of b "length s" i])
  next
    case True
    have step: "ensures (scan_request_line b (length s) (i + 1) st' off' m' u')
        (\<lambda>r. \<forall>m u p i. r = Line_end m u p i \<longrightarrow> (\<exists>x. u = Some x \<and> line_fields s x p))"
      if "fields_inv s (i + 1) st' off' u'" for st' off' m' u'
      by (rule less.hyps) (use True that in auto)
    have same: "fields_inv s (i + 1) st off u" if "s ! i \<noteq> CHR '' ''"
      using less.prems that by (auto simp: fields_inv_def less_Suc_eq)
    have one: "fields_inv s (i + 1) 1 (i + 1) u" if "s ! i = CHR '' ''" "st = 0"
      using less.prems that True by (auto simp: fields_inv_def first_field_def)
    have two: "fields_inv s (i + 1) 2 (i + 1) (Some off)" if "s ! i = CHR '' ''" "st = 1"
      using less.prems that True by (auto simp: fields_inv_def line_fields_def)
    show ?thesis
      using less.prems True assms(1) step same one two
      by (subst scan_request_line.simps) (auto simp: text_buffer_peek fields_inv_def split: if_splits)
  qed
qed

lemma takeWhile_cut: "\<not> P d \<Longrightarrow> takeWhile P (t @ d # rest) = takeWhile P t"
  by (induction t) auto

lemma cut_field_target:
  assumes "line_fields s x p" and "p \<le> i" and "Suc i < length s"
  shows "takeWhile (\<lambda>c. c \<noteq> NUL) (drop x (s[i := NUL, Suc i := NUL, x - 1 := NUL, p - 1 := NUL])) = request_target s"
proof -
  let ?t = "take (p - 1 - x) (drop x s)" and ?s4 = "s[i := NUL, Suc i := NUL, x - 1 := NUL, p - 1 := NUL]"
  have f: "0 < x" "x < p" "p \<le> length s" "s ! (x - 1) = CHR '' ''" "s ! (p - 1) = CHR '' ''"
      "\<forall>j < x - 1. s ! j \<noteq> CHR '' ''" "\<forall>j. x \<le> j \<longrightarrow> j < p - 1 \<longrightarrow> s ! j \<noteq> CHR '' ''"
    using assms(1) by (simp_all add: line_fields_def first_field_def)
  have cut: "drop x r = take (p - 1 - x) (drop x r) @ r ! (p - 1) # drop p r" if "length r = length s" for r :: string
  proof -
    have "drop (p - 1) r = r ! (p - 1) # drop p r"
      using f that Cons_nth_drop_Suc [of "p - 1" r] by simp
    moreover have "drop (p - 1 - x) (drop x r) = drop (p - 1) r" using f by simp
    ultimately show ?thesis using append_take_drop_id [of "p - 1 - x" "drop x r"] by metis
  qed
  have "take (p - 1 - x) (drop x ?s4) = ?t"
    by (rule nth_equalityI) (use f assms(2,3) in auto)
  moreover have "?s4 ! (p - 1) = NUL" using f by simp
  ultimately have four: "drop x ?s4 = ?t @ NUL # drop p ?s4" using cut [of ?s4] by simp
  have "\<forall>c \<in> set ?t. c \<noteq> CHR '' ''"
    using f by (auto simp: in_set_conv_nth)
  then have stop: "takeWhile (\<lambda>c. c \<noteq> CHR '' '') (?t @ CHR '' '' # drop p s) = ?t" by (rule takeWhile_stop) simp
  have "drop x s = ?t @ CHR '' '' # drop p s" using cut [OF refl] f(5) by simp
  then have t: "takeWhile (\<lambda>c. c \<noteq> CHR '' '') (drop x s) = ?t" using stop by (rule ssubst)
  have "s = take (x - 1) s @ CHR '' '' # drop x s"
    using f id_take_nth_drop [of "x - 1" s] by simp
  then have "dropWhile (\<lambda>c. c \<noteq> CHR '' '') s = dropWhile (\<lambda>c. c \<noteq> CHR '' '') (take (x - 1) s @ CHR '' '' # drop x s)"
    by (rule arg_cong)
  also have "\<forall>c \<in> set (take (x - 1) s). c \<noteq> CHR '' ''" using f by (auto simp: in_set_conv_nth)
  then have "dropWhile (\<lambda>c. c \<noteq> CHR '' '') (take (x - 1) s @ CHR '' '' # drop x s) = CHR '' '' # drop x s"
    by (subst dropWhile_append2) simp_all
  finally have "dropWhile (\<lambda>c. c \<noteq> CHR '' '') s = CHR '' '' # drop x s" .
  then have "request_target s = takeWhile (\<lambda>c. c \<noteq> NUL) ?t" by (simp add: request_target_def t)
  then show ?thesis unfolding four by (simp add: takeWhile_cut)
qed

lemma request_target_plain: "NUL \<notin> set (request_target s)"
  unfolding request_target_def by (rule takeWhile_NUL)

lemma request_target_length: "length (request_target s) \<le> length s"
proof -
  have "length (tl (dropWhile P s)) \<le> length s" for P
    using length_dropWhile_le [of P s] by simp
  then show ?thesis unfolding request_target_def by (meson length_takeWhile_le order_trans)
qed

lemma request_wf_contents [simp]:
  "request_wf (r\<lparr>http_version := v\<rparr>) = request_wf r"
  "request_wf (r\<lparr>req_keep_alive := k\<rparr>) = request_wf r"
  by (simp_all add: request_wf_def)

lemma request_wf_update:
  "request_wf r \<Longrightarrow> buffer_holds b s \<Longrightarrow> request_wf (r\<lparr>request_content := b\<rparr>)"
  "request_wf r \<Longrightarrow> buffer_holds b s \<Longrightarrow> request_wf (r\<lparr>http_method := b\<rparr>)"
  "request_wf r \<Longrightarrow> buffer_holds b s \<Longrightarrow> request_wf (r\<lparr>request_url := b\<rparr>)"
  "request_wf r \<Longrightarrow> buffer_holds b s \<Longrightarrow> request_wf (r\<lparr>hostname := b\<rparr>)"
  "request_wf r \<Longrightarrow> buffer_holds b s \<Longrightarrow> request_wf (r\<lparr>http_range := b\<rparr>)"
  by (auto simp: request_wf_def)

lemma request_wf_holds:
  assumes "request_wf r"
  obtains m u h g where "buffer_holds (http_method r) m" and "buffer_holds (request_url r) u"
    and "buffer_holds (hostname r) h" and "buffer_holds (http_range r) g"
  using assms by (auto simp: request_wf_def)

lemma length_takeWhile_drop_le: "length (takeWhile P (drop i s)) \<le> length s"
  using length_takeWhile_le [of P "drop i s"] by simp

text \<open>A field that holds at most the bytes it held before, or \<open>n\<close>.\<close>

definition field_within :: "nat \<Rightarrow> buffer \<Rightarrow> buffer \<Rightarrow> bool" where
  "field_within n b b' \<longleftrightarrow> unat (used_bytes b') \<le> max (unat (used_bytes b)) (Suc n)"

lemma field_within_refl [simp]: "field_within n b b"
  by (simp add: field_within_def)

lemma field_within_trans: "field_within n a b \<Longrightarrow> field_within n b c \<Longrightarrow> field_within n a c"
  by (auto simp: field_within_def)

lemma field_within_holds:
  assumes "field_within n b b'" and "used_bytes b = 0" and "buffer_holds b' s"
  shows "length s \<le> n"
proof (cases "used_bytes b' = 0")
  case True
  with buffer_holds_empty [OF assms(3)] show ?thesis by simp
next
  case False
  from buffer_holds_used [OF assms(3) this] assms(1,2) show ?thesis by (simp add: field_within_def)
qed

text \<open>One option line.\<close>

lemma http_request_option_ok [returns_rules]:
  assumes wf: "request_wf r" and tx: "text_buffer (request_content r) s"
    and small: "length s < buffer_max" and le: "key \<le> length s" "ob \<le> length s"
  shows "returns (http_request_option r key ob) (\<lambda>r'. request_wf r' \<and>
     request_content r' = request_content r \<and> http_method r' = http_method r \<and>
     request_url r' = request_url r \<and> http_version r' = http_version r \<and>
     field_within (length s) (hostname r) (hostname r') \<and> field_within (length s) (http_range r) (http_range r'))"
proof -
  obtain h g where hold: "buffer_holds (hostname r) h" "buffer_holds (http_range r) g"
    using wf by (auto elim: request_wf_holds)
  let ?v = "takeWhile (\<lambda>c. c \<noteq> NUL) (drop ob s)"
  have v: "length ?v < buffer_max" using length_takeWhile_drop_le [of "\<lambda>c. c \<noteq> NUL" ob s] small by linarith
  have copy: "returns (buffer_copy_string old (advance (ptr (request_content r)) ob)) (\<lambda>b. buffer_holds b ?v \<and> field_within (length s) old b)"
    if "buffer_holds old t" for old t
    using buffer_copy_string_holds [OF that text_buffer_points_to [OF tx le(2)] v]
    by (rule returns_mono) (use length_takeWhile_drop_le [of "\<lambda>c. c \<noteq> NUL" ob s] in \<open>simp add: field_within_def\<close>)
  show ?thesis
    using copy [OF hold(1)] copy [OF hold(2)] wf
    by (auto simp: http_request_option_def text_buffer_cstr [OF tx] le request_wf_update returns_iff)
qed

text \<open>The loop over the options.\<close>

definition options_keep :: "request \<Rightarrow> nat \<Rightarrow> request \<Rightarrow> bool" where
  "options_keep r n r' \<longleftrightarrow> request_wf r' \<and> http_method r' = http_method r \<and> request_url r' = request_url r \<and>
     http_version r' = http_version r \<and> (\<exists>s. text_buffer (request_content r') s \<and> length s = n) \<and>
     field_within n (hostname r) (hostname r') \<and> field_within n (http_range r) (http_range r')"

lemma options_keep_trans: "options_keep r n r' \<Longrightarrow> options_keep r' n r'' \<Longrightarrow> options_keep r n r''"
  by (auto simp: options_keep_def intro: field_within_trans)

text \<open>The stores at a CRLF and the option they end.\<close>

lemma option_line_keep:
  assumes wf: "request_wf r" and tx: "text_buffer (request_content r) s" and small: "length s < buffer_max"
    and i: "Suc i < length s" and le: "off \<le> i" "ob \<le> i"
  shows "returns (http_option_line r i off ob) (options_keep r (length s))"
proof -
  obtain b1 where b1: "poke (request_content r) i NUL = Inr b1" "text_buffer b1 (s[i := NUL])"
    using text_buffer_poke [OF tx, of i NUL] i by (auto simp: returns_iff)
  obtain b2 where b2: "poke b1 (Suc i) NUL = Inr b2" "text_buffer b2 (s[i := NUL, Suc i := NUL])"
    using text_buffer_poke [OF b1(2), of "Suc i" NUL] i by (auto simp: returns_iff)
  let ?r1 = "r\<lparr>request_content := b2\<rparr>"
  have wf1: "request_wf ?r1" using wf b2(2) by (auto intro: request_wf_update text_buffer_holds)
  have keep: "options_keep r (length s) ?r1"
    using wf1 b2(2) unfolding options_keep_def
    by (intro conjI exI [of _ "s[i := NUL, Suc i := NUL]"]) simp_all
  have "returns (http_request_option ?r1 off ob) (options_keep r (length s))"
    by (rule returns_mono [OF http_request_option_ok [OF wf1, of "s[i := NUL, Suc i := NUL]"]])
      (use b2 i le small in \<open>auto simp: options_keep_def\<close>)
  with b1 b2 keep show ?thesis by (simp add: http_option_line_def Let_def)
qed

lemma scan_options_ok [returns_rules]:
  assumes "request_wf r" and "text_buffer (request_content r) s" and "length s < buffer_max"
    and "i \<le> length s" and "off \<le> i" and "\<not> is_key \<longrightarrow> ob \<le> i"
  shows "returns (scan_options (length s) i is_key off ob r) (\<lambda>(ok, r'). options_keep r (length s) r')"
  using assms
proof (induction "length s - i" arbitrary: s i is_key off ob r rule: less_induct)
  case less
  note tx = less.prems(2)
  have refl: "options_keep r (length s) r" using less.prems by (auto simp: options_keep_def)
  have step: "returns (scan_options (length s) (i + 1) key off ob' r) (\<lambda>(ok, r'). options_keep r (length s) r')"
    if "i < length s" "\<not> key \<longrightarrow> ob' \<le> i + 1" for key ob'
    by (rule less.hyps) (use less.prems that in auto)
  have line: "returns (scan_options (length s) (i + 2) True (i + 2) ob r2) (\<lambda>(ok, r'). options_keep r (length s) r')"
    if "options_keep r (length s) r2" "Suc i < length s" for r2
  proof -
    from that(1) obtain s2 where s2: "text_buffer (request_content r2) s2" "length s2 = length s"
      by (auto simp: options_keep_def)
    have "returns (scan_options (length s2) (i + 2) True (i + 2) ob r2) (\<lambda>(ok, r'). options_keep r2 (length s2) r')"
      by (rule less.hyps) (use that s2 less.prems in \<open>auto simp: options_keep_def\<close>)
    then show ?thesis unfolding s2(2)
      by (rule returns_mono) (use that in \<open>auto intro: options_keep_trans\<close>)
  qed
  show ?case
  proof (cases "i < length s")
    case False
    then show ?thesis using refl by (simp add: scan_options.simps [of "length s" i])
  next
    case True
    have crlf: "returns (http_option_line r i off ob)
        (\<lambda>r2. returns (scan_options (length s) (i + 2) True (i + 2) ob r2) (\<lambda>(ok, r'). options_keep r (length s) r'))"
      if "Suc i < length s" "\<not> is_key"
      by (rule returns_mono [OF option_line_keep [OF less.prems(1) tx less.prems(3) that(1)]])
        (use that less.prems line in auto)
    show ?thesis
      using True refl step crlf less.prems(6)
      by (subst scan_options.simps) (auto simp: text_buffer_peek [OF tx] Let_def split: if_splits)
  qed
qed

text \<open>The parser changes only the request, the status and the keep-alive flag of its connection.\<close>

definition same_but_request :: "connection \<Rightarrow> connection \<Rightarrow> bool" where
  "same_but_request conn conn' \<longleftrightarrow>
     state conn' = state conn \<and> conn_socket_fd conn' = conn_socket_fd conn \<and>
     connection_index conn' = connection_index conn \<and> start_ts conn' = start_ts conn \<and>
     active_read_ts conn' = active_read_ts conn \<and> active_write_ts conn' = active_write_ts conn \<and>
     close_timeout_ts conn' = close_timeout_ts conn \<and> readable conn' = readable conn \<and>
     writeable conn' = writeable conn \<and>
     http_response_body_finished conn' = http_response_body_finished conn \<and>
     readqueue conn' = readqueue conn \<and> writequeue conn' = writequeue conn \<and>
     connection_response conn' = connection_response conn"

lemma same_but_request_refl [simp]: "same_but_request conn conn"
  by (simp add: same_but_request_def)

lemma same_but_request_update [simp]:
  "same_but_request c (c'\<lparr>connection_request := r\<rparr>) = same_but_request c c'"
  "same_but_request c (c'\<lparr>http_status := st\<rparr>) = same_but_request c c'"
  "same_but_request c (c'\<lparr>keep_alive := k\<rparr>) = same_but_request c c'"
  by (auto simp: same_but_request_def)

lemma same_but_request_trans:
  "same_but_request a b \<Longrightarrow> same_but_request b c \<Longrightarrow> same_but_request a c"
  by (simp add: same_but_request_def)

lemma same_but_request_refuse [simp]: "same_but_request c (refuse st c') = same_but_request c c'"
  by (simp add: refuse_def)

lemma refuse_simps [simp]:
  "http_status (refuse st c) = st" "\<not> keep_alive (refuse st c)"
  "connection_request (refuse st c) = connection_request c"
  by (simp_all add: refuse_def)

definition refused :: "connection \<Rightarrow> bool" where
  "refused conn \<longleftrightarrow> http_status conn \<in> {400, 501} \<and> \<not> keep_alive conn"

lemma refused_refuse [simp]: "refused (refuse 400 c)" "refused (refuse 501 c)"
  by (simp_all add: refused_def)

lemma http_check_version_ok:
  assumes "http_check_version config proto conn = (ok, conn')"
  shows "same_but_request conn conn'" and "\<not> ok \<Longrightarrow> refused conn'"
    and "ok \<Longrightarrow> http_version (connection_request conn') \<in> {HTTP_VERSION_1_0, HTTP_VERSION_1_1}"
    and "ok \<Longrightarrow> http_status conn' = http_status conn"
    and "connection_request conn' =
           (connection_request conn)\<lparr>http_version := http_version (connection_request conn')\<rparr>"
  using assms
  by (auto simp: http_check_version_def split: if_splits option.splits)

text \<open>What the request line leaves behind when the parser goes on to the options.\<close>

definition line_parsed :: "string \<Rightarrow> connection \<Rightarrow> connection \<Rightarrow> bool" where
  "line_parsed s conn conn' \<longleftrightarrow> http_status conn' = http_status conn \<and> CHR '' '' \<in> set s \<and>
     (let r = connection_request conn' in
        (buffer_holds (http_method r) ''GET'' \<or> buffer_holds (http_method r) ''POST'') \<and>
        text_buffer (request_url r) (request_target s) \<and> http_version r \<in> {HTTP_VERSION_1_0, HTTP_VERSION_1_1})"

lemma takeWhile_before: "i < length s \<Longrightarrow> \<not> P (s ! i) \<Longrightarrow> length (takeWhile P s) \<le> i"
  by (metis linorder_not_le nth_mem set_takeWhileD takeWhile_nth order.strict_trans2 not_le)

lemma store_before_ok:
  "text_buffer b s \<Longrightarrow> 0 < i \<Longrightarrow> i \<le> length s \<Longrightarrow>
   returns (store_before b i) (\<lambda>b'. text_buffer b' (s[i - 1 := NUL]))"
  by (simp add: store_before_def text_buffer_poke)

lemma method_lookup_ok:
  assumes tx: "text_buffer b s" and small: "length s < buffer_max" and first: "s \<noteq> []" "hd s \<noteq> NUL"
  shows "returns (andthen (buffer_append_string buffer_init (advance (ptr b) 0)) (\<lambda>mb.
           andthen (http_get_request_method mb) (\<lambda>key. Inr (mb, key))))
         (\<lambda>(mb, key). text_buffer mb (takeWhile (\<lambda>c. c \<noteq> NUL) s) \<and>
            key = http_method_lookup http_methods (takeWhile (\<lambda>c. c \<noteq> NUL) s))"
proof -
  let ?m = "takeWhile (\<lambda>c. c \<noteq> NUL) s"
  have "?m \<noteq> []" using first by (cases s) auto
  have "length ?m < buffer_max" using small length_takeWhile_le [of "\<lambda>c. c \<noteq> NUL" s] by linarith
  then obtain mb where mb: "buffer_append_string buffer_init (advance (ptr b) 0) = Inr mb" "buffer_holds mb ?m"
    using buffer_append_string_holds [OF buffer_init_holds text_buffer_points_to [OF tx, of 0]]
    by (auto simp: returns_iff)
  with \<open>?m \<noteq> []\<close> have "text_buffer mb ?m"
    using buffer_holds_empty by (auto simp: text_buffer_def)
  with mb text_buffer_cstr [OF this, of 0] show ?thesis
    by (simp add: http_get_request_method_def advance_def option.map_ident)
qed

lemma line_stores_ok:
  assumes "text_buffer b s" and "line_scan_ok s (Line_end m u p i)"
  obtains x b1 b2 b3 b4 s4 where "u = Some x" and "m = Some 0" and "1 \<le> x" and "x < p" and "p \<le> i"
    and "poke b i NUL = Inr b1" and "poke b1 (i + 1) NUL = Inr b2" and "store_before b2 x = Inr b3"
    and "store_before b3 p = Inr b4" and "text_buffer b4 s4"
    and "s4 = s[i := NUL, Suc i := NUL, x - 1 := NUL, p - 1 := NUL]"
proof -
  from assms(2) obtain x where x: "u = Some x" "m = Some 0" "1 \<le> x" "x < p" "p \<le> i" "Suc i < length s"
    by (auto simp: line_scan_ok_def)
  obtain b1 where b1: "poke b i NUL = Inr b1" "text_buffer b1 (s[i := NUL])"
    using text_buffer_poke [OF assms(1), of i NUL] x by (auto simp: returns_iff)
  obtain b2 where b2: "poke b1 (i + 1) NUL = Inr b2" "text_buffer b2 (s[i := NUL, Suc i := NUL])"
    using text_buffer_poke [OF b1(2), of "Suc i" NUL] x by (auto simp: returns_iff)
  obtain b3 where b3: "store_before b2 x = Inr b3" "text_buffer b3 (s[i := NUL, Suc i := NUL, x - 1 := NUL])"
    using store_before_ok [OF b2(2), of x] x by (auto simp: returns_iff)
  obtain b4 where b4: "store_before b3 p = Inr b4"
      "text_buffer b4 (s[i := NUL, Suc i := NUL, x - 1 := NUL, p - 1 := NUL])"
    using store_before_ok [OF b3(2), of p] x by (auto simp: returns_iff)
  show ?thesis by (rule that [OF x(1-5) b1(1) b2(1) b3(1) b4]) simp
qed

lemma hd_list_update: "i \<noteq> 0 \<Longrightarrow> hd (s[i := c]) = hd s"
  by (cases s; cases i) auto

lemma text_buffer_copy_string:
  assumes "buffer_holds old t" and "text_buffer b s" and "i \<le> length s" and "length s < buffer_max"
  shows "returns (buffer_copy_string old (advance (ptr b) i))
           (\<lambda>b'. text_buffer b' (takeWhile (\<lambda>c. c \<noteq> NUL) (drop i s)))"
proof -
  have "length (takeWhile (\<lambda>c. c \<noteq> NUL) (drop i s)) < buffer_max"
    using length_takeWhile_drop_le [of "\<lambda>c. c \<noteq> NUL" i s] assms(4) by linarith
  from buffer_copy_string_holds [OF assms(1) text_buffer_points_to [OF assms(2,3)] this]
  show ?thesis by (rule returns_mono) (auto simp: text_buffer_def)
qed

lemma text_buffer_copy_buffer:
  assumes "buffer_holds old t" and "text_buffer b s" and "length s < buffer_max"
  shows "returns (buffer_copy_buffer old b) (\<lambda>b'. text_buffer b' s)"
proof -
  have "ptr b \<noteq> None" using assms(2) by (auto simp: text_buffer_cells)
  from buffer_copy_buffer_holds [OF assms(1) text_buffer_holds [OF assms(2)] this assms(3)]
  show ?thesis by (rule returns_mono) (auto simp: text_buffer_def)
qed

lemma request_line_end_ok [returns_rules]:
  assumes wf: "request_wf (connection_request conn)"
    and tx: "text_buffer (request_content (connection_request conn)) s"
    and small: "length s < buffer_max" and first: "hd s \<notin> {CHR '' '', NUL}"
    and scan: "line_scan_ok s (Line_end m u p i)" and fields: "\<exists>x. u = Some x \<and> line_fields s x p"
  shows "returns (request_line_end config m u p i conn) (\<lambda>(ok, conn').
           same_but_request conn conn' \<and> request_wf (connection_request conn') \<and>
           (\<exists>s'. text_buffer (request_content (connection_request conn')) s' \<and> length s' = length s) \<and>
           hostname (connection_request conn') = hostname (connection_request conn) \<and>
           http_range (connection_request conn') = http_range (connection_request conn) \<and>
           (if ok then line_parsed s conn conn' else refused conn'))"
proof -
  obtain x b1 b2 b3 b4 s4 where st: "u = Some x" "m = Some 0" "1 \<le> x" "x < p" "p \<le> i"
      "poke (request_content (connection_request conn)) i NUL = Inr b1" "poke b1 (i + 1) NUL = Inr b2"
      "store_before b2 x = Inr b3" "store_before b3 p = Inr b4" and b4: "text_buffer b4 s4"
    and s4: "s4 = s[i := NUL, Suc i := NUL, x - 1 := NUL, p - 1 := NUL]"
    by (rule line_stores_ok [OF tx scan])
  have len: "length s4 = length s" "s \<noteq> []" "p \<le> length s"
    using scan by (auto simp: s4 line_scan_ok_def)
  have "s4 \<noteq> []" using len by auto
  have "x \<noteq> 1" using fields st(1) first hd_conv_nth [OF \<open>s \<noteq> []\<close>] by (auto simp: line_fields_def first_field_def)
  then have "hd s4 \<noteq> NUL" using st first by (simp add: s4 hd_list_update)
  let ?m = "takeWhile (\<lambda>c. c \<noteq> NUL) s4"
  obtain mb where mb: "buffer_append_string buffer_init (advance (ptr b4) 0) = Inr mb" "text_buffer mb ?m"
      "http_get_request_method mb = Inr (http_method_lookup http_methods ?m)"
    using method_lookup_ok [OF b4 _ \<open>s4 \<noteq> []\<close> \<open>hd s4 \<noteq> NUL\<close>] small len
    by (auto simp: returns_iff andthen_Inr_iff)
  let ?r = "(connection_request conn)\<lparr>request_content := b4\<rparr>"
  have wfr: "request_wf ?r" using wf b4 by (auto intro: request_wf_update text_buffer_holds)
  obtain m0 u0 where old: "buffer_holds (http_method ?r) m0" "buffer_holds (request_url ?r) u0"
    using wfr by (rule request_wf_holds)
  have "length ?m < buffer_max"
    using small len length_takeWhile_le [of "\<lambda>c. c \<noteq> NUL" s4] by linarith
  then obtain hm where hm: "buffer_copy_buffer (http_method ?r) mb = Inr hm" "text_buffer hm ?m"
    using text_buffer_copy_buffer [OF old(1) mb(2)] by (auto simp: returns_iff)
  have "takeWhile (\<lambda>c. c \<noteq> NUL) (drop x s4) = request_target s"
    unfolding s4 by (rule cut_field_target) (use fields scan st in \<open>auto simp: line_scan_ok_def\<close>)
  then obtain ru where ru: "buffer_copy_string (request_url ?r) (advance (ptr b4) x) = Inr ru"
      "text_buffer ru (request_target s)"
    using text_buffer_copy_string [OF old(2) b4, of x] st len small by (auto simp: returns_iff)
  let ?proto = "takeWhile (\<lambda>c. c \<noteq> NUL) (drop p s4)"
  have proto: "cstr (advance (ptr b4) p) = Inr ?proto" using text_buffer_cstr [OF b4] len by simp
  let ?r2 = "?r\<lparr>http_method := hm, request_url := ru\<rparr>"
  have wf2: "request_wf ?r2" using wfr hm ru by (auto intro: request_wf_update text_buffer_holds)
  have meth: "buffer_holds hm ''GET'' \<or> buffer_holds hm ''POST''"
    if "\<not> (http_method_lookup http_methods ?m \<noteq> HTTP_METHOD_GET \<and> http_method_lookup http_methods ?m \<noteq> HTTP_METHOD_POST)"
    using that hm(2) unfolding http_method_lookup_GET http_method_lookup_POST by (auto dest: text_buffer_holds)
  obtain ok conn' where cv: "http_check_version config ?proto (conn\<lparr>connection_request := ?r2\<rparr>) = (ok, conn')"
    by fastforce
  note cvs = http_check_version_ok [OF cv]
  have "connection_request conn' = ?r2\<lparr>http_version := http_version (connection_request conn')\<rparr>"
    using cvs(5) by simp
  then have req: "request_wf (connection_request conn')" "request_content (connection_request conn') = b4"
      "http_method (connection_request conn') = hm" "request_url (connection_request conn') = ru"
      "hostname (connection_request conn') = hostname (connection_request conn)"
      "http_range (connection_request conn') = http_range (connection_request conn)"
    using wf2 by (metis request_wf_contents(1), auto dest: arg_cong [where f = request_content]
        arg_cong [where f = http_method] arg_cong [where f = request_url] arg_cong [where f = hostname] arg_cong [where f = http_range])
  have same: "same_but_request conn conn'" using cvs(1) by (simp add: same_but_request_def)
  have "CHR '' '' \<in> set s" using fields by (auto simp: line_fields_def in_set_conv_nth intro!: exI [of _ "p - 1"])
  with ru(2) st mb hm(1) ru(1) proto cv cvs req same meth wfr b4 len(1) show ?thesis
    by (auto simp: request_line_end_def offset_of_def Let_def line_parsed_def)
qed

text \<open>A request line that starts with a space or a NUL has an empty method, and the buffer for it stays without memory.\<close>

lemma hd_update_NUL: "hd s = NUL \<Longrightarrow> s \<noteq> [] \<Longrightarrow> hd (s[i := NUL]) = NUL"
  by (cases s; cases i) auto

lemma request_line_end_empty_method:
  assumes tx: "text_buffer (request_content (connection_request conn)) s" and first: "hd s \<in> {CHR '' '', NUL}"
    and scan: "line_scan_ok s (Line_end m u p i)" and fields: "\<exists>x. u = Some x \<and> line_fields s x p"
  shows "request_line_end config m u p i conn = Inl NullDeref"
proof -
  obtain x b1 b2 b3 b4 s4 where st: "u = Some x" "m = Some 0" "1 \<le> x" "x < p" "p \<le> i"
      "poke (request_content (connection_request conn)) i NUL = Inr b1" "poke b1 (i + 1) NUL = Inr b2"
      "store_before b2 x = Inr b3" "store_before b3 p = Inr b4" and b4: "text_buffer b4 s4"
    and s4: "s4 = s[i := NUL, Suc i := NUL, x - 1 := NUL, p - 1 := NUL]"
    by (rule line_stores_ok [OF tx scan])
  have ne: "s \<noteq> []" using scan by (auto simp: line_scan_ok_def)
  have "hd (s[i := NUL, Suc i := NUL, x - 1 := NUL]) = NUL"
  proof (cases "hd s = NUL")
    case True
    then show ?thesis using ne by (simp add: hd_update_NUL)
  next
    case False
    then have "s ! 0 = CHR '' ''" using first hd_conv_nth [OF ne] by simp
    then have "x = 1" using fields st(1,3) unfolding line_fields_def first_field_def by (cases "x = 1") force+
    then show ?thesis using ne by (cases "s[i := NUL, Suc i := NUL]") auto
  qed
  then have "hd s4 = NUL" "s4 \<noteq> []" using ne unfolding s4 by (auto intro: hd_update_NUL)
  then have "takeWhile (\<lambda>c. c \<noteq> NUL) s4 = []" by (cases s4) auto
  with text_buffer_cstr [OF b4, of 0] have "cstr (advance (ptr b4) 0) = Inr []" by simp
  moreover from this have "advance (ptr b4) 0 \<noteq> None" by (cases "advance (ptr b4) 0") simp_all
  ultimately have "buffer_append_string buffer_init (advance (ptr b4) 0) = Inr buffer_init"
    by (simp add: buffer_append_string_def buffer_append_string_length_def)
  moreover have "http_get_request_method buffer_init = Inl NullDeref"
    by (simp add: http_get_request_method_def buffer_init_def)
  ultimately show ?thesis using st by (simp add: request_line_end_def offset_of_def)
qed

text \<open>The verdict: what a return value of 0 says of the connection.\<close>

definition accepted :: "string \<Rightarrow> connection \<Rightarrow> connection \<Rightarrow> bool" where
  "accepted s conn conn' \<longleftrightarrow> line_parsed s conn conn' \<and>
     (let r = connection_request conn' in
        if http_version r = HTTP_VERSION_1_1
        then used_bytes (hostname r) \<noteq> 0 \<and> (keep_alive conn' \<longleftrightarrow> req_keep_alive r \<noteq> HTTP_CONNECTION_CLOSE)
        else keep_alive conn' \<longleftrightarrow> req_keep_alive r = HTTP_CONNECTION_KEEP_ALIVE)"

definition verdict :: "string \<Rightarrow> connection \<Rightarrow> int \<times> connection \<Rightarrow> bool" where
  "verdict s conn res \<longleftrightarrow> (case res of (rc, conn') \<Rightarrow>
     same_but_request conn conn' \<and> request_wf (connection_request conn') \<and>
     field_within (length s) (hostname (connection_request conn)) (hostname (connection_request conn')) \<and>
     field_within (length s) (http_range (connection_request conn)) (http_range (connection_request conn')) \<and>
     (rc = 0 \<and> accepted s conn conn' \<or> rc = -1 \<and> refused conn'))"

lemma request_options_ok:
  assumes "request_wf (connection_request conn)" and "line_parsed s0 conn0 conn" and "same_but_request conn0 conn"
    and "text_buffer (request_content (connection_request conn)) s" and "length s < buffer_max"
    and "i \<le> length s" and len: "length s = length s0"
    and same: "hostname (connection_request conn) = hostname (connection_request conn0)"
      "http_range (connection_request conn) = http_range (connection_request conn0)"
  shows "returns (request_options (length s) i i conn) (verdict s0 conn0)"
proof -
  let ?r = "connection_request conn"
  have "\<not> buffer_is_empty (request_url ?r)"
    using assms(2) by (auto simp: line_parsed_def Let_def buffer_is_empty_def text_buffer_def word_neq_0_conv)
  moreover obtain ok r where "scan_options (length s) i True i 0 ?r = Inr (ok, r)"
      and "options_keep ?r (length s) r"
    using scan_options_ok [OF assms(1,4-6), of i True 0] by (auto simp: returns_iff)
  ultimately show ?thesis using assms(2,3) same len
    by (auto simp: request_options_def request_post_check_def Let_def verdict_def accepted_def
        line_parsed_def options_keep_def buffer_is_empty_def word_neq_0_conv)
qed

text \<open>Any content is accepted, refused, or has an empty method.\<close>

lemma http_reuqest_parse_total:
  assumes wf: "request_wf (connection_request conn)"
    and content: "buffer_holds (request_content (connection_request conn)) s" and small: "length s < buffer_max"
    and fresh: "buffer_is_empty (request_url (connection_request conn))"
  shows "case http_reuqest_parse config conn of
      Inl e \<Rightarrow> e = NullDeref \<and> s \<noteq> [] \<and> hd s \<in> {CHR '' '', NUL} | Inr r \<Rightarrow> verdict s conn r"
proof (cases "used_bytes (request_content (connection_request conn)) = 0")
  case True
  with fresh wf show ?thesis
    by (simp add: http_reuqest_parse_def buffer_string_length_def scan_request_line.simps
        request_options_def verdict_def)
next
  case False
  let ?b = "request_content (connection_request conn)"
  have tx: "text_buffer ?b s" using content False by (simp add: text_buffer_def)
  have len: "unat (buffer_string_length ?b) = length s" using tx by (rule text_buffer_length)
  obtain sc where sc: "scan_request_line ?b (length s) 0 0 0 None None = Inr sc" "line_scan_ok s sc"
    using scan_request_line_ok [OF tx, of 0 0 0 None None] by (auto simp: returns_iff scan_inv_def)
  show ?thesis
  proof (cases sc)
    case (Line_end m u p i)
    have i: "Suc i < length s" using sc(2) Line_end by (simp add: line_scan_ok_def)
    have fields: "\<exists>x. u = Some x \<and> line_fields s x p"
      using ensuresD [OF scan_request_line_fields_inv [OF tx, of 0 0 0 None None] sc(1)] Line_end
      by (simp add: fields_inv_def)
    show ?thesis
    proof (cases "hd s \<in> {CHR '' '', NUL}")
      case True
      from request_line_end_empty_method [OF tx True sc(2) [unfolded Line_end] fields] True i sc(1) Line_end len show ?thesis
        by (auto simp: http_reuqest_parse_def Let_def)
    next
      case False
      then obtain ok conn' s' where le: "request_line_end config m u p i conn = Inr (ok, conn')"
          "same_but_request conn conn'" "request_wf (connection_request conn')"
          "text_buffer (request_content (connection_request conn')) s'" "length s' = length s"
          "hostname (connection_request conn') = hostname (connection_request conn)"
          "http_range (connection_request conn') = http_range (connection_request conn)"
          "if ok then line_parsed s conn conn' else refused conn'"
        using request_line_end_ok [OF wf tx small _ sc(2) [unfolded Line_end] fields, of config] by (fastforce simp: returns_iff)
      have parse: "http_reuqest_parse config conn = (if ok then request_options (length s') (i + 2) (i + 2) conn' else Inr (-1, conn'))"
        using le sc Line_end len by (simp add: http_reuqest_parse_def Let_def)
      show ?thesis
      proof (cases ok)
        case True
        have "returns (request_options (length s') (i + 2) (i + 2) conn') (verdict s conn)"
          by (rule request_options_ok) (use le True i small in simp_all)
        with True show ?thesis unfolding parse by (auto simp: returns_iff)
      qed (use le parse in \<open>simp add: verdict_def\<close>)
    qed
  qed (use sc len fresh wf in \<open>simp_all add: http_reuqest_parse_def Let_def verdict_def request_options_def\<close>)
qed

lemma http_reuqest_parse_returns [returns_rules]:
  assumes "request_wf (connection_request conn)"
    and "buffer_holds (request_content (connection_request conn)) s" and "length s < buffer_max"
    and "s = [] \<or> hd s \<notin> {CHR '' '', NUL}"
    and "buffer_is_empty (request_url (connection_request conn))"
  shows "returns (http_reuqest_parse config conn) (verdict s conn)"
  using http_reuqest_parse_total [OF assms(1-3,5), of config] assms(4)
  by (cases "http_reuqest_parse config conn") auto

section \<open>A rendered request is parsed back\<close>

text \<open>The loop over the request line skips the bytes of a field and finds its end.\<close>

lemma scan_request_line_skip:
  assumes "text_buffer b (pre @ t @ post)" and "\<forall>c \<in> set t. c \<noteq> CHR '' '' \<and> c \<noteq> CR"
  shows "scan_request_line b (length (pre @ t @ post)) (length pre) st off m u =
         scan_request_line b (length (pre @ t @ post)) (length pre + length t) st off m u"
  using assms
proof (induction t arbitrary: pre)
  case (Cons c t)
  have eq: "pre @ (c # t) @ post = (pre @ [c]) @ t @ post" by simp
  have "scan_request_line b (length (pre @ (c # t) @ post)) (length pre) st off m u =
        scan_request_line b (length (pre @ (c # t) @ post)) (length pre + 1) st off m u"
    using Cons.prems
    by (subst scan_request_line.simps) (simp add: text_buffer_peek nth_append)
  also have "\<dots> = scan_request_line b (length (pre @ (c # t) @ post)) (length pre + 1 + length t) st off m u"
    using Cons.IH [of "pre @ [c]"] Cons.prems unfolding eq by simp
  finally show ?case by simp
qed simp

definition CRLF :: string where "CRLF = [CR, LF]"

definition plain_field :: "string \<Rightarrow> bool" where
  "plain_field t \<longleftrightarrow> (\<forall>c \<in> set t. c \<noteq> CHR '' '' \<and> c \<noteq> CR \<and> c \<noteq> NUL)"

definition request_line :: "string \<Rightarrow> string \<Rightarrow> string \<Rightarrow> string \<Rightarrow> string" where
  "request_line m u p rest = m @ [CHR '' ''] @ u @ [CHR '' ''] @ p @ CRLF @ rest"

lemma request_line_length: "length (request_line m u p rest) = length m + length u + length p + 4 + length rest"
  by (simp add: request_line_def CRLF_def)

lemma scan_request_line_fields:
  assumes tx: "text_buffer b (request_line m u p rest)"
    and fields: "plain_field m" "plain_field u" "plain_field p"
  shows "scan_request_line b (length (request_line m u p rest)) 0 0 0 None None =
    Inr (Line_end (Some 0) (Some (length m + 1)) (length m + length u + 2) (length m + length u + length p + 2))"
proof -
  let ?s = "request_line m u p rest" and ?n = "length (request_line m u p rest)"
  note peek = text_buffer_peek [OF tx]
  have skip: "scan_request_line b ?n (length pre) st off mm uu =
      scan_request_line b ?n (length pre + length t) st off mm uu"
    if "?s = pre @ t @ post" "plain_field t" for pre t post st off mm uu
    using scan_request_line_skip [of b pre t post st off mm uu] tx that by (simp add: plain_field_def)
  have nth: "?s ! length m = CHR '' ''" "?s ! (length m + 1 + length u) = CHR '' ''"
      "?s ! (length m + length u + 2 + length p) = CR" "?s ! (length m + length u + length p + 3) = LF"
    by (simp_all add: request_line_def CRLF_def nth_append nth_Cons')
  have "scan_request_line b ?n 0 0 0 None None = scan_request_line b ?n (length m) 0 0 None None"
    using skip [of "[]" m "[CHR '' ''] @ u @ [CHR '' ''] @ p @ CRLF @ rest"] fields(1)
    by (simp add: request_line_def)
  also have "\<dots> = scan_request_line b ?n (length m + 1) 1 (length m + 1) (Some 0) None"
    using nth(1) by (subst scan_request_line.simps) (simp add: peek request_line_length)
  also have "\<dots> = scan_request_line b ?n (length m + 1 + length u) 1 (length m + 1) (Some 0) None"
    using skip [of "m @ [CHR '' '']" u "[CHR '' ''] @ p @ CRLF @ rest"] fields(2)
    by (simp add: request_line_def)
  also have "\<dots> = scan_request_line b ?n (length m + length u + 2) 2 (length m + length u + 2) (Some 0) (Some (length m + 1))"
    using nth(2) by (subst scan_request_line.simps) (simp add: peek request_line_length)
  also have "\<dots> = scan_request_line b ?n (length m + length u + 2 + length p) 2 (length m + length u + 2) (Some 0) (Some (length m + 1))"
    using skip [of "m @ [CHR '' ''] @ u @ [CHR '' '']" p "CRLF @ rest"] fields(3) by (simp add: request_line_def)
  also have "\<dots> = Inr (Line_end (Some 0) (Some (length m + 1)) (length m + length u + 2) (length m + length u + length p + 2))"
    using nth(3,4) by (subst scan_request_line.simps) (simp add: peek request_line_length eval_nat_numeral)
  finally show ?thesis .
qed

text \<open>The stores at the end of the line cut it into NUL-terminated fields.\<close>

definition cut_line :: "string \<Rightarrow> string \<Rightarrow> string \<Rightarrow> string \<Rightarrow> string" where
  "cut_line m u p rest = m @ [NUL] @ u @ [NUL] @ p @ [NUL, NUL] @ rest"

lemma cut_line_stores:
  "(request_line m u p rest)[length m + length u + length p + 2 := NUL,
     Suc (length m + length u + length p + 2) := NUL,
     length m + 1 - 1 := NUL, length m + length u + 2 - 1 := NUL] = cut_line m u p rest"
  by (simp add: request_line_def cut_line_def CRLF_def list_update_append eval_nat_numeral)

lemma takeWhile_plain: "plain_field t \<Longrightarrow> takeWhile (\<lambda>c. c \<noteq> NUL) (t @ NUL # rest) = t"
  by (induction t) (auto simp: plain_field_def)

lemma cut_line_fields:
  assumes "plain_field m" and "plain_field u" and "plain_field p"
  shows "takeWhile (\<lambda>c. c \<noteq> NUL) (cut_line m u p rest) = m"
    and "takeWhile (\<lambda>c. c \<noteq> NUL) (drop (Suc (length m)) (cut_line m u p rest)) = u"
    and "takeWhile (\<lambda>c. c \<noteq> NUL) (drop (length m + length u + 2) (cut_line m u p rest)) = p"
  using assms by (simp_all add: cut_line_def takeWhile_plain)

lemma request_line_scan_ok:
  assumes "m \<noteq> []"
  shows "line_scan_ok (request_line m u p rest) (Line_end (Some 0) (Some (length m + 1)) (length m + length u + 2)
     (length m + length u + length p + 2))"
  using assms by (cases m) (auto simp: line_scan_ok_def request_line_length)

lemma request_line_end_fields:
  assumes wf: "request_wf (connection_request conn)"
    and tx: "text_buffer (request_content (connection_request conn)) (request_line m u p rest)"
    and small: "length (request_line m u p rest) < buffer_max"
    and meth: "m \<in> {''GET'', ''POST''}" and fields: "plain_field u" "plain_field p"
  shows "\<exists>b hm ru. text_buffer b (cut_line m u p rest) \<and> text_buffer hm m \<and> text_buffer ru u \<and>
    request_line_end config (Some 0) (Some (length m + 1)) (length m + length u + 2)
      (length m + length u + length p + 2) conn =
    Inr (http_check_version config p (conn\<lparr>connection_request :=
      (connection_request conn)\<lparr>request_content := b, http_method := hm, request_url := ru\<rparr>\<rparr>))"
proof -
  let ?s = "request_line m u p rest" and ?c = "cut_line m u p rest"
  have ne: "m \<noteq> []" and pm: "plain_field m" using meth by (auto simp: plain_field_def)
  obtain x b1 b2 b3 b4 s4 where x: "Some (length m + 1) = Some x" and st:
      "poke (request_content (connection_request conn)) (length m + length u + length p + 2) NUL = Inr b1"
      "poke b1 (length m + length u + length p + 2 + 1) NUL = Inr b2" "store_before b2 x = Inr b3"
      "store_before b3 (length m + length u + 2) = Inr b4" and b4': "text_buffer b4 s4"
      "s4 = ?s[length m + length u + length p + 2 := NUL, Suc (length m + length u + length p + 2) := NUL,
         x - 1 := NUL, length m + length u + 2 - 1 := NUL]"
    by (rule line_stores_ok [OF tx request_line_scan_ok [OF ne]])
  have xm: "x = length m + 1" using x by simp
  have b4: "text_buffer b4 ?c" using b4' unfolding xm cut_line_stores by simp
  note st = st [unfolded xm]
  have len: "length ?c = length ?s" by (simp add: request_line_length cut_line_def)
  have c: "?c \<noteq> []" "hd ?c \<noteq> NUL" using meth by (auto simp: cut_line_def)
  note cut = cut_line_fields [OF pm fields, of rest]
  obtain mb where mb: "buffer_append_string buffer_init (advance (ptr b4) 0) = Inr mb" "text_buffer mb m"
      "http_get_request_method mb = Inr (http_method_lookup http_methods m)"
    using method_lookup_ok [OF b4 _ c] small len cut(1) by (auto simp: returns_iff andthen_Inr_iff)
  let ?r = "(connection_request conn)\<lparr>request_content := b4\<rparr>"
  obtain m0 u0 where old: "buffer_holds (http_method ?r) m0" "buffer_holds (request_url ?r) u0"
    using wf by (auto elim: request_wf_holds)
  have "length m < buffer_max" using small by (simp add: request_line_length)
  then obtain hm where hm: "buffer_copy_buffer (http_method ?r) mb = Inr hm" "text_buffer hm m"
    using text_buffer_copy_buffer [OF old(1) mb(2)] by (auto simp: returns_iff)
  obtain ru where ru: "buffer_copy_string (request_url ?r) (advance (ptr b4) (length m + 1)) = Inr ru" "text_buffer ru u"
    using text_buffer_copy_string [OF old(2) b4, of "length m + 1"] small cut(2) len
    by (auto simp: returns_iff request_line_length)
  have proto: "cstr (advance (ptr b4) (length m + length u + 2)) = Inr p"
    using text_buffer_cstr [OF b4, of "length m + length u + 2"] cut(3) len by (simp add: request_line_length)
  have key: "\<not> (http_method_lookup http_methods m \<noteq> HTTP_METHOD_GET \<and> http_method_lookup http_methods m \<noteq> HTTP_METHOD_POST)"
    using meth unfolding http_method_lookup_GET http_method_lookup_POST by blast
  have "request_line_end config (Some 0) (Some (length m + 1)) (length m + length u + 2)
      (length m + length u + length p + 2) conn =
    Inr (http_check_version config p (conn\<lparr>connection_request := ?r\<lparr>http_method := hm, request_url := ru\<rparr>\<rparr>))"
    unfolding request_line_end_def offset_of_def Let_def option.case andthen.simps st mb(1,3) proto
      if_not_P [OF key] hm(1) ru(1) ..
  with b4 hm(2) ru(2) show ?thesis by simp blast
qed

text \<open>
  What the options mean. A name counts when its first bytes do, whatever follows them, and a value
  likewise; the first matching rule applies and later options overwrite earlier ones.
\<close>

definition begins_with :: "string \<Rightarrow> string \<Rightarrow> bool" where
  "begins_with name k \<longleftrightarrow> length name \<le> length k \<and> map tolower (take (length name) k) = map tolower name"

type_synonym option_values = "http_connection_t \<times> string option \<times> string option"

fun option_effect :: "option_values \<Rightarrow> string \<times> string \<Rightarrow> option_values" where
  "option_effect (ka, hst, rng) (k, v) =
     (if v = [] then (ka, hst, rng)
      else if begins_with ''Connecti'' k
      then (if begins_with ''keep-alive'' v then HTTP_CONNECTION_KEEP_ALIVE
            else if begins_with ''close'' v then HTTP_CONNECTION_CLOSE else ka, hst, rng)
      else if begins_with ''Host'' k then (ka, Some v, rng)
      else if begins_with ''Range'' k then (ka, hst, Some v)
      else (ka, hst, rng))"

lemma strncasecmp_eq_begins_with:
  "n = length name \<Longrightarrow> strncasecmp_eq n k name \<longleftrightarrow> begins_with name k"
proof (induction name arbitrary: k n)
  case (Cons c name)
  show ?case
    by (cases k) (use Cons in \<open>auto simp: begins_with_def\<close>)
qed (simp add: begins_with_def)

lemma strncasecmp_eq_take: "n \<le> length name \<Longrightarrow> strncasecmp_eq n k name = strncasecmp_eq n k (take n name)"
proof (induction n arbitrary: k name)
  case (Suc n)
  then obtain c cs where name: "name = c # cs" "n \<le> length cs" by (cases name) auto
  have "strncasecmp_eq n t cs = strncasecmp_eq n t (take n cs)" for t
    by (rule Suc.IH [OF name(2)])
  note eq = this
  show ?case unfolding name(1) using eq [of "tl k"] by (cases k) simp_all
qed simp

lemma strncasecmp_option_names:
  "strncasecmp_eq 8 k ''Connection'' = begins_with ''Connecti'' k"
  "strncasecmp_eq 10 k ''keep-alive'' = begins_with ''keep-alive'' k"
  "strncasecmp_eq 5 k ''close'' = begins_with ''close'' k"
  "strncasecmp_eq 4 k ''Host'' = begins_with ''Host'' k"
  "strncasecmp_eq 5 k ''Range'' = begins_with ''Range'' k"
proof -
  have "strncasecmp_eq 8 k ''Connection'' = strncasecmp_eq 8 k ''Connecti''"
    using strncasecmp_eq_take [of 8 "''Connection''" k] by simp
  then show "strncasecmp_eq 8 k ''Connection'' = begins_with ''Connecti'' k"
    by (simp only:) (rule strncasecmp_eq_begins_with, simp)
qed (rule strncasecmp_eq_begins_with, simp)+

text \<open>A colon is in none of the names, so the rest of the line after the name does not matter.\<close>

lemma begins_with_colon:
  assumes "CHR '':'' \<notin> set (map tolower name)"
  shows "begins_with name (k @ CHR '':'' # t) = begins_with name k"
  using assms
proof (induction name arbitrary: k)
  case (Cons c name)
  then show ?case by (cases k) (auto simp: begins_with_def tolower_def)
qed (simp add: begins_with_def)

definition render_option :: "string \<times> string \<Rightarrow> string" where
  "render_option kv = fst kv @ '': '' @ snd kv @ CRLF"

lemma length_render_option [simp]: "length (render_option (k, v)) = length k + length v + 4"
  by (simp add: render_option_def CRLF_def)

definition plain_option :: "string \<times> string \<Rightarrow> bool" where
  "plain_option kv \<longleftrightarrow> CHR '':'' \<notin> set (fst kv) \<and> NUL \<notin> set (fst kv) \<and> CR \<notin> set (snd kv) \<and>
     NUL \<notin> set (snd kv) \<and> (snd kv \<noteq> [] \<longrightarrow> hd (snd kv) \<notin> {CHR '' '', CHR 0x09})"

lemma scan_options_key:
  assumes "text_buffer (request_content r) (pre @ k @ CHR '':'' # post)" and "CHR '':'' \<notin> set k"
  shows "scan_options (length (pre @ k @ CHR '':'' # post)) (length pre) True off ob r =
    scan_options (length (pre @ k @ CHR '':'' # post)) (length pre + length k + 1) False off (length pre + length k + 1) r"
  using assms
proof (induction k arbitrary: pre)
  case Nil
  then show ?case by (subst scan_options.simps) (simp add: text_buffer_peek nth_append)
next
  case (Cons c k)
  have c: "c \<noteq> CHR '':''" using Cons.prems by auto
  have eq: "pre @ (c # k) @ CHR '':'' # post = (pre @ [c]) @ k @ CHR '':'' # post" by simp
  have "scan_options (length (pre @ (c # k) @ CHR '':'' # post)) (length pre) True off ob r =
        scan_options (length (pre @ (c # k) @ CHR '':'' # post)) (length pre + 1) True off ob r"
    using Cons.prems c by (subst scan_options.simps) (simp add: text_buffer_peek nth_append)
  also have "\<dots> = scan_options (length (pre @ (c # k) @ CHR '':'' # post)) (length pre + 1 + length k + 1) False off
        (length pre + 1 + length k + 1) r"
    using Cons.IH [of "pre @ [c]"] Cons.prems unfolding eq by simp
  finally show ?case by simp
qed

lemma scan_options_value:
  assumes "text_buffer (request_content r) (pre @ v @ post)" and "CR \<notin> set v" and "ob < length pre"
  shows "scan_options (length (pre @ v @ post)) (length pre) False off ob r =
    scan_options (length (pre @ v @ post)) (length pre + length v) False off ob r"
  using assms
proof (induction v arbitrary: pre)
  case (Cons c v)
  have c: "c \<noteq> CR" using Cons.prems by auto
  have eq: "pre @ (c # v) @ post = (pre @ [c]) @ v @ post" by simp
  have "scan_options (length (pre @ (c # v) @ post)) (length pre) False off ob r =
        scan_options (length (pre @ (c # v) @ post)) (length pre + 1) False off ob r"
    using Cons.prems c by (subst scan_options.simps) (simp add: text_buffer_peek nth_append)
  also have "\<dots> = scan_options (length (pre @ (c # v) @ post)) (length pre + 1 + length v) False off ob r"
    using Cons.IH [of "pre @ [c]"] Cons.prems unfolding eq by simp
  finally show ?case by simp
qed simp

lemma scan_options_line:
  assumes tx: "text_buffer (request_content r) (pre @ render_option (k, v) @ post)" and plain: "plain_option (k, v)"
  shows "scan_options (length (pre @ render_option (k, v) @ post)) (length pre) True (length pre) ob r =
    andthen (http_option_line r (length pre + length k + 2 + length v) (length pre) (length pre + length k + 2))
      (\<lambda>r2. scan_options (length (pre @ render_option (k, v) @ post)) (length (pre @ render_option (k, v))) True
              (length (pre @ render_option (k, v))) (length pre + length k + 2) r2)"
proof -
  let ?s = "pre @ render_option (k, v) @ post" and ?ob = "length pre + length k + 2"
  have s: "?s = pre @ k @ CHR '':'' # CHR '' '' # v @ CRLF @ post" by (simp add: render_option_def)
  have len: "length ?s = length pre + length k + 4 + length v + length post"
    by (simp add: render_option_def CRLF_def)
  have at: "?s ! (length pre + length k + 1) = CHR '' ''" "?s ! (?ob + length v) = CR" "?s ! (?ob + length v + 1) = LF"
    by (simp_all add: render_option_def CRLF_def nth_append nth_Cons')
  have "scan_options (length ?s) (length pre) True (length pre) ob r =
      scan_options (length ?s) (length pre + length k + 1) False (length pre) (length pre + length k + 1) r"
    using scan_options_key [of r pre k "CHR '' '' # v @ CRLF @ post"] tx plain unfolding s
    by (simp add: plain_option_def)
  also have "\<dots> = scan_options (length ?s) ?ob False (length pre) ?ob r"
    using at(1) by (subst scan_options.simps) (simp add: text_buffer_peek [OF tx] len)
  also have "\<dots> = scan_options (length ?s) (?ob + length v) False (length pre) ?ob r"
  proof (cases v)
    case (Cons c v')
    have c: "c \<noteq> CR" "c \<noteq> CHR '' ''" "c \<noteq> CHR 0x09" "CR \<notin> set v'"
      using plain Cons by (auto simp: plain_option_def)
    have "?s ! ?ob = c" using Cons by (simp add: render_option_def nth_append)
    then have "scan_options (length ?s) ?ob False (length pre) ?ob r = scan_options (length ?s) (?ob + 1) False (length pre) ?ob r"
      using c by (subst scan_options.simps) (simp add: text_buffer_peek [OF tx] len)
    also have "\<dots> = scan_options (length ?s) (?ob + 1 + length v') False (length pre) ?ob r"
      using scan_options_value [of r "pre @ k @ [CHR '':'', CHR '' '', c]" v' "CRLF @ post" ?ob "length pre"] tx c(4) Cons
      unfolding s by simp
    finally show ?thesis using Cons by simp
  qed simp
  also have "\<dots> = andthen (http_option_line r (?ob + length v) (length pre) ?ob)
      (\<lambda>r2. scan_options (length ?s) (?ob + length v + 2) True (?ob + length v + 2) ?ob r2)"
    using at(2,3) by (subst scan_options.simps) (simp add: text_buffer_peek [OF tx] len)
  also have "?ob + length v + 2 = length (pre @ render_option (k, v))" by simp
  finally show ?thesis .
qed

lemma scan_options_blank_end:
  assumes tx: "text_buffer (request_content r) (pre @ CRLF)"
  shows "scan_options (length (pre @ CRLF)) (length pre) True off ob r = Inr (True, r)"
proof -
  have "scan_options (length (pre @ CRLF)) (length pre) True off ob r =
      scan_options (length (pre @ CRLF)) (length pre + 1) True off ob r"
    by (subst scan_options.simps) (simp add: text_buffer_peek [OF tx] CRLF_def nth_append)
  also have "\<dots> = scan_options (length (pre @ CRLF)) (length pre + 2) True off ob r"
    by (subst scan_options.simps) (simp add: text_buffer_peek [OF tx] CRLF_def nth_append)
  also have "\<dots> = Inr (True, r)" by (subst scan_options.simps) (simp add: CRLF_def)
  finally show ?thesis .
qed

definition holds_field :: "buffer \<Rightarrow> string option \<Rightarrow> bool" where
  "holds_field b o1 \<longleftrightarrow> (case o1 of None \<Rightarrow> used_bytes b = 0 | Some s \<Rightarrow> text_buffer b s)"

lemma holds_field_simps [simp]:
  "holds_field b None \<longleftrightarrow> used_bytes b = 0" "holds_field b (Some s) \<longleftrightarrow> text_buffer b s"
  by (simp_all add: holds_field_def)

fun options_are :: "request \<Rightarrow> option_values \<Rightarrow> bool" where
  "options_are r (ka, h, g) \<longleftrightarrow>
     req_keep_alive r = ka \<and> holds_field (hostname r) h \<and> holds_field (http_range r) g"

lemma option_length_pos:
  "n < 2 ^ 32 \<Longrightarrow> (0 :: u32) < of_nat (m + n) - of_nat m \<longleftrightarrow> n \<noteq> 0"
  using unat_of_nat_u32 [of n] by (auto simp: u32_pos_iff)

lemma takeWhile_NUL_app: "NUL \<notin> set t \<Longrightarrow> takeWhile (\<lambda>c. c \<noteq> NUL) (t @ NUL # rest) = t"
  by (induction t) auto

lemma strncasecmp_option_line:
  "strncasecmp_eq 8 (k @ CHR '':'' # t) ''Connection'' = begins_with ''Connecti'' k"
  "strncasecmp_eq 4 (k @ CHR '':'' # t) ''Host'' = begins_with ''Host'' k"
  "strncasecmp_eq 5 (k @ CHR '':'' # t) ''Range'' = begins_with ''Range'' k"
  unfolding strncasecmp_option_names
  by (rule begins_with_colon, code_simp)+

lemma http_option_line_effect:
  assumes wf: "request_wf r" and tx: "text_buffer (request_content r) (pre @ render_option (k, v) @ post)"
    and small: "length (pre @ render_option (k, v) @ post) < buffer_max"
    and plain: "plain_option (k, v)" and ov: "options_are r ov"
  shows "returns (http_option_line r (length pre + length k + 2 + length v) (length pre) (length pre + length k + 2))
    (\<lambda>r'. options_are r' (option_effect ov (k, v)) \<and>
       text_buffer (request_content r') (pre @ k @ '': '' @ v @ [NUL, NUL] @ post))"
proof -
  let ?s = "pre @ render_option (k, v) @ post"
  define ob where "ob = length pre + length k + 2"
  let ?t = "pre @ k @ '': '' @ v @ [NUL, NUL] @ post"
  obtain ka h g where o1: "ov = (ka, h, g)" by (cases ov)
  obtain b1 where b1: "poke (request_content r) (ob + length v) NUL = Inr b1" "text_buffer b1 (?s[ob + length v := NUL])"
    using text_buffer_poke [OF tx, of "ob + length v" NUL] by (auto simp: returns_iff ob_def)
  obtain b2 where b2': "poke b1 (ob + length v + 1) NUL = Inr b2"
      "text_buffer b2 (?s[ob + length v := NUL, ob + length v + 1 := NUL])"
    using text_buffer_poke [OF b1(2), of "ob + length v + 1" NUL] by (auto simp: returns_iff ob_def)
  have "?s[ob + length v := NUL, ob + length v + 1 := NUL] = ?t"
    by (simp add: ob_def render_option_def CRLF_def list_update_append eval_nat_numeral)
  with b2' have b2: "text_buffer b2 ?t" by simp
  let ?r1 = "r\<lparr>request_content := b2\<rparr>"
  have nul: "NUL \<notin> set k" "NUL \<notin> set v" using plain by (auto simp: plain_option_def)
  have key: "cstr (advance (ptr b2) (length pre)) = Inr (k @ CHR '':'' # CHR '' '' # v)"
    using text_buffer_cstr [OF b2, of "length pre"] takeWhile_NUL_app [of "k @ CHR '':'' # CHR '' '' # v"] nul by simp
  have val: "cstr (advance (ptr b2) ob) = Inr v"
    using text_buffer_cstr [OF b2, of ob] takeWhile_NUL_app [of v] nul by (simp add: ob_def)
  have pos: "(0 :: u32) < of_nat (ob + length v) - of_nat ob \<longleftrightarrow> v \<noteq> []"
    using option_length_pos [of "length v" ob] small by simp
  have copy: "returns (buffer_copy_string old (advance (ptr b2) ob)) (\<lambda>b. text_buffer b v)"
    if "buffer_holds old x" for old x
    using text_buffer_copy_string [OF that b2, of ob] takeWhile_NUL_app [of v] nul small by (simp add: ob_def)
  obtain h0 g0 where "buffer_holds (hostname r) h0" "buffer_holds (http_range r) g0"
    using wf by (auto elim: request_wf_holds)
  from copy [OF this(1)] copy [OF this(2)] obtain hb gb where
      copies: "buffer_copy_string (hostname r) (advance (ptr b2) ob) = Inr hb" "text_buffer hb v"
        "buffer_copy_string (http_range r) (advance (ptr b2) ob) = Inr gb" "text_buffer gb v"
    by (auto simp: returns_iff)
  have opt: "returns (http_request_option ?r1 (length pre) ob)
      (\<lambda>r'. options_are r' (option_effect (ka, h, g) (k, v)) \<and> request_content r' = b2)" if "v \<noteq> []"
    unfolding http_request_option_def
    using that copies ov o1 b2
    by (simp add: key val strncasecmp_option_line strncasecmp_option_names(2,3))
  have none: "options_are ?r1 (ka, h, g)" using ov o1 by simp
  have "returns (if 0 < (of_nat (ob + length v) - of_nat ob :: u32) then http_request_option ?r1 (length pre) ob else Inr ?r1)
      (\<lambda>r'. options_are r' (option_effect (ka, h, g) (k, v)) \<and> request_content r' = b2)"
    unfolding pos using opt none by (cases "v = []") simp_all
  then have "returns (http_option_line r (ob + length v) (length pre) ob)
      (\<lambda>r'. options_are r' (option_effect (ka, h, g) (k, v)) \<and> request_content r' = b2)"
    unfolding http_option_line_def Let_def b1(1) andthen.simps b2'(1) .
  then show ?thesis unfolding o1 ob_def by (rule returns_mono) (use b2 in simp)
qed

lemma scan_options_rendered:
  assumes "request_wf r" and "text_buffer (request_content r) (pre @ concat (map render_option opts) @ CRLF)"
    and "length (pre @ concat (map render_option opts) @ CRLF) < buffer_max"
    and "list_all plain_option opts" and "options_are r ov"
  shows "returns (scan_options (length (pre @ concat (map render_option opts) @ CRLF)) (length pre) True (length pre) ob r)
    (\<lambda>(ok, r'). ok \<and> options_keep r (length (pre @ concat (map render_option opts) @ CRLF)) r' \<and>
       options_are r' (foldl option_effect ov opts))"
  using assms
proof (induction opts arbitrary: pre r ov ob)
  case Nil
  then have "options_keep r (length (pre @ CRLF)) r" by (auto simp: options_keep_def)
  with Nil scan_options_blank_end [of r pre "length pre" ob] show ?case by simp
next
  case (Cons kv opts)
  obtain k v where kv: "kv = (k, v)" by (cases kv)
  let ?post = "concat (map render_option opts) @ CRLF"
  let ?n = "length (pre @ render_option (k, v) @ ?post)" and ?ob = "length pre + length k + 2"
  let ?pre = "pre @ k @ '': '' @ v @ [NUL, NUL]"
  have tx: "text_buffer (request_content r) (pre @ render_option (k, v) @ ?post)"
    and small: "?n < buffer_max" and plain: "plain_option (k, v)"
    using Cons.prems kv by simp_all
  have len: "?n = length (?pre @ ?post)" "length (pre @ render_option (k, v)) = length ?pre" by simp_all
  obtain r2 where r2: "http_option_line r (?ob + length v) (length pre) ?ob = Inr r2"
      "options_are r2 (option_effect ov (k, v))" "text_buffer (request_content r2) (?pre @ ?post)"
      "options_keep r ?n r2"
    using returns_conj [OF http_option_line_effect [OF Cons.prems(1) tx small plain Cons.prems(5)]
        option_line_keep [OF Cons.prems(1) tx small, of "?ob + length v" "length pre" ?ob]]
    by (auto simp: returns_iff)
  note keep = r2(4) [unfolded len(1)]
  have wf2: "request_wf r2" using r2(4) by (simp add: options_keep_def)
  have ih: "returns (scan_options (length (?pre @ ?post)) (length ?pre) True (length ?pre) ?ob r2)
      (\<lambda>(ok, r'). ok \<and> options_keep r2 (length (?pre @ ?post)) r' \<and>
         options_are r' (foldl option_effect (option_effect ov (k, v)) opts))"
    by (rule Cons.IH) (use wf2 r2 small Cons.prems(4) len in simp_all)
  have "returns (scan_options ?n (length pre) True (length pre) ob r)
      (\<lambda>(ok, r'). ok \<and> options_keep r ?n r' \<and> options_are r' (foldl option_effect (option_effect ov (k, v)) opts))"
    unfolding scan_options_line [OF tx plain] r2(1) andthen.simps unfolding len
    by (rule returns_mono [OF ih]) (use options_keep_trans [OF keep] in auto)
  then show ?case by (simp add: kv)
qed

definition version_text :: "http_version_t \<Rightarrow> string" where
  "version_text v = (if v = HTTP_VERSION_1_1 then ''HTTP/1.1'' else ''HTTP/1.0'')"

definition render_request :: "string \<Rightarrow> string \<Rightarrow> http_version_t \<Rightarrow> (string \<times> string) list \<Rightarrow> string" where
  "render_request m u v opts =
     request_line m u (version_text v) (concat (map render_option opts) @ CRLF)"

lemma http_version_numbers_1_x:
  "http_version_numbers ''1.1'' = Some (1, 1)" "http_version_numbers ''1.0'' = Some (1, 0)"
  by code_simp+

lemma strncmp_eq_HTTP: "strncmp_eq 5 (''HTTP/'' @ t) ''HTTP/''"
  by (simp add: numeral_eq_Suc)

lemma version_text_parts:
  "strncmp_eq 5 (version_text v) ''HTTP/''"
  "drop 5 (version_text v) = (if v = HTTP_VERSION_1_1 then ''1.1'' else ''1.0'')"
  using strncmp_eq_HTTP [of "''1.1''"] strncmp_eq_HTTP [of "''1.0''"] by (simp_all add: version_text_def)

lemma http_check_version_text:
  assumes "v \<in> {HTTP_VERSION_1_0, HTTP_VERSION_1_1}" and "support_http_1_1 config \<noteq> 0"
  shows "http_check_version config (version_text v) conn =
    (True, conn\<lparr>connection_request := (connection_request conn)\<lparr>http_version := v\<rparr>\<rparr>)"
  using assms by (auto simp: http_check_version_def version_text_parts http_version_numbers_1_x)

text \<open>A request no parser has touched since it was reset.\<close>

definition fresh_request :: "request \<Rightarrow> bool" where
  "fresh_request r \<longleftrightarrow> request_wf r \<and> req_keep_alive r = HTTP_CONNECTION_UNSET \<and>
     used_bytes (request_url r) = 0 \<and> used_bytes (hostname r) = 0 \<and> used_bytes (http_range r) = 0"

lemma fresh_request_initialize: "fresh_request request_initialize"
  using request_wf_initialize by (simp add: fresh_request_def request_initialize_def buffer_init_def)

lemma fresh_request_reset: "fresh_request (request_reset r)"
  using request_wf_reset [of r] by (simp add: fresh_request_def request_reset_def buffer_reset_def)

text \<open>What the connection is after a rendered request.\<close>

definition parsed_as :: "string \<Rightarrow> string \<Rightarrow> http_version_t \<Rightarrow> option_values \<Rightarrow> int \<Rightarrow> connection \<Rightarrow> bool" where
  "parsed_as m u v ov rc conn \<longleftrightarrow> (let r = connection_request conn; (ka, h, g) = ov in
     text_buffer (http_method r) m \<and> text_buffer (request_url r) u \<and> http_version r = v \<and>
     options_are r ov \<and>
     (if v = HTTP_VERSION_1_1 \<and> h = None
      then rc = -1 \<and> http_status conn = 400 \<and> \<not> keep_alive conn
      else rc = 0 \<and> (keep_alive conn \<longleftrightarrow>
        (if v = HTTP_VERSION_1_1 then ka \<noteq> HTTP_CONNECTION_CLOSE else ka = HTTP_CONNECTION_KEEP_ALIVE))))"

lemma request_options_rendered:
  assumes r: "connection_request conn = r" and wf: "request_wf r"
    and tx: "text_buffer (request_content r) (pre @ concat (map render_option opts) @ CRLF)"
    and small: "length (pre @ concat (map render_option opts) @ CRLF) < buffer_max"
    and opts: "list_all plain_option opts" and ov: "options_are r ov"
    and fields: "text_buffer (http_method r) m" "text_buffer (request_url r) u" "http_version r = v"
  shows "returns (request_options (length (pre @ concat (map render_option opts) @ CRLF)) (length pre) (length pre) conn)
    (\<lambda>(rc, conn'). parsed_as m u v (foldl option_effect ov opts) rc conn')"
proof -
  obtain r' where r': "scan_options (length (pre @ concat (map render_option opts) @ CRLF)) (length pre) True (length pre) 0 r
        = Inr (True, r')" "options_keep r (length (pre @ concat (map render_option opts) @ CRLF)) r'"
      "options_are r' (foldl option_effect ov opts)"
    using scan_options_rendered [OF wf tx small opts ov, of 0] by (auto simp: returns_iff)
  have same: "http_method r' = http_method r" "request_url r' = request_url r" "http_version r' = v"
    using r'(2) fields(3) by (simp_all add: options_keep_def)
  have url: "\<not> buffer_is_empty (request_url r)"
    using fields(2) by (simp add: buffer_is_empty_def text_buffer_def word_neq_0_conv)
  obtain ka h g where o1: "foldl option_effect ov opts = (ka, h, g)" by (cases "foldl option_effect ov opts")
  have host: "buffer_is_empty (hostname r') \<longleftrightarrow> h = None"
    using r'(3) o1 by (cases h) (auto simp: buffer_is_empty_def text_buffer_def word_neq_0_conv)
  show ?thesis
    unfolding request_options_def r if_not_P [OF url] r'(1)
    using same fields r'(3) o1 host by (auto simp: request_post_check_def Let_def parsed_as_def refuse_def)
qed

lemma http_reuqest_parse_line:
  assumes wf: "request_wf (connection_request conn)"
    and tx: "text_buffer (request_content (connection_request conn)) (request_line m u (version_text v) rest)"
    and small: "length (request_line m u (version_text v) rest) < buffer_max"
    and meth: "m \<in> {''GET'', ''POST''}" and u: "plain_field u"
    and v: "v \<in> {HTTP_VERSION_1_0, HTTP_VERSION_1_1}" and config: "support_http_1_1 config \<noteq> 0"
  shows "\<exists>b hm ru. text_buffer b (cut_line m u (version_text v) rest) \<and> text_buffer hm m \<and> text_buffer ru u \<and>
    http_reuqest_parse config conn =
      request_options (length (cut_line m u (version_text v) rest)) (length m + length u + length (version_text v) + 4)
        (length m + length u + length (version_text v) + 4)
        (conn\<lparr>connection_request := (connection_request conn)
           \<lparr>request_content := b, http_method := hm, request_url := ru, http_version := v\<rparr>\<rparr>)"
proof -
  let ?p = "version_text v"
  have pm: "plain_field m" "plain_field ?p"
    using meth by (auto simp: plain_field_def version_text_def)
  obtain b hm ru where b: "text_buffer b (cut_line m u ?p rest)" "text_buffer hm m" "text_buffer ru u"
      "request_line_end config (Some 0) (Some (length m + 1)) (length m + length u + 2)
        (length m + length u + length ?p + 2) conn =
       Inr (http_check_version config ?p (conn\<lparr>connection_request :=
         (connection_request conn)\<lparr>request_content := b, http_method := hm, request_url := ru\<rparr>\<rparr>))"
    using request_line_end_fields [OF wf tx small meth u pm(2), of config] by blast
  have len: "unat (buffer_string_length (request_content (connection_request conn))) = length (request_line m u ?p rest)"
    using tx by (rule text_buffer_length)
  have cut: "length (cut_line m u ?p rest) = length (request_line m u ?p rest)"
    by (simp add: cut_line_def request_line_length)
  show ?thesis
    by (rule exI [of _ b], rule exI [of _ hm], rule exI [of _ ru])
      (simp add: b(1-3) http_reuqest_parse_def Let_def len cut scan_request_line_fields [OF tx pm(1) u pm(2)]
         b(4) [simplified] http_check_version_text [OF v config] eval_nat_numeral)
qed

lemma parse_rendered_returns:
  assumes "fresh_request (connection_request conn)"
    and "text_buffer (request_content (connection_request conn)) (render_request m u v opts)"
    and "length (render_request m u v opts) < buffer_max"
    and "m \<in> {''GET'', ''POST''}" and "plain_field u" and "v \<in> {HTTP_VERSION_1_0, HTTP_VERSION_1_1}"
    and "list_all plain_option opts" and "support_http_1_1 config \<noteq> 0"
  shows "returns (http_reuqest_parse config conn)
     (\<lambda>(rc, conn'). parsed_as m u v (foldl option_effect (HTTP_CONNECTION_UNSET, None, None) opts) rc conn')"
proof -
  have wf: "request_wf (connection_request conn)" using assms(1) by (simp add: fresh_request_def)
  let ?rest = "concat (map render_option opts) @ CRLF"
  obtain b hm ru where b: "text_buffer b (cut_line m u (version_text v) ?rest)" "text_buffer hm m" "text_buffer ru u"
    and eq: "http_reuqest_parse config conn =
      request_options (length (cut_line m u (version_text v) ?rest)) (length m + length u + length (version_text v) + 4)
        (length m + length u + length (version_text v) + 4)
        (conn\<lparr>connection_request := (connection_request conn)
           \<lparr>request_content := b, http_method := hm, request_url := ru, http_version := v\<rparr>\<rparr>)"
    using http_reuqest_parse_line [OF wf _ _ assms(4,5,6,8), of ?rest] assms(2,3)
    unfolding render_request_def by blast
  let ?pre = "m @ [NUL] @ u @ [NUL] @ version_text v @ [NUL, NUL]"
  have cut: "cut_line m u (version_text v) ?rest = ?pre @ ?rest"
    "length m + length u + length (version_text v) + 4 = length ?pre"
    by (simp_all add: cut_line_def)
  have len: "length (?pre @ ?rest) < buffer_max"
    using assms(3) by (simp add: render_request_def request_line_length)
  show ?thesis
    unfolding eq cut
    by (rule request_options_rendered [OF refl _ _ len assms(7)])
      (use b wf assms(1) cut in \<open>simp_all add: fresh_request_def request_wf_update [OF _ text_buffer_holds]\<close>)
qed

text \<open>
  C9: A request the client renders as \<open>METHOD SP url SP HTTP/1.x CRLF\<close>, its options \<open>name: value CRLF\<close>
  and a blank line is parsed back: method GET or POST, any URL without blanks, the version, and the
  values of the Connection, Host and Range options as \<open>option_effect\<close> reads them from left to right.
  The parser answers 0 with the keep-alive flag of RFC 7230, or refuses with 400 exactly when an
  HTTP/1.1 request names no host.
\<close>

theorem http_reuqest_parse_rendered:
  assumes "fresh_request (connection_request conn)"
    and "text_buffer (request_content (connection_request conn)) (render_request m u v opts)"
    and "length (render_request m u v opts) < buffer_max"
    and "m \<in> {''GET'', ''POST''}" and "plain_field u" and "v \<in> {HTTP_VERSION_1_0, HTTP_VERSION_1_1}"
    and "list_all plain_option opts" and "support_http_1_1 config \<noteq> 0"
  shows "\<exists>rc conn'. http_reuqest_parse config conn = Inr (rc, conn') \<and>
    parsed_as m u v (foldl option_effect (HTTP_CONNECTION_UNSET, None, None) opts) rc conn'"
  using parse_rendered_returns [OF assms] by (auto simp: returns_iff)

definition sample_connection :: "string \<Rightarrow> connection" where
  "sample_connection s =
     \<lparr>connection_index = 0, state = CON_STATE_REQUEST_END, conn_socket_fd = 7, start_ts = 0, active_read_ts = 0,
      active_write_ts = 0, close_timeout_ts = 0, readable = True, writeable = False, keep_alive = False,
      http_status = 0, http_response_body_finished = False, readqueue = chunkqueue_init,
      writequeue = chunkqueue_init,
      connection_request = request_initialize\<lparr>request_content :=
        \<lparr>ptr = lit s, used_bytes = of_nat (Suc (length s)), buf_size = of_nat (Suc (length s))\<rparr>\<rparr>,
      connection_response = response_initialize\<rparr>"

lemma sample_connection_text:
  "Suc (length s) < 2 ^ 32 \<Longrightarrow> text_buffer (request_content (connection_request (sample_connection s))) s"
  using unat_of_nat_u32 [of "Suc (length s)"]
  by (auto simp: text_buffer_cells sample_connection_def lit_def unat_eq_0_iff simp del: of_nat_Suc)

lemma sample_connection_fresh: "Suc (length s) < 2 ^ 32 \<Longrightarrow> fresh_request (connection_request (sample_connection s))"
  using fresh_request_initialize sample_connection_text [of s]
  by (auto simp: fresh_request_def sample_connection_def intro: request_wf_update text_buffer_holds)

theorem http_reuqest_parse_rendered_witness:
  "\<exists>rc conn'. http_reuqest_parse (server_config_init\<lparr>support_http_1_1 := 1\<rparr>)
       (sample_connection (render_request ''GET'' ''/a'' HTTP_VERSION_1_1 [(''Host'', ''me'')])) = Inr (rc, conn') \<and>
     parsed_as ''GET'' ''/a'' HTTP_VERSION_1_1
       (foldl option_effect (HTTP_CONNECTION_UNSET, None, None) [(''Host'', ''me'')]) rc conn'"
proof -
  have len: "length (render_request ''GET'' ''/a'' HTTP_VERSION_1_1 [(''Host'', ''me'')]) < 100" by code_simp
  have opt: "list_all plain_option [(''Host'', ''me'')]" "plain_field ''/a''"
    by (simp_all add: plain_option_def plain_field_def)
  show ?thesis
    by (rule http_reuqest_parse_rendered)
      (use len opt in \<open>simp_all add: sample_connection_text sample_connection_fresh\<close>)
qed

text \<open>
  C13: Whatever bytes a client sends, the parser does not leave its buffers or read unwritten memory. Unless the first byte is a
  space or a NUL, which leaves the method empty and can end in a null pointer (see the property on the empty method), it
  returns. It then has touched only the request, the status and the keep-alive flag, and either accepts (0: GET or POST, the
  text between the first two spaces as the URL, version 1.0 or 1.1, a host with 1.1, the status unchanged) or refuses (-1:
  status 400 or 501, keep-alive off).
\<close>

theorem http_reuqest_parse_verdict:
  assumes "request_wf (connection_request conn)"
    and "buffer_holds (request_content (connection_request conn)) s" and "length s < buffer_max"
    and "buffer_is_empty (request_url (connection_request conn))"
  shows "case http_reuqest_parse config conn of
      Inl e \<Rightarrow> e = NullDeref \<and> s \<noteq> [] \<and> hd s \<in> {CHR '' '', NUL}
    | Inr (rc, conn') \<Rightarrow> same_but_request conn conn' \<and> request_wf (connection_request conn') \<and>
        (rc = 0 \<and> accepted s conn conn' \<or> rc = -1 \<and> refused conn')"
  using http_reuqest_parse_total [OF assms, of config] by (auto simp: verdict_def split: sum.splits)

theorem http_reuqest_parse_verdict_witness:
  "\<exists>rc conn'. http_reuqest_parse server_config_init (sample_connection (''PUT / x'' @ CRLF)) = Inr (rc, conn') \<and>
    same_but_request (sample_connection (''PUT / x'' @ CRLF)) conn' \<and> request_wf (connection_request conn') \<and>
    (rc = 0 \<and> accepted (''PUT / x'' @ CRLF) (sample_connection (''PUT / x'' @ CRLF)) conn' \<or> rc = -1 \<and> refused conn')"
proof -
  let ?c = "sample_connection (''PUT / x'' @ CRLF)"
  have small: "Suc (length (''PUT / x'' @ CRLF)) < 2 ^ 32" "length (''PUT / x'' @ CRLF) < buffer_max" by (simp_all add: CRLF_def)
  note f = sample_connection_fresh [OF small(1)]
  have asks: "request_wf (connection_request ?c)" "buffer_holds (request_content (connection_request ?c)) (''PUT / x'' @ CRLF)"
      "buffer_is_empty (request_url (connection_request ?c))"
    using f text_buffer_holds [OF sample_connection_text [OF small(1)]] by (simp_all add: fresh_request_def buffer_is_empty_def)
  from http_reuqest_parse_verdict [OF asks(1,2) small(2) asks(3), of server_config_init] show ?thesis
    by (auto split: sum.splits)
qed

text \<open>
  C38: A request line that starts with a space has an empty method; the buffer it is copied to is never
  allocated, and the comparison with the method names reads through a null pointer.
\<close>

theorem http_reuqest_parse_empty_method:
  assumes "text_buffer (request_content (connection_request conn)) (request_line [] u p rest)"
    and "plain_field u" and "plain_field p"
  shows "http_reuqest_parse config conn = Inl NullDeref"
proof -
  let ?b = "request_content (connection_request conn)" and ?s = "request_line [] u p rest"
  have len: "unat (buffer_string_length ?b) = length ?s" using assms(1) by (rule text_buffer_length)
  have scan: "scan_request_line ?b (length ?s) 0 0 0 None None =
      Inr (Line_end (Some 0) (Some 1) (length u + 2) (length u + length p + 2))"
    using scan_request_line_fields [OF assms(1) _ assms(2,3)] by (simp add: plain_field_def)
  define i where "i = length u + length p + 2"
  define q where "q = length u + 2"
  have iq: "Suc i < length ?s" "q \<le> i" by (simp_all add: i_def q_def request_line_length)
  obtain b1 where b1: "poke ?b i NUL = Inr b1" "text_buffer b1 (?s[i := NUL])"
    using text_buffer_poke [OF assms(1), of i NUL] iq by (auto simp: returns_iff)
  obtain b2 where b2: "poke b1 (i + 1) NUL = Inr b2" "text_buffer b2 (?s[i := NUL, i + 1 := NUL])"
    using text_buffer_poke [OF b1(2), of "i + 1" NUL] iq by (auto simp: returns_iff)
  obtain b3 where b3: "store_before b2 1 = Inr b3" "text_buffer b3 (?s[i := NUL, i + 1 := NUL, 0 := NUL])"
    using store_before_ok [OF b2(2), of 1] iq by (auto simp: returns_iff)
  obtain b4 where b4: "store_before b3 q = Inr b4" "text_buffer b4 (?s[i := NUL, i + 1 := NUL, 0 := NUL, q - 1 := NUL])"
    using store_before_ok [OF b3(2), of q] iq by (auto simp: returns_iff q_def)
  have hd0: "hd (t[0 := NUL]) = NUL" if "t \<noteq> []" for t :: string using that by (cases t) auto
  have "hd (?s[i := NUL, i + 1 := NUL, 0 := NUL, q - 1 := NUL]) = NUL"
    by (subst hd_list_update, simp add: q_def, rule hd0)
      (metis Suc_neq_Zero iq(1) length_0_conv length_list_update less_nat_zero_code)
  then have "takeWhile (\<lambda>c. c \<noteq> NUL) (?s[i := NUL, i + 1 := NUL, 0 := NUL, q - 1 := NUL]) = []"
    by (cases "?s[i := NUL, i + 1 := NUL, 0 := NUL, q - 1 := NUL]") auto
  with text_buffer_cstr [OF b4(2), of 0] have "cstr (advance (ptr b4) 0) = Inr []" by simp
  moreover from this have "advance (ptr b4) 0 \<noteq> None" by (cases "advance (ptr b4) 0") simp_all
  ultimately have "buffer_append_string buffer_init (advance (ptr b4) 0) = Inr buffer_init"
    by (simp add: buffer_append_string_def buffer_append_string_length_def)
  moreover have "http_get_request_method buffer_init = Inl NullDeref"
    by (simp add: http_get_request_method_def buffer_init_def)
  ultimately have "request_line_end config (Some 0) (Some 1) q i conn = Inl NullDeref"
    using b1(1) b2(1) b3(1) b4(1) by (simp add: request_line_end_def offset_of_def)
  then show ?thesis
    by (simp add: http_reuqest_parse_def Let_def len scan i_def q_def)
qed

theorem http_reuqest_parse_empty_method_witness:
  "http_reuqest_parse server_config_init (sample_connection (request_line [] ''/'' ''x'' [])) = Inl NullDeref"
proof (rule http_reuqest_parse_empty_method)
  show "text_buffer (request_content (connection_request (sample_connection (request_line [] ''/'' ''x'' []))))
      (request_line [] ''/'' ''x'' [])"
    by (rule sample_connection_text) (simp add: request_line_def CRLF_def)
qed (simp_all add: plain_field_def)

section \<open>The log entry of a parsed request\<close>

text \<open>One \<open>label:value\<close> line; an empty buffer is logged as \<open>unset\<close>.\<close>

definition log_field :: "string \<Rightarrow> buffer \<Rightarrow> buffer \<Rightarrow> fault + buffer" where
  "log_field label f b =
     andthen (buffer_append_string b (lit label)) (\<lambda>b1.
     andthen (if \<not> buffer_is_empty f then buffer_append_string_length b1 (ptr f) (used_bytes f - 1)
              else buffer_append_string b1 (lit ''unset'')) (\<lambda>b2.
     buffer_append_string b2 (lit [LF])))"

definition log_word :: "string \<Rightarrow> string \<Rightarrow> buffer \<Rightarrow> fault + buffer" where
  "log_word label w b =
     andthen (buffer_append_string b (lit label)) (\<lambda>b1.
     andthen (buffer_append_string b1 (lit w)) (\<lambda>b2.
     buffer_append_string b2 (lit [LF])))"

definition http_version_word :: "http_version_t \<Rightarrow> string" where
  "http_version_word v = (if v = HTTP_VERSION_1_1 then ''HTTP/1.1''
     else if v = HTTP_VERSION_1_0 then ''HTTP/1.0'' else ''unset'')"

definition keep_alive_word :: "http_connection_t \<Rightarrow> string" where
  "keep_alive_word k = (if k = HTTP_CONNECTION_KEEP_ALIVE then ''1''
     else if k = HTTP_CONNECTION_CLOSE then ''=0'' else ''unset'')"

text \<open>\<open>log_parsed_request\<close>: the buffer it hands to the log.\<close>

definition log_parsed_request :: "request \<Rightarrow> fault + buffer" where
  "log_parsed_request r =
     andthen (buffer_copy_string buffer_init
       (lit ([LF] @ ''http request head is parsed,the request detail is as following:'' @ [LF]))) (\<lambda>b.
     andthen (log_field ''http_method:'' (http_method r) b) (\<lambda>b.
     andthen (log_field ''http_url:'' (request_url r) b) (\<lambda>b.
     andthen (log_word ''http_protocol version:'' (http_version_word (http_version r)) b) (\<lambda>b.
     andthen (log_word ''http_request keep_alive flags='' (keep_alive_word (req_keep_alive r)) b) (\<lambda>b.
     andthen (log_field ''http_request from host:'' (hostname r) b) (\<lambda>b.
     log_field ''http_request ranges:'' (http_range r) b))))))"

definition field_text :: "buffer \<Rightarrow> string \<Rightarrow> string" where
  "field_text b s = (if used_bytes b = 0 then ''unset'' else s)"

lemma log_field_holds [returns_rules]:
  assumes b: "buffer_holds b s" and f: "buffer_holds f t" and l: "NUL \<notin> set label"
    and small: "length s + length label + length t + 6 < buffer_max"
  shows "returns (log_field label f b) (\<lambda>b'. buffer_holds b' (s @ label @ field_text f t @ [LF]))"
proof -
  obtain b1 where b1: "buffer_append_string b (lit label) = Inr b1" "buffer_holds b1 (s @ label)"
    using buffer_append_string_holds [OF b points_to_lit [OF l]] small by (auto simp: returns_iff)
  have used: "used_bytes f - 1 = of_nat (length t)" if "used_bytes f \<noteq> 0"
    using buffer_holds_used [OF f that] by (intro of_nat_eq_u32I unat_pred_u32)
  have "returns (if \<not> buffer_is_empty f then buffer_append_string_length b1 (ptr f) (used_bytes f - 1)
              else buffer_append_string b1 (lit ''unset'')) (\<lambda>b'. buffer_holds b' ((s @ label) @ field_text f t))"
  proof (cases "used_bytes f = 0")
    case True
    then show ?thesis
      using buffer_append_string_holds [OF b1(2), of "lit ''unset''" "''unset''"] small
      by (simp add: buffer_is_empty_def field_text_def)
  next
    case False
    then have "0 < used_bytes f" "field_text f t = t"
      by (simp add: word_neq_0_conv) (simp only: field_text_def if_not_P [OF False])
    then show ?thesis
      using buffer_append_string_length_holds [OF b1(2) buffer_holds_provides [OF f False]] small used
      by (simp add: buffer_is_empty_def)
  qed
  then obtain b2 where b2: "(if \<not> buffer_is_empty f then buffer_append_string_length b1 (ptr f) (used_bytes f - 1)
              else buffer_append_string b1 (lit ''unset'')) = Inr b2" "buffer_holds b2 ((s @ label) @ field_text f t)"
    by (auto simp: returns_iff)
  have "returns (buffer_append_string b2 (lit [LF])) (\<lambda>b'. buffer_holds b' (((s @ label) @ field_text f t) @ [LF]))"
    by (rule buffer_append_string_holds [OF b2(2)]) (use small in \<open>auto simp: field_text_def\<close>)
  with b1 b2 show ?thesis by (simp add: log_field_def)
qed

lemma log_word_holds [returns_rules]:
  assumes b: "buffer_holds b s" and l: "NUL \<notin> set label" "NUL \<notin> set w"
    and small: "length s + length label + length w + 1 < buffer_max"
  shows "returns (log_word label w b) (\<lambda>b'. buffer_holds b' (s @ label @ w @ [LF]))"
proof -
  have "points_to (lit [LF]) [LF]" by simp
  then have pts: "list_all2 points_to [lit label, lit w, lit [LF]] [label, w, [LF]]" using l by simp
  show ?thesis
    using string_sink.append_each_holds [OF b pts] small by (simp add: log_word_def)
qed

definition parsed_request_text :: "request \<Rightarrow> string \<Rightarrow> string \<Rightarrow> string \<Rightarrow> string \<Rightarrow> string" where
  "parsed_request_text r m u h g =
     [LF] @ ''http request head is parsed,the request detail is as following:'' @ [LF] @
     ''http_method:'' @ field_text (http_method r) m @ [LF] @
     ''http_url:'' @ field_text (request_url r) u @ [LF] @
     ''http_protocol version:'' @ http_version_word (http_version r) @ [LF] @
     ''http_request keep_alive flags='' @ keep_alive_word (req_keep_alive r) @ [LF] @
     ''http_request from host:'' @ field_text (hostname r) h @ [LF] @
     ''http_request ranges:'' @ field_text (http_range r) g @ [LF]"

lemma log_words_bounds:
  "length (http_version_word v) \<le> 8" "NUL \<notin> set (http_version_word v)"
  "length (keep_alive_word k) \<le> 5" "NUL \<notin> set (keep_alive_word k)"
  by (simp_all add: http_version_word_def keep_alive_word_def)

lemma length_field_text: "length (field_text b s) \<le> length s + 5"
  by (simp add: field_text_def)

lemma log_parsed_request_holds:
  assumes m: "buffer_holds (http_method r) m" and u: "buffer_holds (request_url r) u"
    and h: "buffer_holds (hostname r) h" and g: "buffer_holds (http_range r) g"
    and small: "length m + length u + length h + length g + 400 < buffer_max"
  shows "returns (log_parsed_request r) (\<lambda>b. buffer_holds b (parsed_request_text r m u h g))"
proof -
  note len = length_field_text [of "http_method r" m] length_field_text [of "request_url r" u]
    length_field_text [of "hostname r" h] length_field_text [of "http_range r" g]
    log_words_bounds(1,2) [of "http_version r"] log_words_bounds(3,4) [of "req_keep_alive r"]
  define s0 where "s0 = [LF] @ ''http request head is parsed,the request detail is as following:'' @ [LF]"
  have head: "points_to (lit s0) s0" and l0: "length s0 \<le> 70" by (simp_all add: s0_def)
  obtain b0 where b0: "buffer_copy_string buffer_init (lit s0) = Inr b0" "buffer_holds b0 s0"
    using buffer_copy_string_holds [OF buffer_init_holds head] l0 by (auto simp: returns_iff)
  define s1 where "s1 = s0 @ ''http_method:'' @ field_text (http_method r) m @ [LF]"
  have l1: "length s1 \<le> 120 + length m" using l0 len by (simp add: s1_def)
  obtain b1 where b1: "log_field ''http_method:'' (http_method r) b0 = Inr b1" "buffer_holds b1 s1"
    using log_field_holds [OF b0(2) m, of "''http_method:''"] small l0 len by (auto simp: returns_iff s1_def)
  define s2 where "s2 = s1 @ ''http_url:'' @ field_text (request_url r) u @ [LF]"
  have l2: "length s2 \<le> 170 + length m + length u" using l1 len by (simp add: s2_def)
  obtain b2 where b2: "log_field ''http_url:'' (request_url r) b1 = Inr b2" "buffer_holds b2 s2"
    using log_field_holds [OF b1(2) u, of "''http_url:''"] small l1 len by (auto simp: returns_iff s2_def)
  define s3 where "s3 = s2 @ ''http_protocol version:'' @ http_version_word (http_version r) @ [LF]"
  have l3: "length s3 \<le> 220 + length m + length u" using l2 len by (simp add: s3_def)
  obtain b3 where b3: "log_word ''http_protocol version:'' (http_version_word (http_version r)) b2 = Inr b3" "buffer_holds b3 s3"
    using log_word_holds [OF b2(2), of "''http_protocol version:''" "http_version_word (http_version r)"] small l2 len by (auto simp: returns_iff s3_def)
  define s4 where "s4 = s3 @ ''http_request keep_alive flags='' @ keep_alive_word (req_keep_alive r) @ [LF]"
  have l4: "length s4 \<le> 270 + length m + length u" using l3 len by (simp add: s4_def)
  obtain b4 where b4: "log_word ''http_request keep_alive flags='' (keep_alive_word (req_keep_alive r)) b3 = Inr b4" "buffer_holds b4 s4"
    using log_word_holds [OF b3(2), of "''http_request keep_alive flags=''" "keep_alive_word (req_keep_alive r)"] small l3 len by (auto simp: returns_iff s4_def)
  define s5 where "s5 = s4 @ ''http_request from host:'' @ field_text (hostname r) h @ [LF]"
  have l5: "length s5 \<le> 320 + length m + length u + length h" using l4 len by (simp add: s5_def)
  obtain b5 where b5: "log_field ''http_request from host:'' (hostname r) b4 = Inr b5" "buffer_holds b5 s5"
    using log_field_holds [OF b4(2) h, of "''http_request from host:''"] small l4 len by (auto simp: returns_iff s5_def)
  define s6 where "s6 = s5 @ ''http_request ranges:'' @ field_text (http_range r) g @ [LF]"
  have l6: "length s6 \<le> 370 + length m + length u + length h + length g" using l5 len by (simp add: s6_def)
  obtain b6 where b6: "log_field ''http_request ranges:'' (http_range r) b5 = Inr b6" "buffer_holds b6 s6"
    using log_field_holds [OF b5(2) g, of "''http_request ranges:''"] small l5 len by (auto simp: returns_iff s6_def)
  have "s6 = parsed_request_text r m u h g"
    by (simp add: s0_def s1_def s2_def s3_def s4_def s5_def s6_def parsed_request_text_def)
  with b0 b1 b2 b3 b4 b5 b6 show ?thesis by (simp add: log_parsed_request_def s0_def)
qed

end
