(* ===== verification/Response.thy ===== *)
theory Response
  imports Request
begin

text \<open>
  The request handler (\<open>src/response.cpp\<close>): it maps the URL to a path below the service root, looks the
  file up and puts the file, or the HTML page of a directory, into the write queue. The file system is
  a parameter: \<open>stat\<close>, \<open>opendir\<close> with \<open>readdir\<close> (the entry names in order) and the date that
  \<open>strftime\<close> writes. The lemmas give the outcome on every branch; \<open>full_path\<close>, \<open>mime_lookup\<close> and
  \<open>directory_page\<close> are the reference definitions.
\<close>

section \<open>The C code\<close>

datatype errno = EACCES | ENOENT | Other_errno

record file_system =
  os_stat :: "string \<Rightarrow> errno + stat"
  os_opendir :: "string \<Rightarrow> string list option"
  os_strftime :: "int \<Rightarrow> string"

text \<open>Truncation of the URL at the first occurrence of a character.\<close>

definition cut_url :: "char \<Rightarrow> buffer \<Rightarrow> fault + buffer" where
  "cut_url c b =
     andthen (cstr (ptr b)) (\<lambda>s.
     case strchr s c of
       None \<Rightarrow> Inr b
     | Some i \<Rightarrow> buffer_string_set_length b (of_nat i))"

text \<open>The path in the file system: root, a slash, the URL without its leading slash.\<close>

definition response_fullpath :: "server_config \<Rightarrow> buffer \<Rightarrow> buffer \<Rightarrow> fault + buffer" where
  "response_fullpath config url old =
     andthen (buffer_copy_buffer old (service_root_dir config)) (\<lambda>p1.
     andthen (buffer_append_string p1 (lit ''/'')) (\<lambda>p2.
     andthen (peek (ptr url) 0) (\<lambda>c.
     if c = CHR ''/'' then buffer_append_string p2 (advance (ptr url) 1)
     else buffer_append_string p2 (ptr url))))"

text \<open>The loop over the mime table: the first entry whose extension ends the path, letter case aside.\<close>

fun mime_loop :: "(string \<times> string) list \<Rightarrow> string \<Rightarrow> string option" where
  "mime_loop [] path = None"
| "mime_loop ((ext, type) # es) path =
     (if length ext \<le> 0 then mime_loop es path
      else if length path < length ext then mime_loop es path
      else if strncasecmp_eq (length ext) (drop (length path - length ext) path) ext then Some type
      else mime_loop es path)"

text \<open>The character before the end of a buffer, \<open>b->ptr[buffer_string_length(b)-1]\<close>; the index is a \<open>uint32_t\<close>.\<close>

definition last_char :: "buffer \<Rightarrow> fault + char" where
  "last_char b = peek (ptr b) (unat (buffer_string_length b - 1))"

definition append_slash :: "buffer \<Rightarrow> buffer \<Rightarrow> fault + buffer" where
  "append_slash src b =
     andthen (last_char src) (\<lambda>c. if c \<noteq> CHR ''/'' then buffer_append_string b (lit ''/'') else Inr b)"

fun append_spaces :: "nat \<Rightarrow> buffer \<Rightarrow> fault + buffer" where
  "append_spaces 0 b = Inr b"
| "append_spaces (Suc n) b = andthen (buffer_append_string b (lit '' '')) (append_spaces n)"

text \<open>
  \<open>snprintf(line+strlen(line), 1024-strlen(line), "%s", s)\<close>, \<open>"%32s"\<close> (padded on the left) and
  \<open>"%ld"\<close>.
\<close>

definition snprintf_line :: "string \<Rightarrow> string \<Rightarrow> string" where
  "snprintf_line line s = line @ take (1024 - length line - 1) s"

definition pad32 :: "string \<Rightarrow> string" where
  "pad32 s = replicate (32 - length s) CHR '' '' @ s"

definition format_ld :: "int \<Rightarrow> string" where
  "format_ld v = (if v < 0 then CHR ''-'' # nat_digits (nat (- v)) else nat_digits (nat v))"

definition directory_line :: "string \<Rightarrow> string \<Rightarrow> string \<Rightarrow> string" where
  "directory_line name date sizes =
     snprintf_line (snprintf_line (snprintf_line [] name) (pad32 date)) (pad32 sizes @ [CR, LF])"

text \<open>The link to an entry, padded to align the columns.\<close>

definition directory_link :: "buffer \<Rightarrow> string \<Rightarrow> fault + buffer" where
  "directory_link rel_filepath d_name =
     andthen (buffer_append_string buffer_init (lit (''<a href='' @ [QUOTE]))) (\<lambda>h1.
     andthen (buffer_append_buffer h1 rel_filepath) (\<lambda>h2.
     andthen (buffer_append_string h2 (lit ([QUOTE] @ ''>''))) (\<lambda>h3.
     andthen (buffer_append_string h3 (lit d_name)) (\<lambda>h4.
     andthen (buffer_append_string h4 (lit ''</a>'')) (append_spaces (64 - length d_name))))))"

text \<open>One entry of the directory: skipped when it is the directory itself or cannot be accessed.\<close>

definition directory_entry ::
  "file_system \<Rightarrow> buffer \<Rightarrow> buffer \<Rightarrow> string \<Rightarrow> buffer \<Rightarrow> fault + buffer" where
  "directory_entry fs directory_path url d_name b =
     (if d_name = ''.'' then Inr b
      else andthen (buffer_copy_buffer buffer_init directory_path) (\<lambda>f1.
           andthen (append_slash f1 f1) (\<lambda>f2.
           andthen (buffer_append_string f2 (lit d_name)) (\<lambda>f3.
           andthen (cstr (ptr f3)) (\<lambda>path.
           case os_stat fs path of
             Inl _ \<Rightarrow> Inr b
           | Inr st \<Rightarrow>
               andthen (buffer_copy_buffer buffer_init url) (\<lambda>r1.
               andthen (append_slash r1 r1) (\<lambda>r2.
               andthen (buffer_append_string r2 (lit d_name)) (\<lambda>rel_filepath.
               andthen (directory_link rel_filepath d_name) (\<lambda>filename_html.
               andthen (cstr (ptr filename_html)) (\<lambda>html.
               buffer_append_string b
                 (lit (directory_line html (os_strftime fs (st_mtime st)) (format_ld (st_size st))))))))))))))"

fun directory_loop ::
  "file_system \<Rightarrow> buffer \<Rightarrow> buffer \<Rightarrow> string list \<Rightarrow> buffer \<Rightarrow> fault + buffer" where
  "directory_loop fs directory_path url [] b = Inr b"
| "directory_loop fs directory_path url (d # ds) b =
     andthen (directory_entry fs directory_path url d b) (directory_loop fs directory_path url ds)"

definition http_handle_directory_parse ::
  "file_system \<Rightarrow> buffer \<Rightarrow> buffer \<Rightarrow> fault + buffer option" where
  "http_handle_directory_parse fs url directory_path =
     (if buffer_is_empty directory_path then Inr None
      else
        andthen (buffer_append_string buffer_init (lit (''<html>'' @ CRLF))) (\<lambda>b.
        andthen (buffer_append_string b (lit ''<head><title>'')) (\<lambda>b.
        andthen (buffer_append_string b (lit ''Index of '')) (\<lambda>b.
        andthen (buffer_append_buffer b url) (\<lambda>b.
        andthen (append_slash url b) (\<lambda>b.
        andthen (buffer_append_string b (lit (''</title></head>'' @ CRLF))) (\<lambda>b.
        andthen (buffer_append_string b (lit (''<body bgcolor='' @ [QUOTE] @ ''white'' @ [QUOTE] @ ''>'' @ CRLF))) (\<lambda>b.
        andthen (buffer_append_string b (lit ''<h1>Index of '')) (\<lambda>b.
        andthen (buffer_append_string b (ptr url)) (\<lambda>b.
        andthen (append_slash url b) (\<lambda>b.
        andthen (buffer_append_string b (lit (''</h1><hr><pre>'' @ CRLF))) (\<lambda>b.
        andthen (cstr (ptr directory_path)) (\<lambda>dirname.
        andthen (case os_opendir fs dirname of
                   None \<Rightarrow> Inr b
                 | Some names \<Rightarrow> directory_loop fs directory_path url names b) (\<lambda>b.
        andthen (buffer_append_string b (lit (''</pre><hr></body>'' @ CRLF))) (\<lambda>b.
        andthen (buffer_append_string b (lit (''</html>'' @ CRLF))) (\<lambda>b.
        Inr (Some b)))))))))))))))))"

text \<open>The failures of the handler: a status, and the path forgotten.\<close>

definition response_fail :: "u32 \<Rightarrow> connection \<Rightarrow> connection" where
  "response_fail status conn = conn
     \<lparr>http_status := status,
      connection_response := (connection_response conn)
        \<lparr>fullpath := buffer_reset (fullpath (connection_response conn))\<rparr>\<rparr>"

definition errno_status :: "errno \<Rightarrow> u32" where
  "errno_status e = (case e of EACCES \<Rightarrow> 403 | ENOENT \<Rightarrow> 404 | Other_errno \<Rightarrow> 500)"

definition handle_regular_file ::
  "server_config \<Rightarrow> stat \<Rightarrow> connection \<Rightarrow> fault + (int \<times> connection)" where
  "handle_regular_file config st conn =
     (let r = connection_response conn
      in case table config of
           None \<Rightarrow> Inl AssertFailed
         | Some t \<Rightarrow>
             andthen (cstr (ptr (fullpath r))) (\<lambda>path.
             andthen (case mime_loop (take (unat (used_entry t)) (entry t)) path of
                        None \<Rightarrow> Inr (content_type r)
                      | Some ty \<Rightarrow> buffer_copy_string (content_type r) (lit ty)) (\<lambda>ct.
             andthen (chunkqueue_append_file (writequeue conn) (fullpath r) 0 (word_of_int (st_size st))) (\<lambda>wq.
             Inr (0, conn\<lparr>writequeue := wq,
                        connection_response := r\<lparr>content_type := ct, s_stat := Some st\<rparr>,
                        http_response_body_finished := True, http_status := 200\<rparr>)))))"

definition handle_directory ::
  "file_system \<Rightarrow> stat \<Rightarrow> connection \<Rightarrow> fault + (int \<times> connection)" where
  "handle_directory fs st conn =
     (let r = connection_response conn
      in andthen (http_handle_directory_parse fs (request_url (connection_request conn)) (fullpath r)) (\<lambda>page.
         case page of
           None \<Rightarrow> Inl AssertFailed
         | Some b \<Rightarrow>
             andthen (chunkqueue_append_buffer (writequeue conn) b) (\<lambda>wq.
             andthen (buffer_copy_string (content_type r) (lit ''text/html'')) (\<lambda>ct.
             Inr (0, conn\<lparr>writequeue := wq,
                        connection_response := r\<lparr>content_type := ct, s_stat := Some st\<rparr>,
                        http_response_body_finished := True, http_status := 200\<rparr>)))))"

definition http_request_handle ::
  "server_config \<Rightarrow> file_system \<Rightarrow> connection \<Rightarrow> fault + (int \<times> connection)" where
  "http_request_handle config fs conn =
     (if http_status conn \<noteq> 0 \<and> http_status conn \<noteq> 200 then Inr (0, conn)
      else andthen (cut_url CHR ''#'' (request_url (connection_request conn))) (\<lambda>url1.
           andthen (cut_url CHR ''?'' url1) (\<lambda>url.
           andthen (response_fullpath config url (fullpath (connection_response conn))) (\<lambda>path_b.
           andthen (cstr (ptr path_b)) (\<lambda>path.
           let conn1 = conn\<lparr>connection_request := (connection_request conn)\<lparr>request_url := url\<rparr>,
                           connection_response := (connection_response conn)\<lparr>fullpath := path_b\<rparr>\<rparr>
           in case os_stat fs path of
                Inl e \<Rightarrow> Inr (-1, response_fail (errno_status e) conn1)
              | Inr st \<Rightarrow>
                  (case st_kind st of
                     Regular \<Rightarrow> handle_regular_file config st conn1
                   | Directory \<Rightarrow> handle_directory fs st conn1
                   | Other_Kind \<Rightarrow> Inr (-1, response_fail 403 conn1)))))))"

section \<open>Functions that add text to a buffer\<close>

text \<open>\<open>adds f t\<close>: \<open>f\<close> appends \<open>t\<close> to whatever its buffer holds; the rules follow the code's sequencing.\<close>

definition adds :: "(buffer \<Rightarrow> fault + buffer) \<Rightarrow> string \<Rightarrow> bool" where
  "adds f t \<longleftrightarrow> (\<forall>b s. buffer_holds b s \<longrightarrow> length s + length t < buffer_max \<longrightarrow>
     returns (f b) (\<lambda>b'. buffer_holds b' (s @ t)))"

named_theorems adds_rules \<open>what a function adds to a buffer\<close>

lemma addsD: "adds f t \<Longrightarrow> buffer_holds b s \<Longrightarrow> length s + length t < buffer_max \<Longrightarrow>
  returns (f b) (\<lambda>b'. buffer_holds b' (s @ t))"
  by (simp add: adds_def)

lemma adds_seq [adds_rules]:
  assumes "adds f t" and "adds g u"
  shows "adds (\<lambda>b. andthen (f b) g) (t @ u)"
  unfolding adds_def returns_andthen
proof (intro allI impI)
  fix b s assume b: "buffer_holds b s" and len: "length s + length (t @ u) < buffer_max"
  from addsD [OF assms(1) b] len have "returns (f b) (\<lambda>b'. buffer_holds b' (s @ t))" by simp
  then show "returns (f b) (\<lambda>x. returns (g x) (\<lambda>b'. buffer_holds b' (s @ t @ u)))"
    by (rule returns_mono) (use addsD [OF assms(2), of _ "s @ t"] len in simp)
qed

lemma adds_string [adds_rules]: "points_to p t \<Longrightarrow> adds (\<lambda>b. buffer_append_string b p) t"
  by (simp add: adds_def buffer_append_string_holds)

lemma adds_lit [adds_rules]: "NUL \<notin> set t \<Longrightarrow> adds (\<lambda>b. buffer_append_string b (lit t)) t"
  by (simp add: adds_string)

lemma adds_buffer [adds_rules]: "text_buffer src t \<Longrightarrow> adds (\<lambda>b. buffer_append_buffer b src) t"
  by (simp add: adds_def text_buffer_def buffer_append_buffer_holds)

lemma adds_nothing [adds_rules]: "adds Inr []"
  by (simp add: adds_def)

lemma adds_Inr: "adds (\<lambda>b. Inr b) []"
  by (simp add: adds_def)

lemma adds_init:
  "adds f t \<Longrightarrow> length t < buffer_max \<Longrightarrow> returns (f buffer_init) (\<lambda>b. buffer_holds b t)"
  using addsD [of f t buffer_init "[]"] by simp

lemma text_buffer_nonempty: "buffer_holds b s \<Longrightarrow> s \<noteq> [] \<Longrightarrow> text_buffer b s"
  using buffer_holds_empty by (auto simp: text_buffer_def)

lemma text_buffer_cstr_plain: "text_buffer b s \<Longrightarrow> NUL \<notin> set s \<Longrightarrow> cstr (ptr b) = Inr s"
  by (simp add: text_buffer_def buffer_holds_points_to)

lemma text_buffer_points_to_plain: "text_buffer b s \<Longrightarrow> NUL \<notin> set s \<Longrightarrow> points_to (ptr b) s"
  by (simp add: text_buffer_def buffer_holds_points_to)

definition slash_end :: "string \<Rightarrow> string" where
  "slash_end s = (if last s = CHR ''/'' then [] else ''/'')"

lemma last_char_text:
  assumes "text_buffer b s" and "s \<noteq> []"
  shows "last_char b = Inr (last s)"
proof -
  have "unat (buffer_string_length b - 1) = length s - 1"
    using text_buffer_length [OF assms(1)] assms(2) by (cases s) (auto intro: unat_pred_u32)
  then show ?thesis
    using text_buffer_peek [OF assms(1), of "length s - 1"] assms(2) by (simp add: last_char_def last_conv_nth)
qed

lemma adds_slash [adds_rules]:
  "text_buffer src s \<Longrightarrow> s \<noteq> [] \<Longrightarrow> adds (append_slash src) (slash_end s)"
  using adds_lit [of "''/''"] by (auto simp: append_slash_def last_char_text slash_end_def adds_def)

lemma adds_spaces [adds_rules]: "adds (append_spaces n) (replicate n CHR '' '')"
proof (induction n)
  case 0
  have "append_spaces 0 = Inr" by (rule ext) simp
  then show ?case by (simp add: adds_nothing)
next
  case (Suc n)
  have "append_spaces (Suc n) = (\<lambda>b. andthen (buffer_append_string b (lit '' '')) (append_spaces n))"
    by (rule ext) simp
  then show ?case using adds_seq [OF adds_lit [of "'' ''"] Suc.IH] by simp
qed

section \<open>The path of a URL\<close>

definition url_path :: "string \<Rightarrow> string" where
  "url_path u = takeWhile (\<lambda>c. c \<noteq> CHR ''?'') (takeWhile (\<lambda>c. c \<noteq> CHR ''#'') u)"

definition full_path :: "string \<Rightarrow> string \<Rightarrow> string" where
  "full_path root u = root @ ''/'' @ (if u \<noteq> [] \<and> hd u = CHR ''/'' then tl u else u)"

lemma takeWhile_strchr:
  "takeWhile (\<lambda>x. x \<noteq> c) s = (case strchr s c of None \<Rightarrow> s | Some i \<Rightarrow> take i s)"
  by (induction s) (auto split: option.splits)

lemma cut_url_text [returns_rules]:
  assumes "text_buffer b s" and "NUL \<notin> set s"
  shows "returns (cut_url c b) (\<lambda>b'. text_buffer b' (takeWhile (\<lambda>x. x \<noteq> c) s))"
proof (cases "strchr s c")
  case None
  then show ?thesis using assms by (simp add: cut_url_def text_buffer_cstr_plain takeWhile_strchr)
next
  case (Some i)
  have "returns (buffer_string_set_length b (of_nat i)) (\<lambda>b'. buffer_holds b' (take i s) \<and> used_bytes b' \<noteq> 0)"
    by (rule buffer_string_set_length_holds) (use assms Some strchr_Some [OF Some] in \<open>auto simp: text_buffer_def\<close>)
  with Some text_buffer_cstr_plain [OF assms] show ?thesis
    by (simp add: cut_url_def takeWhile_strchr text_buffer_def)
qed

lemma cut_urls_text:
  assumes "text_buffer b u" and "NUL \<notin> set u"
  shows "returns (andthen (cut_url CHR ''#'' b) (cut_url CHR ''?'')) (\<lambda>b'. text_buffer b' (url_path u))"
proof -
  have nul: "NUL \<notin> set (takeWhile (\<lambda>x. x \<noteq> CHR ''#'') u)" using assms(2) by (auto dest: set_takeWhileD)
  show ?thesis unfolding url_path_def returns_andthen
    by (rule returns_mono [OF cut_url_text [OF assms]]) (rule cut_url_text [OF _ nul])
qed

lemma NUL_url_path: "NUL \<notin> set u \<Longrightarrow> NUL \<notin> set (url_path u)"
  by (auto simp: url_path_def dest: set_takeWhileD)

lemma length_url_path: "length (url_path u) \<le> length u"
  using length_takeWhile_le [of _ u] length_takeWhile_le order_trans by (fastforce simp: url_path_def)

lemma NUL_full_path: "NUL \<notin> set root \<Longrightarrow> NUL \<notin> set u \<Longrightarrow> NUL \<notin> set (full_path root u)"
  by (cases u) (auto simp: full_path_def)

lemma response_fullpath_text [returns_rules]:
  assumes old: "buffer_holds old x" and root: "text_buffer (service_root_dir config) root"
    and u: "text_buffer url u" "NUL \<notin> set u" and small: "length root + length u + 1 < buffer_max"
  shows "returns (response_fullpath config url old) (\<lambda>b. text_buffer b (full_path root u))"
proof -
  obtain p1 where p1: "buffer_copy_buffer old (service_root_dir config) = Inr p1" "buffer_holds p1 root"
    using text_buffer_copy_buffer [OF old root] small by (auto simp: returns_iff text_buffer_def)
  obtain p2 where p2: "buffer_append_string p1 (lit ''/'') = Inr p2" "buffer_holds p2 (root @ ''/'')"
    using buffer_append_string_holds [OF p1(2), of "lit ''/''" "''/''"] small by (auto simp: returns_iff)
  have pt: "points_to (ptr url) u" using u by (rule text_buffer_points_to_plain)
  have app: "returns (buffer_append_string p2 p) (\<lambda>b. text_buffer b (root @ ''/'' @ t))"
    if "points_to p t" "length t \<le> length u" for p t
    using buffer_append_string_holds [OF p2(2) that(1)] that(2) small
    by (auto intro: returns_mono text_buffer_nonempty)
  have peek: "peek (ptr url) 0 = Inr (if u \<noteq> [] then hd u else NUL)"
    using text_buffer_peek [OF u(1), of 0] by (simp add: hd_conv_nth)
  have "points_to (advance (ptr url) 1) (tl u)" if "u \<noteq> []"
    using pt that by (cases u) (auto simp: points_to_def advance_def)
  then show ?thesis
    using p1(1) p2(1) peek app [OF pt] app [of "advance (ptr url) 1" "tl u"]
    by (auto simp: response_fullpath_def full_path_def)
qed

section \<open>The content type\<close>

definition ends_with :: "string \<Rightarrow> string \<Rightarrow> bool" where
  "ends_with ext path \<longleftrightarrow> length ext \<le> length path \<and>
     map tolower (drop (length path - length ext) path) = map tolower ext"

definition mime_lookup :: "(string \<times> string) list \<Rightarrow> string \<Rightarrow> string option" where
  "mime_lookup es path = map_option snd (find (\<lambda>(ext, ty). ext \<noteq> [] \<and> ends_with ext path) es)"

lemma mime_loop_lookup: "mime_loop es path = mime_lookup es path"
proof (induction es)
  case (Cons e es)
  have "strncasecmp_eq (length ext) (drop (length path - length ext) path) ext = ends_with ext path"
    if "length ext \<le> length path" for ext
    using that strncasecmp_eq_begins_with [of "length ext" ext "drop (length path - length ext) path"]
    by (simp add: begins_with_def ends_with_def)
  with Cons show ?case by (cases e) (auto simp: mime_lookup_def ends_with_def)
qed (simp add: mime_lookup_def)

section \<open>The page of a directory\<close>

definition with_slash :: "string \<Rightarrow> string" where
  "with_slash s = s @ slash_end s"

definition link_text :: "string \<Rightarrow> string \<Rightarrow> string" where
  "link_text u d = (''<a href='' @ [QUOTE]) @ (with_slash u @ d) @ ([QUOTE] @ ''>'') @ d @ ''</a>'' @
     replicate (64 - length d) CHR '' ''"

definition entry_text :: "file_system \<Rightarrow> string \<Rightarrow> string \<Rightarrow> string \<Rightarrow> string" where
  "entry_text fs dir u d =
     (if d = ''.'' then []
      else case os_stat fs (with_slash dir @ d) of
             Inl _ \<Rightarrow> []
           | Inr st \<Rightarrow> directory_line (link_text u d) (os_strftime fs (st_mtime st)) (format_ld (st_size st)))"

definition directory_names :: "file_system \<Rightarrow> string \<Rightarrow> string list" where
  "directory_names fs dir = (case os_opendir fs dir of None \<Rightarrow> [] | Some ds \<Rightarrow> ds)"

definition directory_page :: "file_system \<Rightarrow> string \<Rightarrow> string \<Rightarrow> string" where
  "directory_page fs dir u =
     (''<html>'' @ CRLF) @ ''<head><title>'' @ ''Index of '' @ u @ slash_end u @ (''</title></head>'' @ CRLF) @
     (''<body bgcolor='' @ [QUOTE] @ ''white'' @ [QUOTE] @ ''>'' @ CRLF) @ ''<h1>Index of '' @ u @ slash_end u @
     (''</h1><hr><pre>'' @ CRLF) @ concat (map (entry_text fs dir u) (directory_names fs dir)) @
     (''</pre><hr></body>'' @ CRLF) @ (''</html>'' @ CRLF)"

text \<open>What the file system answers with: C strings, names of at most 255 bytes.\<close>

definition answers_strings :: "file_system \<Rightarrow> bool" where
  "answers_strings fs \<longleftrightarrow> (\<forall>t. NUL \<notin> set (os_strftime fs t)) \<and>
     (\<forall>p ds d. os_opendir fs p = Some ds \<longrightarrow> d \<in> set ds \<longrightarrow> NUL \<notin> set d \<and> length d \<le> 255)"

lemma NUL_nat_digits: "NUL \<notin> set (nat_digits n)"
  using nat_digits_digits [of NUL n] by (auto simp: is_digit_def)

lemma NUL_directory_line:
  "NUL \<notin> set html \<Longrightarrow> NUL \<notin> set date \<Longrightarrow> NUL \<notin> set (directory_line html date (format_ld n))"
  using NUL_nat_digits
  by (auto simp: directory_line_def snprintf_line_def pad32_def format_ld_def dest!: in_set_takeD)

lemma NUL_slash_end [simp]: "NUL \<notin> set (slash_end s)"
  by (simp add: slash_end_def)

lemma length_slash_end: "length (slash_end s) \<le> 1"
  by (simp add: slash_end_def)

lemma NUL_link_text: "NUL \<notin> set u \<Longrightarrow> NUL \<notin> set d \<Longrightarrow> NUL \<notin> set (link_text u d)"
  by (auto simp: link_text_def with_slash_def)

lemma length_link_text: "length (link_text u d) \<le> length u + 2 * length d + 80"
  using length_slash_end [of u] by (simp add: link_text_def with_slash_def)

text \<open>A copy of \<open>src\<close> with a slash and a name behind it.\<close>

lemma copy_with_name:
  assumes src: "text_buffer src s" "s \<noteq> []" and d: "NUL \<notin> set d" and small: "length s + length d + 1 < buffer_max"
  shows "\<exists>f1 f2 f3. buffer_copy_buffer buffer_init src = Inr f1 \<and> append_slash f1 f1 = Inr f2 \<and>
    buffer_append_string f2 (lit d) = Inr f3 \<and> text_buffer f3 (with_slash s @ d)"
proof -
  obtain f1 where f1: "buffer_copy_buffer buffer_init src = Inr f1" "text_buffer f1 s"
    using text_buffer_copy_buffer [OF buffer_init_holds src(1)] small by (auto simp: returns_iff)
  obtain f3 f2 where f: "append_slash f1 f1 = Inr f2" "buffer_append_string f2 (lit d) = Inr f3"
      "buffer_holds f3 (s @ slash_end s @ d)"
    using addsD [OF adds_seq [OF adds_slash [OF f1(2) src(2)] adds_lit [OF d]] text_buffer_holds [OF f1(2)]]
      small length_slash_end [of s] by (auto simp: returns_iff andthen_Inr_iff)
  have "text_buffer f3 (with_slash s @ d)"
    using text_buffer_nonempty [OF f(3)] src(2) by (simp add: with_slash_def)
  with f1 f show ?thesis by blast
qed

lemma adds_link:
  assumes rel: "text_buffer r (with_slash u @ d)" and nul: "NUL \<notin> set u" "NUL \<notin> set d"
    and small: "length u + 2 * length d + 80 < buffer_max"
  shows "\<exists>h. directory_link r d = Inr h \<and>
    cstr (ptr h) = Inr (link_text u d)"
proof -
  have "adds (\<lambda>b. andthen (buffer_append_string b (lit (''<a href='' @ [QUOTE]))) (\<lambda>h1.
      andthen (buffer_append_buffer h1 r) (\<lambda>h2.
      andthen (buffer_append_string h2 (lit ([QUOTE] @ ''>''))) (\<lambda>h3.
      andthen (buffer_append_string h3 (lit d)) (\<lambda>h4.
      andthen (buffer_append_string h4 (lit ''</a>'')) (append_spaces (64 - length d))))))) (link_text u d)"
    unfolding link_text_def by (intro adds_rules rel nul) simp_all
  from adds_init [OF this] length_link_text [of u d] small
  obtain h where h: "directory_link r d = Inr h"
      "buffer_holds h (link_text u d)"
    by (auto simp: returns_iff directory_link_def)
  have "link_text u d \<noteq> []" by (simp add: link_text_def)
  with h NUL_link_text [OF nul] show ?thesis
    by (auto intro: text_buffer_cstr_plain text_buffer_nonempty)
qed

lemma adds_entry:
  assumes dir: "text_buffer path_b dir" "dir \<noteq> []" "NUL \<notin> set dir" and url: "text_buffer url u" "u \<noteq> []" "NUL \<notin> set u"
    and d: "NUL \<notin> set d" "length d \<le> 255" and fs: "answers_strings fs"
    and small: "length dir + 1000 < buffer_max" "length u + 1000 < buffer_max"
  shows "adds (directory_entry fs path_b url d) (entry_text fs dir u d)"
proof (cases "d = ''.''")
  case True
  then show ?thesis by (simp add: adds_def directory_entry_def entry_text_def)
next
  case False
  obtain f1 f2 f3 where f: "buffer_copy_buffer buffer_init path_b = Inr f1" "append_slash f1 f1 = Inr f2"
      "buffer_append_string f2 (lit d) = Inr f3" "text_buffer f3 (with_slash dir @ d)"
    using copy_with_name [OF dir(1,2) d(1)] d(2) small by fastforce
  have nul: "NUL \<notin> set (with_slash dir @ d)" using dir d by (simp add: with_slash_def)
  obtain r1 r2 r3 where r: "buffer_copy_buffer buffer_init url = Inr r1" "append_slash r1 r1 = Inr r2"
      "buffer_append_string r2 (lit d) = Inr r3" "text_buffer r3 (with_slash u @ d)"
    using copy_with_name [OF url(1,2) d(1)] d(2) small by fastforce
  obtain h where h: "directory_link r3 d = Inr h" "cstr (ptr h) = Inr (link_text u d)"
    using adds_link [OF r(4) url(3) d(1)] d(2) small by auto
  note path = text_buffer_cstr_plain [OF f(4) nul]
  have entry: "directory_entry fs path_b url d = (\<lambda>b. case os_stat fs (with_slash dir @ d) of Inl _ \<Rightarrow> Inr b
      | Inr st \<Rightarrow> buffer_append_string b (lit (directory_line (link_text u d) (os_strftime fs (st_mtime st)) (format_ld (st_size st)))))"
    by (rule ext) (simp add: directory_entry_def False f(1-3) r(1-3) h path split: sum.split)
  have "adds (\<lambda>b. buffer_append_string b (lit (directory_line (link_text u d) (os_strftime fs t) (format_ld n))))
      (directory_line (link_text u d) (os_strftime fs t) (format_ld n))" for t n
    using fs NUL_link_text [OF url(3) d(1)] by (intro adds_lit NUL_directory_line) (auto simp: answers_strings_def)
  then show ?thesis unfolding entry entry_text_def using False
    by (simp add: adds_Inr split: sum.split)
qed

lemma adds_directory_loop:
  assumes "text_buffer path_b dir" "dir \<noteq> []" "NUL \<notin> set dir" and "text_buffer url u" "u \<noteq> []" "NUL \<notin> set u"
    and "\<forall>d \<in> set ds. NUL \<notin> set d \<and> length d \<le> 255" and "answers_strings fs"
    and "length dir + 1000 < buffer_max" "length u + 1000 < buffer_max"
  shows "adds (directory_loop fs path_b url ds) (concat (map (entry_text fs dir u) ds))"
  using assms
proof (induction ds)
  case Nil
  have "directory_loop fs path_b url [] = Inr" by (rule ext) simp
  then show ?case by (simp add: adds_nothing)
next
  case (Cons d ds)
  have step: "directory_loop fs path_b url (d # ds) =
      (\<lambda>b. andthen (directory_entry fs path_b url d b) (directory_loop fs path_b url ds))" by (rule ext) simp
  have "adds (directory_entry fs path_b url d) (entry_text fs dir u d)"
    by (rule adds_entry) (use Cons.prems in auto)
  from adds_seq [OF this Cons.IH] Cons.prems show ?case unfolding step by simp
qed

lemma http_handle_directory_parse_page [returns_rules]:
  assumes dir: "text_buffer path_b dir" "dir \<noteq> []" "NUL \<notin> set dir" and url: "text_buffer url u" "u \<noteq> []" "NUL \<notin> set u"
    and fs: "answers_strings fs" and small: "length dir + 1000 < buffer_max" "length u + 1000 < buffer_max"
    and page: "length (directory_page fs dir u) < buffer_max"
  shows "returns (http_handle_directory_parse fs url path_b)
    (\<lambda>r. \<exists>b. r = Some b \<and> text_buffer b (directory_page fs dir u))"
proof -
  have used: "\<not> buffer_is_empty path_b"
    using dir(1) by (simp add: text_buffer_def buffer_is_empty_def word_neq_0_conv)
  note pt = text_buffer_points_to_plain [OF url(1,3)]
  have loop: "adds (\<lambda>b. case os_opendir fs dir of None \<Rightarrow> Inr b | Some ds \<Rightarrow> directory_loop fs path_b url ds b)
      (concat (map (entry_text fs dir u) (directory_names fs dir)))"
    using adds_directory_loop [OF dir url _ fs small] fs
    by (auto simp: directory_names_def answers_strings_def adds_Inr split: option.split)
  have "adds (\<lambda>b. andthen (buffer_append_string b (lit (''<html>'' @ CRLF))) (\<lambda>b.
        andthen (buffer_append_string b (lit ''<head><title>'')) (\<lambda>b.
        andthen (buffer_append_string b (lit ''Index of '')) (\<lambda>b.
        andthen (buffer_append_buffer b url) (\<lambda>b.
        andthen (append_slash url b) (\<lambda>b.
        andthen (buffer_append_string b (lit (''</title></head>'' @ CRLF))) (\<lambda>b.
        andthen (buffer_append_string b (lit (''<body bgcolor='' @ [QUOTE] @ ''white'' @ [QUOTE] @ ''>'' @ CRLF))) (\<lambda>b.
        andthen (buffer_append_string b (lit ''<h1>Index of '')) (\<lambda>b.
        andthen (buffer_append_string b (ptr url)) (\<lambda>b.
        andthen (append_slash url b) (\<lambda>b.
        andthen (buffer_append_string b (lit (''</h1><hr><pre>'' @ CRLF))) (\<lambda>b.
        andthen (case os_opendir fs dir of None \<Rightarrow> Inr b | Some ds \<Rightarrow> directory_loop fs path_b url ds b) (\<lambda>b.
        andthen (buffer_append_string b (lit (''</pre><hr></body>'' @ CRLF))) (\<lambda>b.
        buffer_append_string b (lit (''</html>'' @ CRLF)))))))))))))))) (directory_page fs dir u)"
    unfolding directory_page_def by (intro adds_rules loop pt url) (simp_all add: CRLF_def)
  from adds_init [OF this page] show ?thesis
    unfolding http_handle_directory_parse_def if_not_P [OF used] text_buffer_cstr_plain [OF dir(1,3)] andthen.simps returns_andthen
    by (elim returns_mono | assumption)+ (auto simp: directory_page_def intro: text_buffer_nonempty)
qed

section \<open>What the handler answers\<close>

text \<open>The configuration the server runs with.\<close>

definition config_ok :: "server_config \<Rightarrow> string \<Rightarrow> mime_table \<Rightarrow> bool" where
  "config_ok config root t \<longleftrightarrow> text_buffer (service_root_dir config) root \<and> NUL \<notin> set root \<and>
     table config = Some t \<and> mime_table_wf t \<and> (\<forall>(ext, ty) \<in> set (entry t). NUL \<notin> set ty \<and> length ty < 1024)"

text \<open>A connection whose request has been parsed: its URL is \<open>u\<close>, its write queue \<open>ws\<close>.\<close>

definition ready_for :: "connection \<Rightarrow> string \<Rightarrow> piece list \<Rightarrow> bool" where
  "ready_for conn u ws \<longleftrightarrow> connection_wf conn \<and> text_buffer (request_url (connection_request conn)) u \<and>
     NUL \<notin> set u \<and> queue_rel (writequeue conn) ws \<and> http_status conn \<in> {0, 200}"

text \<open>The outcome: return code, status, content type, bytes added to the write queue.\<close>

definition handled :: "connection \<Rightarrow> int \<Rightarrow> u32 \<Rightarrow> string option \<Rightarrow> piece list \<Rightarrow> int \<Rightarrow> connection \<Rightarrow> bool" where
  "handled conn rc0 status ty ws rc conn' \<longleftrightarrow> rc = rc0 \<and> connection_wf conn' \<and>
     http_status conn' = status \<and> queue_rel (writequeue conn') ws \<and> readqueue conn' = readqueue conn \<and>
     state conn' = state conn \<and> conn_socket_fd conn' = conn_socket_fd conn \<and> keep_alive conn' = keep_alive conn \<and>
     connection_index conn' = connection_index conn \<and> writeable conn' = writeable conn \<and>
     http_version (connection_request conn') = http_version (connection_request conn) \<and>
     (http_response_body_finished conn' \<longleftrightarrow> rc0 = 0 \<or> http_response_body_finished conn) \<and>
     (case ty of None \<Rightarrow> content_type (connection_response conn') = content_type (connection_response conn)
      | Some t \<Rightarrow> text_buffer (content_type (connection_response conn')) t)"

lemma mime_lookup_in:
  "mime_lookup es path = Some ty \<Longrightarrow> \<exists>ext. (ext, ty) \<in> set es"
  by (auto simp: mime_lookup_def find_Some_iff) (metis nth_mem)

lemma connection_wf_response:
  "connection_wf conn \<Longrightarrow> request_wf (connection_request conn) \<and> response_wf (connection_response conn)"
  by (simp add: connection_wf_def)

text \<open>The piece a file becomes; an empty file needs none.\<close>

definition file_pieces :: "string \<Rightarrow> int \<Rightarrow> piece list" where
  "file_pieces path n = (if n = 0 then [] else [File 0 path 0 (nat n)])"

lemma append_file_pieces:
  assumes ws: "queue_rel q ws" and path: "text_buffer b path" "NUL \<notin> set path" "path \<noteq> []"
    and small: "length path < buffer_max" and sz: "0 \<le> n" "n < 2 ^ 32"
  shows "returns (chunkqueue_append_file q b 0 (word_of_int n)) (\<lambda>q'. queue_rel q' (ws @ file_pieces path n))"
proof (cases "n = 0")
  case True
  then show ?thesis
    using ws text_buffer_cstr_plain [OF path(1,2)] by (simp add: chunkqueue_append_file_def file_pieces_def)
next
  case False
  have u: "unat (word_of_int n :: u32) = nat n"
    using sz unat_of_nat_u32 [of "nat n"] by simp
  show ?thesis
    using chunkqueue_append_file_rel [OF ws text_buffer_holds [OF path(1)] _ path(2,3) small, of "word_of_int n" 0]
      path(1) u sz False by (simp add: text_buffer_def unat_eq_0_iff file_pieces_def)
qed

lemma handle_regular_file_ok:
  assumes config: "config_ok config root t" and wf: "connection_wf conn" and ws: "queue_rel (writequeue conn) ws"
    and path: "text_buffer (fullpath (connection_response conn)) path" "NUL \<notin> set path" "path \<noteq> []"
    and small: "length path < buffer_max" and sz: "0 \<le> st_size st" "st_size st < 2 ^ 32"
  shows "returns (handle_regular_file config st conn) (\<lambda>(rc, conn').
    handled conn 0 200 (mime_lookup (entry t) path) (ws @ file_pieces path (st_size st)) rc conn')"
proof -
  let ?r = "connection_response conn"
  have all: "take (unat (used_entry t)) (entry t) = entry t" and tab: "table config = Some t"
    using config by (simp_all add: config_ok_def mime_table_wf_def)
  obtain c0 p0 where old: "buffer_holds (content_type ?r) c0"
    using wf by (auto simp: connection_wf_def response_wf_def)
  have ct: "returns (case mime_lookup (entry t) path of None \<Rightarrow> Inr (content_type ?r)
        | Some ty \<Rightarrow> buffer_copy_string (content_type ?r) (lit ty))
      (\<lambda>b. (\<exists>c. buffer_holds b c) \<and>
         (case mime_lookup (entry t) path of None \<Rightarrow> b = content_type ?r | Some ty \<Rightarrow> text_buffer b ty))"
  proof (cases "mime_lookup (entry t) path")
    case (Some ty)
    then have ty: "NUL \<notin> set ty" "length ty < 1024"
      using config mime_lookup_in [OF Some] by (auto simp: config_ok_def)
    have "returns (buffer_copy_string (content_type ?r) (lit ty)) (\<lambda>b. buffer_holds b ty \<and> unat (used_bytes b) = Suc (length ty))"
      by (rule buffer_copy_string_holds [OF old]) (use ty in auto)
    then show ?thesis using Some by (auto simp: returns_iff text_buffer_def)
  qed (use old in auto)
  note append_file_pieces [OF ws path small sz]
  with ct wf show ?thesis
    unfolding handle_regular_file_def Let_def tab option.case all mime_loop_lookup text_buffer_cstr_plain [OF path(1,2)]
    by (cases "mime_lookup (entry t) path") (auto simp: returns_iff handled_def connection_wf_def response_wf_def)
qed

lemma handle_directory_ok:
  assumes wf: "connection_wf conn" and ws: "queue_rel (writequeue conn) ws"
    and path: "text_buffer (fullpath (connection_response conn)) path" "path \<noteq> []" "NUL \<notin> set path"
    and url: "text_buffer (request_url (connection_request conn)) u" "u \<noteq> []" "NUL \<notin> set u"
    and fs: "answers_strings fs" and small: "length path + 1000 < buffer_max" "length u + 1000 < buffer_max"
    and page: "length (directory_page fs path u) < buffer_max"
  shows "returns (handle_directory fs st conn) (\<lambda>(rc, conn').
    handled conn 0 200 (Some ''text/html'') (ws @ [Mem 0 (directory_page fs path u)]) rc conn')"
proof -
  let ?r = "connection_response conn" and ?page = "directory_page fs path u"
  obtain b where b: "http_handle_directory_parse fs (request_url (connection_request conn)) (fullpath ?r) = Inr (Some b)"
      "text_buffer b ?page"
    using http_handle_directory_parse_page [OF path url fs small page] by (auto simp: returns_iff)
  have "ptr b \<noteq> None" using b(2) by (auto simp: text_buffer_cells)
  then obtain wq where wq: "chunkqueue_append_buffer (writequeue conn) b = Inr wq" "queue_rel wq (ws @ [Mem 0 ?page])"
    using chunkqueue_append_buffer_rel [OF ws text_buffer_holds [OF b(2)] _ page] by (auto simp: returns_iff)
  obtain c0 where old: "buffer_holds (content_type ?r) c0"
    using wf by (auto simp: connection_wf_def response_wf_def)
  obtain ct where ct: "buffer_copy_string (content_type ?r) (lit ''text/html'') = Inr ct" "text_buffer ct ''text/html''"
    using buffer_copy_string_holds [OF old, of "lit ''text/html''" "''text/html''"] text_buffer_nonempty
    by (auto simp: returns_iff)
  from b wq ct wf show ?thesis
    by (auto simp: handle_directory_def Let_def handled_def connection_wf_def response_wf_def intro: text_buffer_holds)
qed

lemma response_fail_handled:
  assumes "connection_wf conn" and "queue_rel (writequeue conn) ws"
  shows "handled conn (-1) status None ws (-1) (response_fail status conn)"
proof -
  have "response_wf (connection_response conn)" using assms(1) by (simp add: connection_wf_def)
  then have "response_wf ((connection_response conn)\<lparr>fullpath := buffer_reset (fullpath (connection_response conn))\<rparr>)"
    by (auto simp: response_wf_def intro: exI [of _ "[]"])
  with assms show ?thesis by (auto simp: handled_def response_fail_def connection_wf_def)
qed

text \<open>The answer to a request for \<open>u\<close> under the service root, as one relation.\<close>

definition answered ::
  "string \<Rightarrow> mime_table \<Rightarrow> file_system \<Rightarrow> string \<Rightarrow> connection \<Rightarrow> piece list \<Rightarrow> int \<Rightarrow> connection \<Rightarrow> bool" where
  "answered root t fs u conn ws rc conn' \<longleftrightarrow> (let path = full_path root (url_path u) in
     case os_stat fs path of
       Inl e \<Rightarrow> handled conn (-1) (errno_status e) None ws rc conn'
     | Inr st \<Rightarrow>
         (case st_kind st of
            Regular \<Rightarrow> handled conn 0 200 (mime_lookup (entry t) path) (ws @ file_pieces path (st_size st)) rc conn'
          | Directory \<Rightarrow> handled conn 0 200 (Some ''text/html'')
              (ws @ [Mem 0 (directory_page fs path (url_path u))]) rc conn'
          | Other_Kind \<Rightarrow> handled conn (-1) 403 None ws rc conn'))"

lemma http_request_handle_answered:
  assumes config: "config_ok config root t" and ready: "ready_for conn u ws" and fs: "answers_strings fs"
    and small: "length root + length u + 2000 < buffer_max"
    and files: "\<forall>p st. os_stat fs p = Inr st \<longrightarrow> 0 \<le> st_size st \<and> st_size st < 2 ^ 32"
    and dirs: "\<forall>st. os_stat fs (full_path root (url_path u)) = Inr st \<longrightarrow> st_kind st = Directory \<longrightarrow>
       url_path u \<noteq> [] \<and> length (directory_page fs (full_path root (url_path u)) (url_path u)) < buffer_max"
  shows "returns (http_request_handle config fs conn) (\<lambda>(rc, conn'). answered root t fs u conn ws rc conn')"
proof -
  let ?p = "url_path u" and ?path = "full_path root (url_path u)"
  from ready have wf: "connection_wf conn" and url: "text_buffer (request_url (connection_request conn)) u" "NUL \<notin> set u"
    and ws: "queue_rel (writequeue conn) ws" and st: "\<not> (http_status conn \<noteq> 0 \<and> http_status conn \<noteq> 200)"
    by (auto simp: ready_for_def)
  obtain u1 u2 where cut: "cut_url CHR ''#'' (request_url (connection_request conn)) = Inr u1"
      "cut_url CHR ''?'' u1 = Inr u2" "text_buffer u2 ?p"
    using cut_urls_text [OF url] by (auto simp: returns_iff andthen_Inr_iff)
  obtain x where old: "buffer_holds (fullpath (connection_response conn)) x"
    using wf by (auto simp: connection_wf_def response_wf_def)
  have root: "text_buffer (service_root_dir config) root" "NUL \<notin> set root" using config by (simp_all add: config_ok_def)
  have len: "length root + length ?p + 1 < buffer_max" "length ?path + 1000 < buffer_max" "length ?p + 1000 < buffer_max"
    using small length_url_path [of u] by (auto simp: full_path_def)
  obtain pb where pb: "response_fullpath config u2 (fullpath (connection_response conn)) = Inr pb" "text_buffer pb ?path"
    using response_fullpath_text [OF old root(1) cut(3) NUL_url_path [OF url(2)] len(1)] by (auto simp: returns_iff)
  have path: "?path \<noteq> []" "NUL \<notin> set ?path"
    using NUL_full_path [OF root(2) NUL_url_path [OF url(2)]] by (simp_all add: full_path_def)
  define c1 where "c1 = conn\<lparr>connection_request := (connection_request conn)\<lparr>request_url := u2\<rparr>,
                           connection_response := (connection_response conn)\<lparr>fullpath := pb\<rparr>\<rparr>"
  have wf1: "connection_wf c1" and ws1: "queue_rel (writequeue c1) ws"
    using wf cut(3) pb(2) ws
    by (auto simp: c1_def connection_wf_def response_wf_def intro: request_wf_update text_buffer_holds)
  have same: "handled c1 rc0 s ty vs rc conn' = handled conn rc0 s ty vs rc conn'" for rc0 s ty vs rc conn'
    by (simp add: handled_def c1_def cong: option.case_cong)
  have path1: "text_buffer (fullpath (connection_response c1)) ?path"
    and url1: "text_buffer (request_url (connection_request c1)) ?p" using pb(2) cut(3) by (simp_all add: c1_def)
  note eq = http_request_handle_def if_not_P [OF st] cut(1,2) pb(1) andthen.simps text_buffer_cstr_plain [OF pb(2) path(2)]
    Let_def c1_def [symmetric]
  show ?thesis
  proof (cases "os_stat fs ?path")
    case (Inl e)
    then show ?thesis unfolding eq
      using response_fail_handled [OF wf1 ws1, of "errno_status e"] by (simp add: answered_def same Let_def)
  next
    case (Inr s)
    have sz: "0 \<le> st_size s" "st_size s < 2 ^ 32" using files Inr by auto
    show ?thesis
    proof (cases "st_kind s")
      case Regular
      then show ?thesis unfolding eq
        using Inr handle_regular_file_ok [OF config wf1 ws1 path1 path(2,1) _ sz] len(2) by (simp add: answered_def same Let_def)
    next
      case Directory
      have "?p \<noteq> []" "length (directory_page fs ?path ?p) < buffer_max" using dirs Inr Directory by auto
      then show ?thesis unfolding eq
        using Inr Directory handle_directory_ok [OF wf1 ws1 path1 path url1 _ NUL_url_path [OF url(2)] fs len(2,3), of s]
        by (simp add: answered_def same Let_def)
    next
      case Other_Kind
      then show ?thesis unfolding eq
        using Inr response_fail_handled [OF wf1 ws1, of 403] by (simp add: answered_def same Let_def)
    qed
  qed
qed

section \<open>Properties\<close>

text \<open>
  C11: The handler answers every request for a URL \<open>u\<close> as specified: the query and the fragment are cut
  off, the path is the service root, a slash and the URL, a regular file is queued from byte 0 to its
  size with the type of the first matching mime entry, a directory as its HTML page, and everything
  else is refused with 403, 404 or 500 by the reason of the failure, nothing queued. No branch faults,
  and the connection stays well formed. A directory needs a URL that is not empty, and a file a size
  below 4 GiB.
\<close>

theorem http_request_handle_answers:
  assumes "config_ok config root t" and "ready_for conn u ws" and "answers_strings fs"
    and "length root + length u + 2000 < buffer_max"
    and "\<forall>p st. os_stat fs p = Inr st \<longrightarrow> 0 \<le> st_size st \<and> st_size st < 2 ^ 32"
    and "\<forall>st. os_stat fs (full_path root (url_path u)) = Inr st \<longrightarrow> st_kind st = Directory \<longrightarrow>
       url_path u \<noteq> [] \<and> length (directory_page fs (full_path root (url_path u)) (url_path u)) < buffer_max"
  shows "\<exists>rc conn'. http_request_handle config fs conn = Inr (rc, conn') \<and> answered root t fs u conn ws rc conn'"
  using http_request_handle_answered [OF assms] by (auto simp: returns_iff)

definition sample_fs :: file_system where
  "sample_fs = \<lparr>os_stat = (\<lambda>p. if p = ''/w/a.gif'' then Inr \<lparr>st_kind = Regular, st_size = 5, st_mtime = 0\<rparr>
       else if p = ''/w/'' then Inr \<lparr>st_kind = Directory, st_size = 0, st_mtime = 0\<rparr> else Inl ENOENT),
     os_opendir = (\<lambda>p. None), os_strftime = (\<lambda>t. ''2020'')\<rparr>"

definition sample_config :: server_config where
  "sample_config = server_config_init\<lparr>service_root_dir := sample_buffer ''/w'', support_http_1_1 := 1,
     table := Some \<lparr>entry = [(''.gif'', ''image/gif'')], used_entry = 1, entry_sizes = 1024\<rparr>\<rparr>"

lemma text_sample_buffer: "length s < 2 ^ 31 \<Longrightarrow> text_buffer (sample_buffer s) s"
  using unat_of_nat_u32 [of "Suc (length s)"]
  by (auto simp: text_buffer_cells sample_buffer_def lit_def unat_eq_0_iff simp del: of_nat_Suc)

lemma sample_config_ok: "config_ok sample_config ''/w'' \<lparr>entry = [(''.gif'', ''image/gif'')], used_entry = 1, entry_sizes = 1024\<rparr>"
  using text_sample_buffer [of "''/w''"] by (simp add: config_ok_def sample_config_def mime_table_wf_def)

definition sample_ready :: "string \<Rightarrow> connection" where
  "sample_ready u = (sample_connection [])\<lparr>connection_request := request_initialize\<lparr>request_url := sample_buffer u\<rparr>\<rparr>"

lemma sample_ready_for: "length u < 2 ^ 31 \<Longrightarrow> NUL \<notin> set u \<Longrightarrow> ready_for (sample_ready u) u []"
  using queue_rel_init text_sample_buffer [of u] request_wf_update(3) [OF request_wf_initialize text_buffer_holds]
  by (auto simp: ready_for_def sample_ready_def connection_wf_def sample_connection_def)

theorem http_request_handle_answers_witness:
  "\<exists>rc conn'. http_request_handle sample_config sample_fs (sample_ready ''/a.gif?x'') = Inr (rc, conn') \<and>
    answered ''/w'' \<lparr>entry = [(''.gif'', ''image/gif'')], used_entry = 1, entry_sizes = 1024\<rparr> sample_fs
      ''/a.gif?x'' (sample_ready ''/a.gif?x'') [] rc conn'"
  by (rule http_request_handle_answers [OF sample_config_ok sample_ready_for])
    (auto simp: answers_strings_def sample_fs_def full_path_def url_path_def split: if_splits)

lemma last_char_empty:
  assumes "text_buffer b []"
  shows "last_char b = Inl OutOfBounds"
proof -
  have "unat (buffer_string_length b) = 0" using text_buffer_length [OF assms] by simp
  then have "buffer_string_length b - 1 = - 1" by (simp add: unat_eq_zero)
  moreover have "unat (- 1 :: u32) = 2 ^ 32 - 1" by (simp add: unsigned_minus_1_eq_mask mask_eq_exp_minus_1)
  ultimately show ?thesis
    using assms unat_u32_lt [of "buf_size b"] by (auto simp: last_char_def text_buffer_cells)
qed

lemma http_handle_directory_parse_empty_url:
  assumes "text_buffer path_b dir" and url: "text_buffer url []"
  shows "http_handle_directory_parse fs url path_b = Inl OutOfBounds"
proof -
  have used: "\<not> buffer_is_empty path_b"
    using assms(1) by (simp add: text_buffer_def buffer_is_empty_def word_neq_0_conv)
  have "adds (\<lambda>b. andthen (buffer_append_string b (lit (''<html>'' @ CRLF))) (\<lambda>b.
        andthen (buffer_append_string b (lit ''<head><title>'')) (\<lambda>b.
        andthen (buffer_append_string b (lit ''Index of '')) (\<lambda>b. buffer_append_buffer b url))))
      ((''<html>'' @ CRLF) @ ''<head><title>'' @ ''Index of '' @ [])"
    by (intro adds_rules url) (simp_all add: CRLF_def)
  from adds_init [OF this] show ?thesis
    unfolding http_handle_directory_parse_def if_not_P [OF used]
    by (auto simp: CRLF_def returns_iff andthen_Inr_iff append_slash_def last_char_empty [OF url])
qed

text \<open>
  C39: A URL that is empty, or that starts with a query or a fragment, passes the parser's check for an
  empty URL; asked for a directory, the page builder then looks for the URL's last character. Its 32-bit index wraps around to
  \<open>2 ^ 32 - 1\<close>, which lies outside of the URL's block, 4 GiB behind its start.
\<close>

theorem http_request_handle_empty_url:
  assumes "config_ok config root t" and "ready_for conn u ws" and "url_path u = []"
    and "length root + length u + 2000 < buffer_max"
    and "os_stat fs (full_path root []) = Inr st" and "st_kind st = Directory"
  shows "http_request_handle config fs conn = Inl OutOfBounds"
proof -
  have wf: "connection_wf conn" and url: "text_buffer (request_url (connection_request conn)) u" "NUL \<notin> set u"
    and st0: "\<not> (http_status conn \<noteq> 0 \<and> http_status conn \<noteq> 200)"
    using assms(2) by (auto simp: ready_for_def)
  obtain u1 u2 where cut: "cut_url CHR ''#'' (request_url (connection_request conn)) = Inr u1"
      "cut_url CHR ''?'' u1 = Inr u2" "text_buffer u2 []"
    using cut_urls_text [OF url] assms(3) by (auto simp: returns_iff andthen_Inr_iff)
  obtain x where old: "buffer_holds (fullpath (connection_response conn)) x"
    using wf by (auto simp: connection_wf_def response_wf_def)
  have root: "text_buffer (service_root_dir config) root" "NUL \<notin> set root" using assms(1) by (simp_all add: config_ok_def)
  obtain pb where pb: "response_fullpath config u2 (fullpath (connection_response conn)) = Inr pb" "text_buffer pb (full_path root [])"
    using response_fullpath_text [OF old root(1) cut(3)] assms(4) by (auto simp: returns_iff)
  have nul: "NUL \<notin> set (full_path root [])" using NUL_full_path [OF root(2), of "[]"] by simp
  let ?c = "conn\<lparr>connection_request := (connection_request conn)\<lparr>request_url := u2\<rparr>,
                 connection_response := (connection_response conn)\<lparr>fullpath := pb\<rparr>\<rparr>"
  have dir: "handle_directory fs st ?c = Inl OutOfBounds"
    using http_handle_directory_parse_empty_url [OF pb(2) cut(3)] by (simp add: handle_directory_def Let_def)
  show ?thesis
    unfolding http_request_handle_def if_not_P [OF st0] cut(1,2) pb(1) andthen.simps text_buffer_cstr_plain [OF pb(2) nul]
    by (simp only: Let_def assms(5,6) sum.case file_kind.case dir)
qed

theorem http_request_handle_empty_url_witness:
  "http_request_handle sample_config sample_fs (sample_ready ''?x'') = Inl OutOfBounds"
  by (rule http_request_handle_empty_url [OF sample_config_ok sample_ready_for, where st = "\<lparr>st_kind = Directory, st_size = 0, st_mtime = 0\<rparr>"])
    (simp_all add: sample_fs_def full_path_def url_path_def)

end
