(* ===== verification/Fdevents.thy ===== *)
theory Fdevents
  imports Prelude
begin

text \<open>
  The table of event handlers (\<open>src/fdevents.h\<close>, \<open>src/fdevents.cpp\<close>): an array of nodes indexed by file
  descriptor, and the requests made to \<open>epoll_ctl\<close>, kept in order in \<open>epoll_requests\<close>; their results
  are ignored by the code. A handler is one of the three functions the program registers, its context
  is \<open>'c\<close>. The contract is that of a partial map from descriptors to nodes, stated as a locale, and
  that the interest list the requests build up is the one the nodes record.
\<close>

section \<open>The C code\<close>

abbreviation EPOLLIN :: u32 where "EPOLLIN \<equiv> 1"
abbreviation EPOLLOUT :: u32 where "EPOLLOUT \<equiv> 4"
abbreviation EPOLLERR :: u32 where "EPOLLERR \<equiv> 8"
abbreviation EPOLLHUP :: u32 where "EPOLLHUP \<equiv> 16"

unbundle bit_operations_syntax

datatype event_handle =
    Connection_event_handle
  | Unix_domain_socket_handle
  | Worker_timer_expire_handler

record 'c fdnodes =
  node_fd :: int
  handler_ctx :: 'c
  handler :: event_handle
  events :: u32

datatype epoll_request =
    EPOLL_CTL_ADD int u32
  | EPOLL_CTL_MOD int u32
  | EPOLL_CTL_DEL int

record 'c fdevents =
  max_fd :: int
  hanlder_array :: "'c fdnodes option list"
  epoll_requests :: "epoll_request list"

text \<open>\<open>epoll_create\<close> is a parameter: it may fail.\<close>

definition fdevent_initialize :: "(int \<Rightarrow> int) \<Rightarrow> int \<Rightarrow> 'c fdevents option" where
  "fdevent_initialize epoll_create n =
     (if epoll_create n < 0 then None
      else Some \<lparr>max_fd = n, hanlder_array = replicate (nat n) None, epoll_requests = []\<rparr>)"

text \<open>\<open>ev->hanlder_array[fd]\<close> after the two assertions on \<open>fd\<close> and its entry.\<close>

definition get_node :: "'c fdevents \<Rightarrow> int \<Rightarrow> fault + 'c fdnodes" where
  "get_node ev fd =
     (if 0 \<le> fd \<and> fd < max_fd ev
      then (if nat fd < length (hanlder_array ev)
            then (case hanlder_array ev ! nat fd of None \<Rightarrow> Inl AssertFailed | Some n \<Rightarrow> Inr n)
            else Inl OutOfBounds)
      else Inl AssertFailed)"

definition put_node :: "'c fdevents \<Rightarrow> int \<Rightarrow> 'c fdnodes option \<Rightarrow> 'c fdevents" where
  "put_node ev fd n = ev\<lparr>hanlder_array := (hanlder_array ev)[nat fd := n]\<rparr>"

definition fdevents_register_fd ::
  "'c fdevents \<Rightarrow> int \<Rightarrow> event_handle \<Rightarrow> 'c \<Rightarrow> fault + 'c fdevents" where
  "fdevents_register_fd ev fd h ctx =
     (if 0 \<le> fd \<and> fd < max_fd ev
      then (if nat fd < length (hanlder_array ev)
            then (if hanlder_array ev ! nat fd = None
                  then Inr (put_node ev fd (Some \<lparr>node_fd = fd, handler_ctx = ctx, handler = h, events = 0\<rparr>))
                  else Inl AssertFailed)
            else Inl OutOfBounds)
      else Inl AssertFailed)"

definition fdevents_unregister_fd :: "'c fdevents \<Rightarrow> int \<Rightarrow> fault + 'c fdevents" where
  "fdevents_unregister_fd ev fd = andthen (get_node ev fd) (\<lambda>n. Inr (put_node ev fd None))"

definition fdevents_set_events :: "'c fdevents \<Rightarrow> int \<Rightarrow> u32 \<Rightarrow> fault + 'c fdevents" where
  "fdevents_set_events ev fd es =
     andthen (get_node ev fd) (\<lambda>n.
     let mask = es OR EPOLLERR OR EPOLLHUP;
         request = (if events n = 0 then EPOLL_CTL_ADD fd mask else EPOLL_CTL_MOD fd mask)
     in Inr ((put_node ev fd (Some (n\<lparr>events := es\<rparr>)))\<lparr>epoll_requests := epoll_requests ev @ [request]\<rparr>))"

definition fdevents_unset_event :: "'c fdevents \<Rightarrow> int \<Rightarrow> fault + 'c fdevents" where
  "fdevents_unset_event ev fd =
     andthen (get_node ev fd) (\<lambda>n.
     Inr ((put_node ev fd (Some (n\<lparr>events := 0\<rparr>)))
            \<lparr>epoll_requests := epoll_requests ev @ (if events n \<noteq> 0 then [EPOLL_CTL_DEL fd] else [])\<rparr>))"

definition fdevents_get_handle :: "'c fdevents \<Rightarrow> int \<Rightarrow> fault + event_handle" where
  "fdevents_get_handle ev fd = andthen (get_node ev fd) (\<lambda>n. Inr (handler n))"

definition fdevents_get_context :: "'c fdevents \<Rightarrow> int \<Rightarrow> fault + 'c" where
  "fdevents_get_context ev fd = andthen (get_node ev fd) (\<lambda>n. Inr (handler_ctx n))"

text \<open>The flag operations on a descriptor, on the flags \<open>fcntl\<close> reads and writes.\<close>

abbreviation FD_CLOEXEC :: u32 where "FD_CLOEXEC \<equiv> 1"
abbreviation O_NONBLOCK :: u32 where "O_NONBLOCK \<equiv> 2048"

definition fd_close_on_exec :: "u32 \<Rightarrow> u32" where "fd_close_on_exec fd_flags = fd_flags OR FD_CLOEXEC"
definition fd_set_nonblocking :: "u32 \<Rightarrow> u32" where "fd_set_nonblocking fd_flags = fd_flags OR O_NONBLOCK"
definition fd_clear_nonblocking :: "u32 \<Rightarrow> u32" where "fd_clear_nonblocking fd_flags = fd_flags AND NOT O_NONBLOCK"

section \<open>The table as a map\<close>

definition ev_wf :: "'c fdevents \<Rightarrow> bool" where
  "ev_wf ev \<longleftrightarrow> int (length (hanlder_array ev)) = max_fd ev \<and>
     (\<forall>k n. k < length (hanlder_array ev) \<longrightarrow> hanlder_array ev ! k = Some n \<longrightarrow> node_fd n = int k)"

definition node_of :: "'c fdevents \<Rightarrow> int \<Rightarrow> 'c fdnodes option" where
  "node_of ev f = (if 0 \<le> f \<and> f < max_fd ev then hanlder_array ev ! nat f else None)"

text \<open>The interest list of the kernel, as the documented effect of the requests.\<close>

fun epoll_apply :: "(int \<rightharpoonup> u32) \<Rightarrow> epoll_request \<Rightarrow> (int \<rightharpoonup> u32)" where
  "epoll_apply m (EPOLL_CTL_ADD f e) = (if m f = None then m(f \<mapsto> e) else m)"
| "epoll_apply m (EPOLL_CTL_MOD f e) = (if m f = None then m else m(f \<mapsto> e))"
| "epoll_apply m (EPOLL_CTL_DEL f) = m(f := None)"

definition interest :: "'c fdevents \<Rightarrow> int \<rightharpoonup> u32" where
  "interest ev = foldl epoll_apply (\<lambda>_. None) (epoll_requests ev)"

definition node_interest :: "'c fdnodes option \<Rightarrow> u32 option" where
  "node_interest n = (case n of None \<Rightarrow> None
     | Some n \<Rightarrow> if events n = 0 then None else Some (events n OR EPOLLERR OR EPOLLHUP))"

definition interest_ok :: "'c fdevents \<Rightarrow> bool" where
  "interest_ok ev \<longleftrightarrow> (\<forall>f. interest ev f = node_interest (node_of ev f))"

lemma get_node_iff: "ev_wf ev \<Longrightarrow> get_node ev f = Inr n \<longleftrightarrow> node_of ev f = Some n"
  by (auto simp: get_node_def node_of_def ev_wf_def split: option.splits)

lemma get_node_fault: "ev_wf ev \<Longrightarrow> get_node ev f = Inl e \<longleftrightarrow> node_of ev f = None \<and> e = AssertFailed"
  by (auto simp: get_node_def node_of_def ev_wf_def split: option.splits)

lemma node_of_fd: "ev_wf ev \<Longrightarrow> node_of ev f = Some n \<Longrightarrow> node_fd n = f"
  by (auto simp: node_of_def ev_wf_def split: if_splits) (metis int_nat_eq nat_int zless_nat_eq_int_zless)

lemma nth_update: "k < length xs \<Longrightarrow> xs[i := x] ! k = (if k = i then x else xs ! k)"
  by simp

lemma put_node_wf:
  "ev_wf ev \<Longrightarrow> (case n of None \<Rightarrow> True | Some m \<Rightarrow> 0 \<le> f \<and> node_fd m = f) \<Longrightarrow> ev_wf (put_node ev f n)"
  by (auto simp: ev_wf_def put_node_def nth_update split: option.splits if_splits)

lemma node_of_put:
  "ev_wf ev \<Longrightarrow> 0 \<le> f \<Longrightarrow> f < max_fd ev \<Longrightarrow> node_of (put_node ev f n) = (node_of ev)(f := n)"
  by (rule ext) (auto simp: node_of_def put_node_def ev_wf_def nth_list_update nat_eq_iff)

lemma put_node_fields [simp]:
  "max_fd (put_node ev f n) = max_fd ev" "epoll_requests (put_node ev f n) = epoll_requests ev"
  by (simp_all add: put_node_def)

lemma ev_wf_requests [simp]:
  "ev_wf (ev\<lparr>epoll_requests := r\<rparr>) = ev_wf ev" "node_of (ev\<lparr>epoll_requests := r\<rparr>) = node_of ev"
  by (simp_all add: ev_wf_def node_of_def fun_eq_iff)

lemma node_of_range: "node_of ev f = Some n \<Longrightarrow> 0 \<le> f \<and> f < max_fd ev"
  by (simp add: node_of_def split: if_splits)

lemma interest_step: "interest (ev\<lparr>epoll_requests := epoll_requests ev @ [r]\<rparr>) = epoll_apply (interest ev) r"
  by (simp add: interest_def)

lemma interest_put [simp]: "interest (put_node ev f n) = interest ev"
  by (simp add: interest_def)

section \<open>What the operations do\<close>

lemma fdevent_initialize_ok:
  "0 \<le> n \<Longrightarrow> fdevent_initialize epoll_create n = Some ev \<Longrightarrow>
   ev_wf ev \<and> max_fd ev = n \<and> node_of ev = (\<lambda>_. None) \<and> interest_ok ev"
  by (auto simp: fdevent_initialize_def ev_wf_def node_of_def interest_ok_def interest_def node_interest_def
      fun_eq_iff split: if_splits)

lemma register_ok [returns_rules]:
  assumes "ev_wf ev" and "0 \<le> f" and "f < max_fd ev" and "node_of ev f = None"
  shows "returns (fdevents_register_fd ev f h c) (\<lambda>ev'. ev_wf ev' \<and> max_fd ev' = max_fd ev \<and>
    node_of ev' = (node_of ev)(f \<mapsto> \<lparr>node_fd = f, handler_ctx = c, handler = h, events = 0\<rparr>) \<and>
    interest ev' = interest ev)"
  using assms put_node_wf [OF assms(1), of f "Some \<lparr>node_fd = f, handler_ctx = c, handler = h, events = 0\<rparr>"]
  by (simp add: fdevents_register_fd_def node_of_put) (simp add: node_of_def ev_wf_def nat_less_iff)

lemma unregister_ok [returns_rules]:
  assumes "ev_wf ev" and "node_of ev f = Some n"
  shows "returns (fdevents_unregister_fd ev f) (\<lambda>ev'. ev_wf ev' \<and> max_fd ev' = max_fd ev \<and>
    node_of ev' = (node_of ev)(f := None) \<and> interest ev' = interest ev)"
  using assms get_node_iff [OF assms(1), of f n] node_of_range [OF assms(2)] put_node_wf [OF assms(1), of f None]
  by (simp add: fdevents_unregister_fd_def node_of_put)

lemma set_events_ok [returns_rules]:
  assumes "ev_wf ev" and "node_of ev f = Some n"
  shows "returns (fdevents_set_events ev f es) (\<lambda>ev'. ev_wf ev' \<and> max_fd ev' = max_fd ev \<and>
    node_of ev' = (node_of ev)(f \<mapsto> n\<lparr>events := es\<rparr>) \<and>
    interest ev' = epoll_apply (interest ev)
      (if events n = 0 then EPOLL_CTL_ADD f (es OR EPOLLERR OR EPOLLHUP)
       else EPOLL_CTL_MOD f (es OR EPOLLERR OR EPOLLHUP)))"
  using assms get_node_iff [OF assms(1), of f n] node_of_range [OF assms(2)] node_of_fd [OF assms]
    put_node_wf [OF assms(1), of f "Some (n\<lparr>events := es\<rparr>)"]
  by (simp add: fdevents_set_events_def Let_def node_of_put interest_def)

lemma unset_event_ok [returns_rules]:
  assumes "ev_wf ev" and "node_of ev f = Some n"
  shows "returns (fdevents_unset_event ev f) (\<lambda>ev'. ev_wf ev' \<and> max_fd ev' = max_fd ev \<and>
    node_of ev' = (node_of ev)(f \<mapsto> n\<lparr>events := 0\<rparr>) \<and>
    interest ev' = (if events n = 0 then interest ev else epoll_apply (interest ev) (EPOLL_CTL_DEL f)))"
  using assms get_node_iff [OF assms(1), of f n] node_of_range [OF assms(2)] node_of_fd [OF assms]
    put_node_wf [OF assms(1), of f "Some (n\<lparr>events := 0\<rparr>)"]
  by (simp add: fdevents_unset_event_def node_of_put interest_def)

lemma lookup_ok:
  assumes "ev_wf ev" and "node_of ev f = Some n"
  shows "fdevents_get_handle ev f = Inr (handler n)" and "fdevents_get_context ev f = Inr (handler_ctx n)"
  using get_node_iff [OF assms(1), of f n] assms(2)
  by (simp_all add: fdevents_get_handle_def fdevents_get_context_def)

lemma lookup_fault:
  assumes "ev_wf ev" and "node_of ev f = None"
  shows "fdevents_get_handle ev f = Inl AssertFailed" and "fdevents_get_context ev f = Inl AssertFailed"
  using get_node_fault [OF assms(1), of f AssertFailed] assms(2)
  by (simp_all add: fdevents_get_handle_def fdevents_get_context_def)

section \<open>The interface of an event table\<close>

text \<open>
  What the worker relies on: a table of nodes with an invariant, where registering a free descriptor
  and unregistering a used one succeed and change no other entry.
\<close>

locale event_table =
  fixes inv :: "'t \<Rightarrow> bool"
    and entry_of :: "'t \<Rightarrow> int \<Rightarrow> 'n option"
    and bound :: "'t \<Rightarrow> int"
    and register :: "'t \<Rightarrow> int \<Rightarrow> 'n \<Rightarrow> fault + 't"
    and unregister :: "'t \<Rightarrow> int \<Rightarrow> fault + 't"
    and fits :: "int \<Rightarrow> 'n \<Rightarrow> bool"
  assumes register_law: "inv t \<Longrightarrow> 0 \<le> f \<Longrightarrow> f < bound t \<Longrightarrow> entry_of t f = None \<Longrightarrow> fits f n \<Longrightarrow>
      returns (register t f n) (\<lambda>t'. inv t' \<and> bound t' = bound t \<and> entry_of t' = (entry_of t)(f \<mapsto> n))"
    and unregister_law: "inv t \<Longrightarrow> entry_of t f = Some n \<Longrightarrow>
      returns (unregister t f) (\<lambda>t'. inv t' \<and> bound t' = bound t \<and> entry_of t' = (entry_of t)(f := None))"
    and range_law: "inv t \<Longrightarrow> entry_of t f = Some n \<Longrightarrow> 0 \<le> f \<and> f < bound t"
begin

lemma register_unregister:
  assumes "inv t" and "0 \<le> f" and "f < bound t" and "entry_of t f = None" and "fits f n"
  shows "returns (andthen (register t f n) (\<lambda>t'. unregister t' f))
    (\<lambda>t'. inv t' \<and> bound t' = bound t \<and> entry_of t' = entry_of t)"
  unfolding returns_andthen
proof (rule returns_mono [OF register_law [OF assms]])
  fix t1 assume t1: "inv t1 \<and> bound t1 = bound t \<and> entry_of t1 = (entry_of t)(f \<mapsto> n)"
  then show "returns (unregister t1 f) (\<lambda>t'. inv t' \<and> bound t' = bound t \<and> entry_of t' = entry_of t)"
    by (intro returns_mono [OF unregister_law [of t1 f n]]) (use assms(4) in auto)
qed

text \<open>Descriptors accepted one after the other end up with one entry each.\<close>

lemma register_all:
  "inv t \<Longrightarrow> distinct (map fst fs) \<Longrightarrow>
   \<forall>(f, n) \<in> set fs. 0 \<le> f \<and> f < bound t \<and> entry_of t f = None \<and> fits f n \<Longrightarrow>
   returns (foldl (\<lambda>m (f, n). andthen m (\<lambda>t. register t f n)) (Inr t) fs)
     (\<lambda>t'. inv t' \<and> bound t' = bound t \<and> entry_of t' = entry_of t ++ map_of fs)"
proof (induction fs rule: rev_induct)
  case (snoc x fs)
  obtain f n where x: "x = (f, n)" by (cases x)
  have ih: "returns (foldl (\<lambda>m (f, n). andthen m (\<lambda>t. register t f n)) (Inr t) fs)
     (\<lambda>t'. inv t' \<and> bound t' = bound t \<and> entry_of t' = entry_of t ++ map_of fs)"
    using snoc by auto
  have nf: "map_of fs f = None" using snoc.prems x by (auto simp: map_of_eq_None_iff)
  have new: "(entry_of t ++ map_of fs) f = None" "0 \<le> f" "f < bound t" "fits f n" "map_of fs f = None"
    using snoc.prems x nf by (simp_all add: map_add_def)
  have upd: "(m ++ map_of fs)(f \<mapsto> n) = m ++ map_of (fs @ [(f, n)])" for m :: "int \<Rightarrow> 'n option"
    using new(5) by (auto simp: fun_eq_iff map_add_def split: option.splits)
  show ?case
    unfolding x foldl_append foldl.simps prod.case returns_andthen
    by (rule returns_mono [OF ih], rule returns_mono [OF register_law [where n = n and f = f]])
      (use new upd in \<open>auto simp: map_add_def split: option.splits\<close>)
qed simp

end

definition register_node :: "'c fdevents \<Rightarrow> int \<Rightarrow> 'c fdnodes \<Rightarrow> fault + 'c fdevents" where
  "register_node ev f n = fdevents_register_fd ev f (handler n) (handler_ctx n)"

interpretation handlers: event_table ev_wf node_of max_fd register_node fdevents_unregister_fd
  "\<lambda>f n. node_fd n = f \<and> events n = 0"
proof unfold_locales
  fix ev :: "'c fdevents" and f :: int and n :: "'c fdnodes"
  assume *: "ev_wf ev" "0 \<le> f" "f < max_fd ev" "node_of ev f = None" "node_fd n = f \<and> events n = 0"
  then have "n = \<lparr>node_fd = f, handler_ctx = handler_ctx n, handler = handler n, events = 0\<rparr>" by simp
  with register_ok [OF *(1-4), of "handler n" "handler_ctx n"]
  show "returns (register_node ev f n) (\<lambda>ev'. ev_wf ev' \<and> max_fd ev' = max_fd ev \<and> node_of ev' = (node_of ev)(f \<mapsto> n))"
    unfolding register_node_def by (auto simp: returns_iff)
next
  fix ev :: "'c fdevents" and f :: int and n :: "'c fdnodes"
  assume "ev_wf ev" "node_of ev f = Some n"
  from unregister_ok [OF this]
  show "returns (fdevents_unregister_fd ev f) (\<lambda>ev'. ev_wf ev' \<and> max_fd ev' = max_fd ev \<and> node_of ev' = (node_of ev)(f := None))"
    by (auto simp: returns_iff)
qed (simp add: node_of_range)

section \<open>The interest list follows the table\<close>

text \<open>
  The operations on the table; \<open>Close_fd\<close> is the pair in which the program gives a descriptor up, unset and then unregistered.
\<close>

datatype 'c table_op =
    Register int event_handle 'c
  | Set_events int u32
  | Unset_event int
  | Unregister int
  | Close_fd int

fun table_step :: "'c fdevents \<Rightarrow> 'c table_op \<Rightarrow> fault + 'c fdevents" where
  "table_step ev (Register f h c) = fdevents_register_fd ev f h c"
| "table_step ev (Set_events f es) = fdevents_set_events ev f es"
| "table_step ev (Unset_event f) = fdevents_unset_event ev f"
| "table_step ev (Unregister f) = fdevents_unregister_fd ev f"
| "table_step ev (Close_fd f) = andthen (fdevents_unset_event ev f) (\<lambda>ev1. fdevents_unregister_fd ev1 f)"

text \<open>
  The orderly use of the table: events are set to a mask that is not empty, and a descriptor is unregistered only when its
  events are unset.
\<close>

fun orderly_op :: "'c fdevents \<Rightarrow> 'c table_op \<Rightarrow> bool" where
  "orderly_op ev (Set_events f es) \<longleftrightarrow> es \<noteq> 0"
| "orderly_op ev (Unregister f) \<longleftrightarrow> (case node_of ev f of None \<Rightarrow> True | Some n \<Rightarrow> events n = 0)"
| "orderly_op ev _ \<longleftrightarrow> True"

fun orderly :: "'c fdevents \<Rightarrow> 'c table_op list \<Rightarrow> bool" where
  "orderly ev [] \<longleftrightarrow> True"
| "orderly ev (x # xs) \<longleftrightarrow> orderly_op ev x \<and> (\<forall>ev1. table_step ev x = Inr ev1 \<longrightarrow> orderly ev1 xs)"

fun table_run :: "'c fdevents \<Rightarrow> 'c table_op list \<Rightarrow> fault + 'c fdevents" where
  "table_run ev [] = Inr ev"
| "table_run ev (x # xs) = andthen (table_step ev x) (\<lambda>ev1. table_run ev1 xs)"

definition synced :: "'c fdevents \<Rightarrow> bool" where
  "synced ev \<longleftrightarrow> ev_wf ev \<and> interest_ok ev"

lemma or_mask_nonzero: "(es :: u32) OR EPOLLERR OR EPOLLHUP \<noteq> 0"
  by (simp add: bit_eq_iff bit_simps) (rule exI [of _ 3], simp add: bit_simps)

lemma node_interest_simps [simp]:
  "node_interest None = None"
  "node_interest (Some n) = (if events n = 0 then None else Some (events n OR EPOLLERR OR EPOLLHUP))"
  by (simp_all add: node_interest_def)

lemma synced_register:
  assumes "synced ev" and "fdevents_register_fd ev f h c = Inr ev'"
  shows "synced ev'"
proof -
  have ok: "ev_wf ev" "0 \<le> f" "f < max_fd ev" "node_of ev f = None"
    using assms by (auto simp: synced_def fdevents_register_fd_def node_of_def split: if_splits)
  with register_ok [OF ok, of h c] assms show ?thesis by (auto simp: synced_def interest_ok_def)
qed

lemma synced_set:
  assumes "synced ev" and "fdevents_set_events ev f es = Inr ev'" and "es \<noteq> 0"
  shows "synced ev'"
proof -
  have wf: "ev_wf ev" and ok: "interest_ok ev" using assms(1) by (auto simp: synced_def)
  obtain n where n: "node_of ev f = Some n"
    using assms(2) get_node_iff [OF wf] by (auto simp: fdevents_set_events_def andthen_Inr_iff)
  have "interest ev f = (if events n = 0 then None else Some (events n OR EPOLLERR OR EPOLLHUP))"
    using ok n by (simp add: interest_ok_def)
  with set_events_ok [OF wf n, of es] assms(2,3) ok show ?thesis
    by (auto simp: synced_def interest_ok_def)
qed

lemma synced_unset:
  assumes "synced ev" and "fdevents_unset_event ev f = Inr ev'"
  shows "synced ev' \<and> (\<forall>n. node_of ev' f = Some n \<longrightarrow> events n = 0)"
proof -
  have wf: "ev_wf ev" and ok: "interest_ok ev" using assms(1) by (auto simp: synced_def)
  obtain n where n: "node_of ev f = Some n"
    using assms(2) get_node_iff [OF wf] by (auto simp: fdevents_unset_event_def andthen_Inr_iff)
  have "interest ev f = (if events n = 0 then None else Some (events n OR EPOLLERR OR EPOLLHUP))"
    using ok n by (simp add: interest_ok_def)
  with unset_event_ok [OF wf n] assms(2) ok show ?thesis
    by (auto simp: synced_def interest_ok_def)
qed

lemma synced_unregister:
  assumes "synced ev" and "fdevents_unregister_fd ev f = Inr ev'" and "\<forall>n. node_of ev f = Some n \<longrightarrow> events n = 0"
  shows "synced ev'"
proof -
  have wf: "ev_wf ev" and ok: "interest_ok ev" using assms(1) by (auto simp: synced_def)
  obtain n where n: "node_of ev f = Some n"
    using assms(2) get_node_iff [OF wf] by (auto simp: fdevents_unregister_fd_def andthen_Inr_iff)
  with unregister_ok [OF wf n] assms(2,3) ok show ?thesis
    by (auto simp: synced_def interest_ok_def)
qed

lemma synced_step:
  assumes "synced ev" and "table_step ev x = Inr ev'" and "orderly_op ev x"
  shows "synced ev'"
proof (cases x)
  case (Unregister f)
  then show ?thesis using assms synced_unregister by fastforce
next
  case (Close_fd f)
  then obtain ev1 where ev1: "fdevents_unset_event ev f = Inr ev1" "fdevents_unregister_fd ev1 f = Inr ev'"
    using assms(2) by (auto simp: andthen_Inr_iff)
  with synced_unset [OF assms(1) ev1(1)] show ?thesis using synced_unregister by blast
qed (use assms in \<open>auto dest: synced_register synced_set synced_unset\<close>)

text \<open>An operation that is not orderly leaves a descriptor in the interest list that the table does not account for.\<close>

lemma disorderly_step:
  assumes "synced ev" and "table_step ev x = Inr ev'" and "\<not> orderly_op ev x"
  shows "\<exists>f. interest ev' f \<noteq> None \<and> node_interest (node_of ev' f) = None"
proof -
  have wf: "ev_wf ev" and ok: "interest_ok ev" using assms(1) by (auto simp: synced_def)
  from assms(3) consider (mask) f where "x = Set_events f 0"
    | (bare) f n where "x = Unregister f" "node_of ev f = Some n" "events n \<noteq> 0"
    by (cases x) (auto split: option.splits)
  then show ?thesis
  proof cases
    case mask
    then obtain n where n: "node_of ev f = Some n"
      using assms(2) get_node_iff [OF wf] by (auto simp: fdevents_set_events_def andthen_Inr_iff)
    have "interest ev f = node_interest (Some n)" using ok n unfolding interest_ok_def by metis
    with set_events_ok [OF wf n, of 0] assms(2) mask show ?thesis by (intro exI [of _ f]) (auto split: if_splits)
  next
    case bare
    have "interest ev f = node_interest (Some n)" using ok bare(2) unfolding interest_ok_def by metis
    with unregister_ok [OF wf bare(2)] assms(2) bare(1,3) show ?thesis by (intro exI [of _ f]) auto
  qed
qed

lemma synced_run:
  "synced ev \<Longrightarrow> table_run ev xs = Inr ev' \<Longrightarrow> orderly ev xs \<Longrightarrow> synced ev'"
proof (induction xs arbitrary: ev)
  case (Cons x xs)
  then obtain ev1 where "table_step ev x = Inr ev1" "table_run ev1 xs = Inr ev'"
    by (auto simp: andthen_Inr_iff)
  with Cons synced_step [of ev x ev1] show ?case by auto
qed simp

section \<open>Properties\<close>

text \<open>
  C23: In an orderly use of the table, as long as no assertion fails, the descriptors the kernel watches, and the events it
  watches them for, are exactly those of the registered nodes with events set, error and hang-up always included: no closed
  descriptor stays in the interest list. Orderly means that masks are not empty and that a descriptor is unset before it is
  unregistered, which is how the program uses the table. Nothing less will do: after an orderly use, one more operation keeps
  the two in step if and only if it is orderly.
\<close>

theorem fdevents_interest_in_sync:
  assumes "fdevent_initialize epoll_create n = Some ev" and "0 \<le> n"
    and "table_run ev ops = Inr ev1" and "orderly ev ops" and "table_step ev1 x = Inr ev2"
  shows "(\<forall>f. interest ev1 f = node_interest (node_of ev1 f)) \<and>
    ((\<forall>f. interest ev2 f = node_interest (node_of ev2 f)) \<longleftrightarrow> orderly_op ev1 x)"
proof -
  have "synced ev" using fdevent_initialize_ok [OF assms(2,1)] by (simp add: synced_def)
  note s = synced_run [OF this assms(3,4)]
  show ?thesis
    using s synced_step [OF s assms(5)] disorderly_step [OF s assms(5)] unfolding synced_def interest_ok_def by metis
qed

theorem fdevents_interest_in_sync_witness:
  "\<exists>ev ev1 ev2. fdevent_initialize (\<lambda>_. 3) 8 = Some ev \<and>
     table_run ev [Register 5 Connection_event_handle (), Set_events 5 EPOLLIN] = Inr ev1 \<and>
     table_step ev1 (Unregister 5) = Inr ev2 \<and>
     interest ev1 5 = node_interest (node_of ev1 5) \<and> \<not> (\<forall>f. interest ev2 f = node_interest (node_of ev2 f))"
proof -
  obtain ev where ev: "fdevent_initialize (\<lambda>_. 3) 8 = Some (ev :: unit fdevents)"
    by (simp add: fdevent_initialize_def)
  note init = fdevent_initialize_ok [OF _ ev, simplified]
  obtain ev0 where ev0: "fdevents_register_fd ev 5 Connection_event_handle () = Inr ev0" "ev_wf ev0"
      "\<exists>m. node_of ev0 5 = Some m"
    using register_ok [of ev 5 Connection_event_handle "()"] init by (auto simp: returns_iff)
  then obtain m where m: "node_of ev0 5 = Some m" by blast
  obtain ev1 where ev1: "fdevents_set_events ev0 5 EPOLLIN = Inr ev1" "ev_wf ev1" "node_of ev1 5 = Some (m\<lparr>events := EPOLLIN\<rparr>)"
    using set_events_ok [OF ev0(2) m, of EPOLLIN] by (auto simp: returns_iff)
  obtain ev2 where ev2: "fdevents_unregister_fd ev1 5 = Inr ev2"
    using unregister_ok [OF ev1(2,3)] by (auto simp: returns_iff)
  have run: "table_run ev [Register 5 Connection_event_handle (), Set_events 5 EPOLLIN] = Inr ev1"
      "orderly ev [Register 5 Connection_event_handle (), Set_events 5 EPOLLIN]" "table_step ev1 (Unregister 5) = Inr ev2"
    using ev0(1) ev1(1) ev2 by simp_all
  from fdevents_interest_in_sync [OF ev _ run] ev run ev1(3) show ?thesis by auto
qed

end
