(* ===== verification/Os.thy ===== *)
theory Os
  imports Response
begin

text \<open>
  The operating system as the handlers see it. Every system call the code makes is answered by an
  arbitrary function of the number of calls made so far (\<open>os_calls\<close>), so that one environment stands
  for one possible run of the system; what reaches the outside world is recorded in \<open>trace\<close>.
\<close>

datatype io_error = EINTR | EAGAIN | EPIPE | ECONNRESET | Other_io_error

datatype sys_event =
    Sent int string
  | Shut_wr int
  | Closed int

record os_env =
  os_calls :: nat
  os_fionread :: "nat \<Rightarrow> u32 option"
  os_read :: "nat \<Rightarrow> nat \<Rightarrow> io_error + string"
  os_write :: "nat \<Rightarrow> string \<Rightarrow> io_error + nat"
  os_shutdown :: "nat \<Rightarrow> bool"
  os_open :: "nat \<Rightarrow> string \<Rightarrow> int"
  os_mmap :: "nat \<Rightarrow> string \<Rightarrow> nat \<Rightarrow> nat \<Rightarrow> string option"
  os_time :: "nat \<Rightarrow> int"
  os_recvfd :: "nat \<Rightarrow> io_error + int option"
  os_files :: file_system
  trace :: "sys_event list"

text \<open>
  The calls. \<open>read\<close> answers with the bytes received, none for the end of the stream; \<open>write\<close> and
  \<open>writev\<close> with the number of bytes taken, which are recorded; \<open>ioctl(FIONREAD)\<close> fails with \<open>None\<close>;
  \<open>shutdown\<close> succeeds with \<open>True\<close>; \<open>recvmsg\<close> answers with a descriptor or, at the end, none.
\<close>

definition sys_tick :: "os_env \<Rightarrow> os_env" where
  "sys_tick os = os\<lparr>os_calls := Suc (os_calls os)\<rparr>"

definition sys_emit :: "sys_event list \<Rightarrow> os_env \<Rightarrow> os_env" where
  "sys_emit es os = os\<lparr>trace := trace os @ es\<rparr>"

definition sys_fionread :: "os_env \<Rightarrow> u32 option \<times> os_env" where
  "sys_fionread os = (os_fionread os (os_calls os), sys_tick os)"

definition sys_read :: "os_env \<Rightarrow> nat \<Rightarrow> (io_error + string) \<times> os_env" where
  "sys_read os n = (os_read os (os_calls os) n, sys_tick os)"

definition sys_write :: "os_env \<Rightarrow> int \<Rightarrow> string \<Rightarrow> (io_error + nat) \<times> os_env" where
  "sys_write os fd bs =
     (let r = os_write os (os_calls os) bs
      in (r, case r of Inl e \<Rightarrow> sys_tick os | Inr n \<Rightarrow> sys_emit [Sent fd (take n bs)] (sys_tick os)))"

definition sys_shutdown :: "os_env \<Rightarrow> int \<Rightarrow> bool \<times> os_env" where
  "sys_shutdown os fd = (os_shutdown os (os_calls os), sys_emit [Shut_wr fd] (sys_tick os))"

definition sys_close :: "os_env \<Rightarrow> int \<Rightarrow> os_env" where
  "sys_close os fd = sys_emit [Closed fd] (sys_tick os)"

definition sys_open :: "os_env \<Rightarrow> string \<Rightarrow> int \<times> os_env" where
  "sys_open os name = (os_open os (os_calls os) name, sys_tick os)"

definition sys_mmap :: "os_env \<Rightarrow> string \<Rightarrow> nat \<Rightarrow> nat \<Rightarrow> string option \<times> os_env" where
  "sys_mmap os name off len = (os_mmap os (os_calls os) name off len, sys_tick os)"

definition sys_time :: "os_env \<Rightarrow> int \<times> os_env" where
  "sys_time os = (os_time os (os_calls os), sys_tick os)"

definition sys_recvfd :: "os_env \<Rightarrow> (io_error + int option) \<times> os_env" where
  "sys_recvfd os = (os_recvfd os (os_calls os), sys_tick os)"

text \<open>The documented behaviour the lemmas rely on.\<close>

definition reads_fit :: "os_env \<Rightarrow> bool" where
  "reads_fit os \<longleftrightarrow> (\<forall>k n bs. os_read os k n = Inr bs \<longrightarrow> length bs \<le> n)"

definition writes_fit :: "os_env \<Rightarrow> bool" where
  "writes_fit os \<longleftrightarrow> (\<forall>k bs n. os_write os k bs = Inr n \<longrightarrow> n \<le> length bs)"

definition maps_files :: "(string \<Rightarrow> string) \<Rightarrow> os_env \<Rightarrow> bool" where
  "maps_files contents os \<longleftrightarrow>
     (\<forall>k f off len bs. os_mmap os k f off len = Some bs \<longrightarrow> bs = take len (drop off (contents f)))"

text \<open>Two environments that differ only in the calls made and the trace.\<close>

definition same_os :: "os_env \<Rightarrow> os_env \<Rightarrow> bool" where
  "same_os os os' \<longleftrightarrow> os_fionread os' = os_fionread os \<and> os_read os' = os_read os \<and> os_write os' = os_write os \<and>
     os_shutdown os' = os_shutdown os \<and> os_open os' = os_open os \<and> os_mmap os' = os_mmap os \<and>
     os_time os' = os_time os \<and> os_recvfd os' = os_recvfd os \<and> os_files os' = os_files os"

lemma same_os_refl [simp]: "same_os os os"
  by (simp add: same_os_def)

lemma same_os_trans: "same_os a b \<Longrightarrow> same_os b c \<Longrightarrow> same_os a c"
  by (simp add: same_os_def)

lemma same_os_tick [simp]: "same_os os (sys_tick os') = same_os os os'"
  by (simp add: same_os_def sys_tick_def)

lemma same_os_emit [simp]: "same_os os (sys_emit es os') = same_os os os'"
  by (simp add: same_os_def sys_emit_def)

lemma trace_simps [simp]:
  "trace (sys_tick os) = trace os" "trace (sys_emit es os) = trace os @ es"
  by (simp_all add: sys_tick_def sys_emit_def)

lemma same_os_facts:
  assumes "same_os os os'"
  shows "reads_fit os' = reads_fit os" and "writes_fit os' = writes_fit os"
    and "maps_files contents os' = maps_files contents os" and "os_files os' = os_files os"
  using assms by (simp_all add: same_os_def reads_fit_def writes_fit_def maps_files_def)

text \<open>The bytes sent on a descriptor.\<close>

fun sent_on :: "int \<Rightarrow> sys_event list \<Rightarrow> string" where
  "sent_on fd [] = []"
| "sent_on fd (Sent f bs # es) = (if f = fd then bs else []) @ sent_on fd es"
| "sent_on fd (_ # es) = sent_on fd es"

lemma sent_on_append [simp]: "sent_on fd (xs @ ys) = sent_on fd xs @ sent_on fd ys"
  by (induction fd xs rule: sent_on.induct) auto

text \<open>An environment for the witnesses: every call succeeds, \<open>read\<close> answers by \<open>rd\<close>.\<close>

definition sample_os :: "(nat \<Rightarrow> nat \<Rightarrow> io_error + string) \<Rightarrow> os_env" where
  "sample_os rd = \<lparr>os_calls = 0, os_fionread = (\<lambda>_. None), os_read = rd, os_write = (\<lambda>_ bs. Inr (length bs)),
     os_shutdown = (\<lambda>_. True), os_open = (\<lambda>_ _. 9), os_mmap = (\<lambda>_ _ _ _. None), os_time = (\<lambda>_. 0),
     os_recvfd = (\<lambda>_. Inr None), os_files = sample_fs, trace = []\<rparr>"

end
