(* ===== verification/Conn_Read.thy ===== *)
theory Conn_Read
  imports Os
begin

text \<open>
  The read side of a connection (\<open>src/connection.cpp\<close>, \<open>connection_handle_read\<close> and
  \<open>connection_handle_read_state\<close>): received bytes go into the read queue; when the blank line that ends
  a request head has arrived, the head is copied into \<open>request_content\<close>. The lemmas show that the scan
  over the chunks finds exactly the first CRLFCRLF of the received bytes, wherever chunk boundaries
  fall, and that only a read that fills a fresh block completely goes wrong.
\<close>

section \<open>The C code\<close>

text \<open>
  The result of \<open>connection_handle_read\<close>: -2 for an error, -1 to try again later, 0 for the end of the
  stream, or the number of bytes received.
\<close>

definition connection_handle_read :: "connection \<Rightarrow> os_env \<Rightarrow> fault + (int \<times> connection \<times> os_env)" where
  "connection_handle_read conn os =
     (let (avail, os1) = sys_fionread os;
          need_read_bytes = (case avail of None \<Rightarrow> 1024
             | Some v \<Rightarrow> if v = 0 \<or> v < 1024 then 1024 else v)
      in andthen (chunk_get_memory (readqueue conn) need_read_bytes) (\<lambda>(q, p).
         case p of
           None \<Rightarrow> Inl AssertFailed
         | Some (a, off) \<Rightarrow>
             let (res, os2) = sys_read os1 (unat need_read_bytes);
                 conn1 = conn\<lparr>readqueue := q, readable := False\<rparr>
             in case res of
                  Inl e \<Rightarrow>
                    if e = EINTR \<or> e = EAGAIN
                    then Inr (-1, if e = EINTR then conn1\<lparr>readable := True\<rparr> else conn1, os2)
                    else Inr (-2, conn1, os2)
                | Inr bs \<Rightarrow>
                    if length bs = 0 then Inr (0, conn1, os2)
                    else andthen (chunk_fill q a off bs) (\<lambda>q1.
                         andthen (chunk_commit_memory q1 (of_nat (length bs))) (\<lambda>q2.
                         Inr (int (length bs),
                              conn1\<lparr>readqueue := q2,
                                    readable := (of_nat (length bs) = need_read_bytes)\<rparr>, os2)))))"

definition target_string :: string where "target_string = [CR, LF, CR, LF]"

text \<open>Matching the rest of the target from byte \<open>j\<close> of one chunk.\<close>

datatype match_result = Found nat | Mismatch | More nat

function match_bytes :: "cptr \<Rightarrow> nat \<Rightarrow> nat \<Rightarrow> nat \<Rightarrow> fault + match_result" where
  "match_bytes p remaining_len j match_index =
     (if j < remaining_len
      then andthen (peek p j) (\<lambda>c.
           if c = target_string ! match_index
           then (if match_index + 1 \<ge> length target_string then Inr (Found (j + 1))
                 else match_bytes p remaining_len (j + 1) (match_index + 1))
           else Inr Mismatch)
      else Inr (More match_index))"
  by pat_completeness auto
termination by (relation "measure (\<lambda>(p, n, j, m). n - j)") auto

declare match_bytes.simps [simp del]

text \<open>The loop over \<open>cc\<close>, with fuel as in the loops of the chunk queue.\<close>

fun match_chunks :: "nat \<Rightarrow> chunkqueue \<Rightarrow> addr option \<Rightarrow> nat \<Rightarrow> nat \<Rightarrow> fault + (addr \<times> nat) option" where
  "match_chunks 0 q cc j match_index = Inl Diverges"
| "match_chunks (Suc n) q None j match_index = Inr None"
| "match_chunks (Suc n) q (Some a) j match_index = andthen (load_chunk q a) (\<lambda>c.
     andthen (match_bytes (ptr (mem c)) (unat (buffer_string_length (mem c))) j match_index) (\<lambda>r.
     case r of
       Found k \<Rightarrow> Inr (Some (a, k))
     | Mismatch \<Rightarrow> Inr None
     | More m \<Rightarrow> match_chunks n q (next_chunk c) 0 m))"

text \<open>The loop over the bytes of one chunk.\<close>

function scan_chunk :: "nat \<Rightarrow> chunkqueue \<Rightarrow> addr \<Rightarrow> chunk \<Rightarrow> nat \<Rightarrow> fault + (addr \<times> nat) option" where
  "scan_chunk fuel q a c index =
     (if index < unat (buffer_string_length (mem c))
      then andthen (peek (ptr (mem c)) index) (\<lambda>buf_c.
           if buf_c = CR
           then andthen (match_chunks fuel q (Some a) (index + 1) 1) (\<lambda>r.
                case r of Some found \<Rightarrow> Inr (Some found) | None \<Rightarrow> scan_chunk fuel q a c (index + 1))
           else scan_chunk fuel q a c (index + 1))
      else Inr None)"
  by pat_completeness auto
termination by (relation "measure (\<lambda>(f, q, a, c, i). unat (buffer_string_length (mem c)) - i)") auto

declare scan_chunk.simps [simp del]

fun find_head_end :: "nat \<Rightarrow> chunkqueue \<Rightarrow> addr option \<Rightarrow> fault + (addr \<times> nat) option" where
  "find_head_end 0 q p = Inl Diverges"
| "find_head_end (Suc n) q None = Inr None"
| "find_head_end (Suc n) q (Some a) = andthen (load_chunk q a) (\<lambda>c.
     if chunk_type c \<noteq> CHUNK_MEM then Inl AssertFailed
     else andthen (scan_chunk (Suc n) q a c 0) (\<lambda>r.
          case r of Some found \<Rightarrow> Inr (Some found) | None \<Rightarrow> find_head_end n q (next_chunk c)))"

text \<open>Copying the chunks up to the end of the head.\<close>

fun copy_head :: "nat \<Rightarrow> chunkqueue \<Rightarrow> addr option \<Rightarrow> addr \<Rightarrow> nat \<Rightarrow> buffer \<Rightarrow> fault + buffer" where
  "copy_head 0 q p last_chunk last_chunk_index b = Inl Diverges"
| "copy_head (Suc n) q None last_chunk last_chunk_index b = Inr b"
| "copy_head (Suc n) q (Some a) last_chunk last_chunk_index b = andthen (load_chunk q a) (\<lambda>c.
     let copy_len = (if a = last_chunk then of_nat last_chunk_index else buffer_string_length (mem c))
     in andthen (buffer_append_string_length b (ptr (mem c)) copy_len) (\<lambda>b1.
        if a = last_chunk then Inr b1 else copy_head n q (next_chunk c) last_chunk last_chunk_index b1))"

definition connection_check_head :: "server_config \<Rightarrow> connection \<Rightarrow> fault + connection" where
  "connection_check_head config conn =
     (let q = readqueue conn
      in andthen (find_head_end (Suc (brk q)) q (q_first q)) (\<lambda>found.
         case found of
           Some (last_chunk, last_chunk_index) \<Rightarrow>
             andthen (copy_head (Suc (brk q)) q (q_first q) last_chunk last_chunk_index
                        (buffer_reset (request_content (connection_request conn)))) (\<lambda>b.
             Inr (connection_set_state
                    (conn\<lparr>connection_request := (connection_request conn)\<lparr>request_content := b\<rparr>\<rparr>)
                    CON_STATE_REQUEST_END))
         | None \<Rightarrow>
             andthen (chunkqueue_length q) (\<lambda>len.
             if max_http_head_size config < len
             then Inr (connection_set_state (conn\<lparr>http_status := 414, keep_alive := False\<rparr>)
                         CON_STATE_HANDLE_REQUEST)
             else Inr conn)))"

definition connection_handle_read_state ::
  "server_config \<Rightarrow> int \<Rightarrow> connection \<Rightarrow> os_env \<Rightarrow> fault + (int \<times> connection \<times> os_env)" where
  "connection_handle_read_state config cur_ts conn os =
     (if \<not> readable conn then Inr (-1, conn, os)
      else andthen (connection_handle_read (conn\<lparr>active_read_ts := cur_ts\<rparr>) os) (\<lambda>(n, conn1, os1).
           if n = -2 then Inr (n, connection_set_state conn1 CON_STATE_ERROR, os1)
           else if n = -1 then Inr (-1, conn1, os1)
           else if n = 0
           then let (now, os2) = sys_time os1
                in Inr (n, (connection_set_state conn1 CON_STATE_CLOSE)
                             \<lparr>close_timeout_ts := now - (MINIHTTPD_CLOSE_TIMEOUT + 1)\<rparr>, os2)
           else andthen (connection_check_head config conn1) (\<lambda>conn2. Inr (n, conn2, os1))))"

section \<open>The scan over the chunks is a search in the received bytes\<close>

lemma is_prefix_of_iff: "is_prefix_of p s \<longleftrightarrow> take (length p) s = p \<and> length p \<le> length s"
  by (induction p s rule: is_prefix_of.induct) auto

lemma is_prefix_of_append: "is_prefix_of p s \<Longrightarrow> is_prefix_of p (s @ t)"
  by (simp add: is_prefix_of_iff)

lemma is_prefix_of_split:
  "length s < length p \<Longrightarrow> is_prefix_of p (s @ t) \<longleftrightarrow> is_prefix_of s p \<and> is_prefix_of (drop (length s) p) t"
proof (induction s arbitrary: p)
  case (Cons c s)
  then show ?case by (cases p) auto
qed simp

lemma length_target [simp]: "length target_string = 4"
  by (simp add: target_string_def)

lemma target_not_empty [simp]: "target_string \<noteq> []"
  by (simp add: target_string_def)

definition match_spec :: "nat \<Rightarrow> nat \<Rightarrow> string \<Rightarrow> match_result" where
  "match_spec j m t =
     (let p = drop m target_string
      in if is_prefix_of p t then Found (j + length p)
         else if is_prefix_of t p then More (m + length t) else Mismatch)"

lemma drop_nth_Cons: "m < length xs \<Longrightarrow> drop m xs = xs ! m # drop (Suc m) xs"
  by (rule Cons_nth_drop_Suc [symmetric])

text \<open>Strings held by memory chunks, as the scan sees them.\<close>

definition mem_holds :: "chunk \<Rightarrow> string \<Rightarrow> bool" where
  "mem_holds c s \<longleftrightarrow> chunk_type c = CHUNK_MEM \<and> ptr (mem c) \<noteq> None \<and> buffer_holds (mem c) s"

lemma mem_holds_length: "mem_holds c s \<Longrightarrow> unat (buffer_string_length (mem c)) = length s"
  by (simp add: mem_holds_def buffer_string_length_holds)

lemma mem_holds_peek:
  assumes "mem_holds c s" and "i < length s"
  shows "peek (ptr (mem c)) i = Inr (s ! i)"
proof -
  have "text_buffer (mem c) s" using assms by (auto simp: mem_holds_def intro: text_buffer_nonempty)
  with assms(2) show ?thesis by (simp add: text_buffer_peek)
qed

lemma match_bytes_spec:
  assumes "mem_holds c s" and "j \<le> length s" and "m < 4"
  shows "match_bytes (ptr (mem c)) (length s) j m = Inr (match_spec j m (drop j s))"
  using assms(2,3)
proof (induction "length s - j" arbitrary: j m)
  case 0
  then show ?case
    by (subst match_bytes.simps) (auto simp: match_spec_def Let_def is_prefix_of_iff)
next
  case (Suc n)
  then have j: "j < length s" by simp
  have ds: "drop j s = s ! j # drop (Suc j) s" using j by (rule drop_nth_Cons)
  have dt: "drop m target_string = target_string ! m # drop (Suc m) target_string"
    using Suc.prems by (intro drop_nth_Cons) simp
  show ?case
  proof (cases "s ! j = target_string ! m")
    case False
    then show ?thesis using j
      by (subst match_bytes.simps) (simp add: mem_holds_peek [OF assms(1)] match_spec_def Let_def ds dt)
  next
    case True
    show ?thesis
    proof (cases "m = 3")
      case True
      moreover have "drop 3 target_string = [target_string ! 3]" by (simp add: target_string_def)
      ultimately show ?thesis using \<open>s ! j = target_string ! m\<close> j
        by (subst match_bytes.simps) (simp add: mem_holds_peek [OF assms(1)] match_spec_def Let_def ds)
    next
      case False
      then have m: "Suc m < 4" using Suc.prems by simp
      have "match_bytes (ptr (mem c)) (length s) (Suc j) (Suc m) = Inr (match_spec (Suc j) (Suc m) (drop (Suc j) s))"
        by (rule Suc.hyps(1)) (use Suc.hyps(2) j m in auto)
      with True j m show ?thesis
        by (subst match_bytes.simps) (simp add: mem_holds_peek [OF assms(1)] match_spec_def Let_def ds dt)
    qed
  qed
qed

text \<open>A chain of memory chunks from \<open>p\<close> on: their addresses and their strings.\<close>

definition text_chain :: "chunkqueue \<Rightarrow> addr option \<Rightarrow> addr list \<Rightarrow> string list \<Rightarrow> bool" where
  "text_chain q p us ss \<longleftrightarrow> linked (cells q) p us \<and>
     list_all2 (\<lambda>a s. \<exists>c. cells q a = Some c \<and> mem_holds c s) us ss"

lemma text_chain_Nil: "text_chain q p [] ss \<longleftrightarrow> p = None \<and> ss = []"
  by (auto simp: text_chain_def)

lemma text_chain_Cons:
  "text_chain q p (a # us) ss \<longleftrightarrow> p = Some a \<and> (\<exists>c s ss'. ss = s # ss' \<and> cells q a = Some c \<and> mem_holds c s \<and>
     text_chain q (next_chunk c) us ss')"
  by (auto simp: text_chain_def list_all2_Cons1)

text \<open>\<open>at_offset us ss a k n\<close>: byte \<open>k\<close> of chunk \<open>a\<close> is byte \<open>n\<close> of the whole text.\<close>

definition at_offset :: "addr list \<Rightarrow> string list \<Rightarrow> addr \<Rightarrow> nat \<Rightarrow> nat \<Rightarrow> bool" where
  "at_offset us ss a k n \<longleftrightarrow> (\<exists>i < length us. us ! i = a \<and> k \<le> length (ss ! i) \<and> n = length (concat (take i ss)) + k)"

lemma at_offset_here: "k \<le> length s \<Longrightarrow> at_offset (a # us) (s # ss) a k k"
  by (auto simp: at_offset_def)

lemma at_offset_later: "at_offset us ss a k n \<Longrightarrow> at_offset (b # us) (s # ss) a k (length s + n)"
proof -
  assume "at_offset us ss a k n"
  then obtain i where "i < length us" "us ! i = a" "k \<le> length (ss ! i)" "n = length (concat (take i ss)) + k"
    by (auto simp: at_offset_def)
  then show ?thesis unfolding at_offset_def by (intro exI [of _ "Suc i"]) simp
qed

lemma match_chunks_spec:
  assumes "text_chain q (Some a) (a # us) (s # ss)" and "j \<le> length s" and "m < 4" and "Suc (length us) < n"
  shows "if is_prefix_of (drop m target_string) (drop j s @ concat ss)
         then \<exists>b k. match_chunks n q (Some a) j m = Inr (Some (b, k)) \<and>
                at_offset (a # us) (s # ss) b k (j + (4 - m))
         else match_chunks n q (Some a) j m = Inr None"
  using assms
proof (induction us arbitrary: a s ss j m n)
  case Nil
  then obtain c n' where c: "cells q a = Some c" "mem_holds c s" "ss = []" "next_chunk c = None" "n = Suc (Suc n')"
    by (cases n; cases "n - 1") (auto simp: text_chain_Cons text_chain_Nil)
  show ?case
    using Nil.prems(2,3) c match_bytes_spec [OF c(2) Nil.prems(2,3)]
    by (auto simp: load_chunk_def mem_holds_length [OF c(2)] match_spec_def Let_def is_prefix_of_iff
        intro!: at_offset_here)
next
  case (Cons b us)
  then obtain c n' s' ss' where c: "cells q a = Some c" "mem_holds c s" "ss = s' # ss'" "n = Suc n'"
      "next_chunk c = Some b" "text_chain q (Some b) (b # us) (s' # ss')"
    by (cases n) (auto simp: text_chain_Cons)
  let ?p = "drop m target_string" and ?t = "drop j s"
  have step: "match_chunks n q (Some a) j m = (case match_spec j m ?t of Found k \<Rightarrow> Inr (Some (a, k))
      | Mismatch \<Rightarrow> Inr None | More m' \<Rightarrow> match_chunks n' q (Some b) 0 m')"
    using match_bytes_spec [OF c(2) Cons.prems(2,3)] c(1,4,5)
    by (simp add: load_chunk_def mem_holds_length [OF c(2)])
  show ?case
  proof (cases "length ?t < length ?p")
    case False
    then have eq: "is_prefix_of ?p (?t @ concat ss) = is_prefix_of ?p ?t" by (auto simp: is_prefix_of_iff)
    show ?thesis
    proof (cases "is_prefix_of ?p ?t")
      case True
      then have "4 - m \<le> length s - j" by (simp add: is_prefix_of_iff)
      then have "j + (4 - m) \<le> length s" using Cons.prems(2) by linarith
      then have "at_offset (a # b # us) (s # ss) a (j + (4 - m)) (j + (4 - m))" by (rule at_offset_here)
      with True eq show ?thesis unfolding step by (auto simp: match_spec_def)
    next
      case no: False
      then have "\<not> is_prefix_of ?t ?p" using False by (auto simp: is_prefix_of_iff)
      with no eq show ?thesis unfolding step by (simp add: match_spec_def)
    qed
  next
    case True
    then have not: "\<not> is_prefix_of ?p ?t" by (simp add: is_prefix_of_iff)
    have split: "is_prefix_of ?p (?t @ concat ss) \<longleftrightarrow>
        is_prefix_of ?t ?p \<and> is_prefix_of (drop (m + length ?t) target_string) (concat ss)"
      using is_prefix_of_split [OF True, of "concat ss"] by (simp add: add.commute)
    have m': "m + length ?t < 4" using True by simp
    have ih: "if is_prefix_of (drop (m + length ?t) target_string) (concat ss)
         then \<exists>d k. match_chunks n' q (Some b) 0 (m + length ?t) = Inr (Some (d, k)) \<and>
                at_offset (b # us) ss d k (0 + (4 - (m + length ?t)))
         else match_chunks n' q (Some b) 0 (m + length ?t) = Inr None"
    proof -
      have "Suc (length us) < n'" using Cons.prems(4) c(4) by simp
      from Cons.IH [OF c(6) le0 m' this] show ?thesis by (simp only: drop_0 c(3) concat.simps)
    qed
    have sum: "length s + (4 - (m + length ?t)) = j + (4 - m)" using Cons.prems(2) m' by simp
    show ?thesis
    proof (cases "is_prefix_of ?t ?p")
      case True
      then have "match_chunks n q (Some a) j m = match_chunks n' q (Some b) 0 (m + length ?t)"
        using step not by (simp add: match_spec_def Let_def)
      then show ?thesis
        using ih split True at_offset_later [of "b # us" ss _ _ "4 - (m + length ?t)" a s] unfolding sum
        by (auto split: if_splits)
    next
      case False
      then show ?thesis using step split not by (simp add: match_spec_def Let_def)
    qed
  qed
qed

definition found_at :: "addr list \<Rightarrow> string list \<Rightarrow> nat option \<Rightarrow> fault + (addr \<times> nat) option \<Rightarrow> bool" where
  "found_at us ss pos r \<longleftrightarrow> (case pos of None \<Rightarrow> r = Inr None
     | Some i \<Rightarrow> \<exists>a k. r = Inr (Some (a, k)) \<and> at_offset us ss a k (i + 4))"

lemma strstr_Nil: "strstr [] target_string = None"
  by (simp add: target_string_def)

lemma is_prefix_target_CR: "is_prefix_of target_string t \<Longrightarrow> t \<noteq> [] \<and> hd t = CR"
  by (cases t) (simp_all add: target_string_def)

lemma is_prefix_target_Cons: "is_prefix_of target_string (CR # t) = is_prefix_of (drop 1 target_string) t"
  by (simp add: target_string_def)

text \<open>Searching from byte \<open>i\<close> of the first chunk on, then in the rest.\<close>

lemma scan_chunk_spec:
  assumes "text_chain q (Some a) (a # us) (s # ss)" and "Suc (length us) < n" and "cells q a = Some c" and "mem_holds c s"
    and "i \<le> length s"
  shows "case strstr (drop i s @ concat ss) target_string of
      None \<Rightarrow> scan_chunk n q a c i = Inr None
    | Some x \<Rightarrow> if i + x < length s
        then \<exists>b k. scan_chunk n q a c i = Inr (Some (b, k)) \<and> at_offset (a # us) (s # ss) b k (i + x + 4)
        else scan_chunk n q a c i = Inr None"
  using assms(5)
proof (induction "length s - i" arbitrary: i)
  case 0
  then show ?case
    by (subst scan_chunk.simps, subst scan_chunk.simps)
      (auto simp: mem_holds_length [OF assms(4)] split: option.split)
next
  case (Suc d)
  then have i: "i < length s" by simp
  have ds: "drop i s = s ! i # drop (Suc i) s" using i by (rule drop_nth_Cons)
  have ih: "case strstr (drop (Suc i) s @ concat ss) target_string of
      None \<Rightarrow> scan_chunk n q a c (Suc i) = Inr None
    | Some x \<Rightarrow> if Suc i + x < length s
        then \<exists>b k. scan_chunk n q a c (Suc i) = Inr (Some (b, k)) \<and> at_offset (a # us) (s # ss) b k (Suc i + x + 4)
        else scan_chunk n q a c (Suc i) = Inr None"
    by (rule Suc.hyps(1)) (use Suc.hyps(2) i in auto)
  have four: "i + 1 + (4 - 1) = i + (4 :: nat)" by simp
  have step: "scan_chunk n q a c i = (if s ! i = CR
      then andthen (match_chunks n q (Some a) (i + 1) 1) (\<lambda>r.
        case r of Some found \<Rightarrow> Inr (Some found) | None \<Rightarrow> scan_chunk n q a c (i + 1))
      else scan_chunk n q a c (i + 1))"
    using i by (subst scan_chunk.simps) (simp add: mem_holds_length [OF assms(4)] mem_holds_peek [OF assms(4)])
  show ?case
  proof (cases "is_prefix_of target_string (drop i s @ concat ss)")
    case True
    have cr: "s ! i = CR" using is_prefix_target_CR [OF True] by (simp add: ds)
    then have "is_prefix_of (drop 1 target_string) (drop (Suc i) s @ concat ss)"
      using True by (simp add: ds is_prefix_target_Cons)
    then obtain b k where bk: "match_chunks n q (Some a) (i + 1) 1 = Inr (Some (b, k))"
        "at_offset (a # us) (s # ss) b k (i + 4)"
      using match_chunks_spec [OF assms(1) _ _ assms(2), of "i + 1" 1, unfolded four] i by auto
    have "strstr (drop i s @ concat ss) target_string = Some 0" using True by (simp add: ds)
    then show ?thesis using bk cr i unfolding step by auto
  next
    case False
    have none: "match_chunks n q (Some a) (i + 1) 1 = Inr None" if "s ! i = CR"
      using match_chunks_spec [OF assms(1) _ _ assms(2), of "i + 1" 1] i that False
      by (simp add: ds is_prefix_target_Cons)
    have "strstr (drop i s @ concat ss) target_string = map_option Suc (strstr (drop (Suc i) s @ concat ss) target_string)"
      using False by (simp add: ds)
    moreover have "scan_chunk n q a c i = scan_chunk n q a c (Suc i)" unfolding step using none by simp
    ultimately show ?thesis using ih by (auto split: option.splits if_splits)
  qed
qed

lemma strstr_append:
  "strstr (s @ t) p = (case strstr (s @ t) p of None \<Rightarrow> None | Some x \<Rightarrow> if x < length s then Some x
     else map_option (\<lambda>i. length s + i) (strstr t p))"
proof (induction s)
  case Nil
  then show ?case by (simp add: option.map_ident split: option.split)
next
  case (Cons c s)
  show ?case
  proof (cases "is_prefix_of p (c # s @ t)")
    case False
    then have eq: "strstr ((c # s) @ t) p = map_option Suc (strstr (s @ t) p)" by simp
    show ?thesis
    proof (cases "strstr (s @ t) p")
      case (Some x)
      then show ?thesis using Cons eq by (cases "strstr t p") (auto split: if_splits)
    qed (use eq in simp)
  qed simp
qed

lemma strstr_append_none: "strstr (s @ t) p = None \<Longrightarrow> strstr t p = None"
  by (induction s) (auto split: if_splits)

lemma find_head_end_spec:
  assumes "text_chain q p us ss" and "length us < n"
  shows "found_at us ss (strstr (concat ss) target_string) (find_head_end n q p)"
  using assms
proof (induction us arbitrary: p ss n)
  case Nil
  then obtain n' where "n = Suc n'" by (cases n) auto
  with Nil show ?case by (simp add: text_chain_Nil found_at_def strstr_Nil)
next
  case (Cons a us)
  then obtain c s ss' n' where c: "p = Some a" "ss = s # ss'" "cells q a = Some c" "mem_holds c s"
      "text_chain q (next_chunk c) us ss'" "n = Suc n'"
    by (cases n) (auto simp: text_chain_Cons)
  have chain: "text_chain q (Some a) (a # us) (s # ss')" using c by (auto simp: text_chain_Cons)
  have ih: "found_at us ss' (strstr (concat ss') target_string) (find_head_end n' q (next_chunk c))"
    by (rule Cons.IH [OF c(5)]) (use Cons.prems c in simp)
  have step: "find_head_end n q p = andthen (scan_chunk n q a c 0) (\<lambda>r.
      case r of Some found \<Rightarrow> Inr (Some found) | None \<Rightarrow> find_head_end n' q (next_chunk c))"
    using c(4) by (simp add: c(1,3,6) load_chunk_def mem_holds_def)
  have len: "Suc (length us) < n" using Cons.prems(2) by simp
  note scan = scan_chunk_spec [OF chain len c(3,4), of 0]
  show ?case
  proof (cases "strstr (s @ concat ss') target_string")
    case None
    then show ?thesis
      using scan ih strstr_append_none [OF None] unfolding step by (simp add: found_at_def c(2))
  next
    case (Some x)
    show ?thesis
    proof (cases "x < length s")
      case True
      then show ?thesis using scan Some unfolding step by (auto simp: found_at_def c(2))
    next
      case False
      then have "map_option (\<lambda>i. length s + i) (strstr (concat ss') target_string) = Some x"
        using strstr_append [of s "concat ss'" target_string] Some by simp
      then obtain y where y: "strstr (concat ss') target_string = Some y" "x = length s + y" by auto
      then show ?thesis
        using scan Some False ih at_offset_later [of us ss' _ _ "y + 4" a s]
        unfolding step by (auto simp: found_at_def c(2) add.assoc)
    qed
  qed
qed

section \<open>The read queue\<close>

text \<open>
  The blocks of the read queue are allocated by \<open>buffer_alloc_size\<close> only, so their sizes are multiples of 64. This
  matters for a read that fills all it was given: there is room for the NUL behind the bytes exactly when
  the requested size is not such a multiple.
\<close>

definition blocks_aligned :: "chunkqueue \<Rightarrow> bool" where
  "blocks_aligned q \<longleftrightarrow> (\<forall>a c. cells q a = Some c \<longrightarrow> 64 dvd unat (buf_size (mem c)))"

lemma blocks_aligned_cells: "cells q' = cells q \<Longrightarrow> blocks_aligned q' = blocks_aligned q"
  by (simp add: blocks_aligned_def)

lemma blocks_aligned_fields [simp]:
  "blocks_aligned (q\<lparr>q_first := a\<rparr>) = blocks_aligned q" "blocks_aligned (q\<lparr>q_last := a\<rparr>) = blocks_aligned q"
  "blocks_aligned (q\<lparr>q_idle := a\<rparr>) = blocks_aligned q" "blocks_aligned (q\<lparr>idle_chunk_size := n\<rparr>) = blocks_aligned q"
  by (simp_all add: blocks_aligned_def)

lemma blocks_aligned_put [simp]:
  "blocks_aligned q \<Longrightarrow> 64 dvd unat (buf_size (mem c)) \<Longrightarrow> blocks_aligned (put_chunk q a c)"
  by (simp add: blocks_aligned_def put_chunk_def)

lemma blocks_alignedD: "blocks_aligned q \<Longrightarrow> cells q a = Some c \<Longrightarrow> 64 dvd unat (buf_size (mem c))"
  by (simp add: blocks_aligned_def)

lemma load_chunk_aligned: "blocks_aligned q \<Longrightarrow> ensures (load_chunk q a) (\<lambda>c. 64 dvd unat (buf_size (mem c)))"
  by (auto simp: load_chunk_def split: option.split dest: blocks_alignedD)

lemma empty_queue_aligned:
  assumes "queue_rel q []"
  shows "blocks_aligned q"
proof -
  obtain us ids where wf: "queue_wf q us ids []" "us = []" using assms by (auto simp: queue_rel_def)
  then have "\<forall>a c. cells q a = Some c \<longrightarrow> idle_chunk c"
    by (auto simp: queue_wf_def queue_links_def) (metis option.distinct(1) option.sel)
  then show ?thesis by (auto simp: blocks_aligned_def idle_chunk_def buffer_init_def)
qed

lemma alloc_idle_aligned: "blocks_aligned q \<Longrightarrow> blocks_aligned (chunkqueue_alloc_idle n q)"
proof (induction n arbitrary: q)
  case (Suc n)
  have "blocks_aligned (q\<lparr>cells := (cells q)(brk q \<mapsto> chunk_initialize\<lparr>next_chunk := q_idle q\<rparr>),
      brk := Suc (brk q), q_idle := Some (brk q)\<rparr>)"
    using Suc.prems by (simp add: blocks_aligned_def chunk_initialize_def buffer_init_def)
  then show ?case using Suc.IH by simp
qed simp

lemma get_unused_aligned:
  "blocks_aligned q \<Longrightarrow> ensures (chunkqueue_get_unused_chunk q) (\<lambda>(q1, a). blocks_aligned q1)"
  using alloc_idle_aligned [of "q\<lparr>idle_chunk_size := idle_chunk_size q + 4\<rparr>" "unat (idle_chunk_size q + 4)"]
  by (auto simp: chunkqueue_get_unused_chunk_def Let_def intro!: ensures_any split: option.split)

lemma append_chunk_aligned:
  assumes "blocks_aligned q"
  shows "ensures (chunkqueue_append_chunk q a) blocks_aligned"
proof -
  have "ensures (case q_last q1 of None \<Rightarrow> Inr q1
      | Some l \<Rightarrow> andthen (load_chunk q1 l) (\<lambda>cl. Inr (put_chunk q1 l (cl\<lparr>next_chunk := Some a\<rparr>)))) blocks_aligned"
    if "blocks_aligned q1" for q1
    using that by (auto split: option.split intro: ensures_mono [OF load_chunk_aligned])
  note link = this
  have fin: "blocks_aligned (let q3 = q2\<lparr>q_last := Some a\<rparr> in if q_first q3 = None then q3\<lparr>q_first := Some a\<rparr> else q3)"
    if "blocks_aligned q2" for q2 using that by (simp add: Let_def)
  show ?thesis
    unfolding chunkqueue_append_chunk_def Let_def ensures_simps
    by (rule ensures_mono [OF load_chunk_aligned [OF assms]], rule ensures_mono [OF link])
      (use assms fin in \<open>auto simp: Let_def\<close>)
qed

lemma alloc_size_aligned:
  assumes "64 dvd unat (buf_size b)" and "unat n + 64 \<le> 2 ^ 32"
  shows "64 dvd unat (buf_size (buffer_alloc_size b n))"
proof -
  have "unat (if n = 0 then 1 else n) + 63 < 2 ^ 32" using assms(2) by simp
  from buffer_align_size_bounds(3) [OF this] assms(1) show ?thesis
    by (simp add: buffer_alloc_size_def Let_def)
qed

lemma get_memory_aligned:
  assumes "blocks_aligned q" and n: "unat n + 64 \<le> 2 ^ 32"
  shows "ensures (chunk_get_memory q n) (\<lambda>(q1, r). blocks_aligned q1)"
proof -
  have last: "ensures (case q_last q of None \<Rightarrow> Inr (q, None)
      | Some l \<Rightarrow> andthen (load_chunk q l) (\<lambda>c.
             if chunk_type c = CHUNK_MEM
             then let b = (if buffer_is_empty (mem c) then buffer_alloc_size (mem c) n else mem c)
                  in Inr (put_chunk q l (c\<lparr>mem := b\<rparr>),
                          if n \<le> buffer_remaining_bytes b then Some (l, buffer_string_length b) else None)
             else Inr (q, None))) (\<lambda>(q1, r). blocks_aligned q1)"
    using assms alloc_size_aligned [OF _ n]
    by (auto simp: Let_def split: option.split intro!: ensures_mono [OF load_chunk_aligned [OF assms(1)]])
  have fresh: "ensures (andthen (chunkqueue_get_unused_chunk q1) (\<lambda>(q2, a).
             andthen (chunkqueue_append_chunk q2 a) (\<lambda>q3.
             andthen (load_chunk q3 a) (\<lambda>c.
             let b = buffer_alloc_size (mem c) n
             in Inr (put_chunk q3 a (c\<lparr>chunk_type := CHUNK_MEM, mem := b\<rparr>),
                     Some (a, buffer_string_length b)))))) (\<lambda>(q1, r). blocks_aligned q1)" if "blocks_aligned q1" for q1
    unfolding ensures_simps
    by (rule ensures_mono [OF get_unused_aligned [OF that]], clarsimp,
        rule ensures_mono [OF append_chunk_aligned], assumption, rule ensures_mono [OF load_chunk_aligned])
      (auto simp: Let_def alloc_size_aligned [OF _ n])
  show ?thesis
  proof (cases "n = 0")
    case False
    show ?thesis
      unfolding chunk_get_memory_def if_not_P [OF False]
      by (simp only: ensures_simps(3), rule ensures_mono [OF last])
        (use fresh in \<open>auto simp del: ensures_simps(3) split: option.split\<close>)
  qed (use assms(1) in \<open>simp add: chunk_get_memory_def\<close>)
qed

lemma receive_aligned:
  assumes "blocks_aligned q"
  shows "ensures (andthen (chunk_fill q a off bs) (\<lambda>q1. chunk_commit_memory q1 n)) blocks_aligned"
proof -
  have fill: "ensures (chunk_fill q a off bs) blocks_aligned"
    unfolding chunk_fill_def ensures_simps
    by (rule ensures_mono [OF load_chunk_aligned [OF assms]]) (use assms in \<open>auto intro: ensures_any\<close>)
  have commit: "ensures (chunk_commit_memory q1 n) blocks_aligned" if "blocks_aligned q1" for q1
  proof (cases "n = 0 \<or> q_last q1 = None")
    case False
    then obtain l where l: "n \<noteq> 0" "q_last q1 = Some l" by auto
    show ?thesis
      unfolding chunk_commit_memory_def l(2) if_not_P [OF l(1)] option.case ensures_simps
      by (rule ensures_mono [OF load_chunk_aligned [OF that]])
        (use that in \<open>auto simp: buffer_set_nul_def intro!: ensures_any\<close>)
  qed (use that in \<open>auto simp: chunk_commit_memory_def\<close>)
  show ?thesis unfolding ensures_simps by (rule ensures_mono [OF fill commit])
qed

lemma open_tail_room:
  assumes "open_tail q vs s a off room" and "blocks_aligned q"
  shows "64 dvd length s + room"
  using assms by (auto simp: open_tail_def dest: blocks_alignedD)

text \<open>\<open>read_queue q ss\<close>: the read queue holds the bytes \<open>concat ss\<close>, in chunks \<open>ss\<close>.\<close>

definition read_queue :: "chunkqueue \<Rightarrow> string list \<Rightarrow> bool" where
  "read_queue q ss \<longleftrightarrow> queue_rel q (map (Mem 0) ss) \<and> blocks_aligned q"

lemma read_queue_empty: "queue_rel q [] \<Longrightarrow> read_queue q []"
  by (simp add: read_queue_def empty_queue_aligned)

lemma read_queue_chain:
  assumes "read_queue q ss"
  obtains us where "text_chain q (q_first q) us ss" and "length us < Suc (brk q)" and "distinct us"
proof -
  obtain us ids where wf: "queue_wf q us ids []" and vw: "views q us (map (Mem 0) ss)"
    using assms by (auto simp: read_queue_def queue_rel_def)
  have len: "length us < Suc (brk q)" and dist: "distinct us"
    using queue_wf_length(1) [OF wf] wf by (auto simp: queue_wf_def queue_links_def)
  have "list_all2 (\<lambda>a s. \<exists>c. cells q a = Some c \<and> mem_holds c s) us ss"
    unfolding list_all2_conv_all_nth
  proof (intro conjI allI impI)
    show l: "length us = length ss" using vw by (auto simp: views_def dest: list_all2_lengthD)
    fix i assume i: "i < length us"
    then have "us ! i \<in> set (us @ ids @ [])" by simp
    then obtain c where c: "cells q (us ! i) = Some c"
      using wf by (auto simp: queue_wf_def elim: queue_links_alive)
    have "chunk_view (the (cells q (us ! i))) (Mem 0 (ss ! i))"
      using vw i l by (simp add: views_def list_all2_conv_all_nth del: chunk_view.simps)
    then show "\<exists>c. cells q (us ! i) = Some c \<and> mem_holds c (ss ! i)"
      using c i l by (simp add: chunk_view_unsent mem_holds_def del: chunk_view.simps)
  qed
  moreover have "linked (cells q) (q_first q) us" using wf by (simp add: queue_wf_def queue_links_def)
  ultimately show ?thesis using that len dist by (simp add: text_chain_def)
qed

lemma provides_take: "provides p s \<Longrightarrow> provides p (take k s)"
  using provides_prefix [of p "take k s" "drop k s"] by simp

lemma mem_holds_provides: "mem_holds c s \<Longrightarrow> provides (ptr (mem c)) s"
  using buffer_holds_provides [of "mem c" s] buffer_holds_empty [of "mem c" s]
  by (cases "used_bytes (mem c) = 0") (auto simp: mem_holds_def provides_def)

lemma at_offset_Cons_iff:
  assumes "at_offset (a # us) (s # ss) b k n" and "distinct (a # us)"
  shows "if b = a then k = n \<and> k \<le> length s else (\<exists>n'. n = length s + n' \<and> at_offset us ss b k n')"
proof -
  from assms(1) obtain i where i: "i < Suc (length us)" "(a # us) ! i = b" "k \<le> length ((s # ss) ! i)"
      "n = length (concat (take i (s # ss))) + k"
    by (auto simp: at_offset_def)
  show ?thesis
  proof (cases i)
    case 0
    with i show ?thesis by simp
  next
    case (Suc j)
    then have "b \<noteq> a" using i assms(2) by auto
    with Suc i show ?thesis by (auto simp: at_offset_def)
  qed
qed

lemma copy_head_spec:
  assumes "text_chain q p us ss" and "length us < fuel" and "distinct us" and "at_offset us ss a k n"
    and "buffer_holds b t" and "length t + length (concat ss) < buffer_max"
  shows "returns (copy_head fuel q p a k b) (\<lambda>b'. buffer_holds b' (t @ take n (concat ss)))"
  using assms
proof (induction us arbitrary: p ss fuel n b t)
  case (Cons d us)
  then obtain c s ss' m where c: "p = Some d" "ss = s # ss'" "cells q d = Some c" "mem_holds c s"
      "text_chain q (next_chunk c) us ss'" "fuel = Suc m"
    by (cases fuel) (auto simp: text_chain_Cons)
  have split: "if a = d then k = n \<and> k \<le> length s else (\<exists>n'. n = length s + n' \<and> at_offset us ss' a k n')"
    by (rule at_offset_Cons_iff) (use Cons.prems c in auto)
  have len: "buffer_string_length (mem c) = of_nat (length s)"
    using mem_holds_length [OF c(4)] by (rule of_nat_eq_u32I)
  show ?case
  proof (cases "a = d")
    case True
    then have k: "k = n" "length (take k s) = k" "take n (concat ss) = take k s" using split c(2) by simp_all
    have "returns (buffer_append_string_length b (ptr (mem c)) (of_nat (length (take k s)))) (\<lambda>b'. buffer_holds b' (t @ take k s))"
      by (rule buffer_append_string_length_holds [OF Cons.prems(5) provides_take [OF mem_holds_provides [OF c(4)]]])
        (use Cons.prems(6) c(2) in simp)
    then have "returns (buffer_append_string_length b (ptr (mem c)) (of_nat k)) (\<lambda>b'. buffer_holds b' (t @ take k s))"
      unfolding k(2) .
    then show ?thesis unfolding k(3) using True c(1,3,6) by (simp add: load_chunk_def Let_def)
  next
    case False
    then obtain n' where n': "n = length s + n'" "at_offset us ss' a k n'" using split by auto
    have app: "returns (buffer_append_string_length b (ptr (mem c)) (of_nat (length s))) (\<lambda>b'. buffer_holds b' (t @ s))"
      by (rule buffer_append_string_length_holds [OF Cons.prems(5) mem_holds_provides [OF c(4)]])
        (use Cons.prems(6) c(2) in simp)
    have ih: "returns (copy_head m q (next_chunk c) a k b1) (\<lambda>b'. buffer_holds b' ((t @ s) @ take n' (concat ss')))"
      if "buffer_holds b1 (t @ s)" for b1
      by (rule Cons.IH [OF c(5) _ _ n'(2) that]) (use Cons.prems c(2,6) in auto)
    show ?thesis
      using returns_mono [OF app ih] False c(1,2,3,6) n'(1) by (simp add: load_chunk_def Let_def len)
  qed
qed (simp add: at_offset_def)

section \<open>What the read side does\<close>

definition head_of :: "string \<Rightarrow> string option" where
  "head_of received = map_option (\<lambda>i. take (i + 4) received) (strstr received target_string)"

text \<open>The outcome once new bytes have arrived and everything received is \<open>received\<close>.\<close>

definition head_checked :: "server_config \<Rightarrow> string \<Rightarrow> connection \<Rightarrow> connection \<Rightarrow> bool" where
  "head_checked config received conn conn' \<longleftrightarrow> (case head_of received of
     Some h \<Rightarrow> (\<exists>b. text_buffer b h \<and> conn' = conn\<lparr>connection_request := (connection_request conn)\<lparr>request_content := b\<rparr>,
         state := CON_STATE_REQUEST_END\<rparr>)
   | None \<Rightarrow> conn' = (if unat (max_http_head_size config) < length received
       then conn\<lparr>http_status := 414, keep_alive := False, state := CON_STATE_HANDLE_REQUEST\<rparr> else conn))"

lemma queue_bytes_mem [simp]: "queue_bytes (map (Mem 0) ss) = length (concat ss)" "queue_sent (map (Mem 0) ss) = 0"
  by (induction ss) simp_all

lemma connection_check_head_ok [returns_rules]:
  assumes q: "read_queue (readqueue conn) ss" and small: "length (concat ss) < buffer_max"
  shows "returns (connection_check_head config conn) (head_checked config (concat ss) conn)"
proof -
  let ?q = "readqueue conn"
  obtain us where us: "text_chain ?q (q_first ?q) us ss" "length us < Suc (brk ?q)" "distinct us"
    using q by (rule read_queue_chain)
  note found = find_head_end_spec [OF us(1,2)]
  show ?thesis
  proof (cases "strstr (concat ss) target_string")
    case None
    have len: "chunkqueue_length ?q = Inr (of_nat (length (concat ss)))"
      using chunkqueue_length_rel [of ?q "map (Mem 0) ss"] q by (simp add: read_queue_def)
    have "unat (of_nat (length (concat ss)) :: u32) = length (concat ss)"
      using small by (intro unat_of_nat_u32) simp
    then have "max_http_head_size config < of_nat (length (concat ss)) \<longleftrightarrow>
        unat (max_http_head_size config) < length (concat ss)"
      by (simp add: word_less_nat_alt)
    with None found len show ?thesis
      by (simp add: connection_check_head_def found_at_def head_checked_def head_of_def connection_set_state_def Let_def)
  next
    case (Some i)
    then obtain a k where ak: "find_head_end (Suc (brk ?q)) ?q (q_first ?q) = Inr (Some (a, k))" "at_offset us ss a k (i + 4)"
      using found by (auto simp: found_at_def)
    let ?h = "take (i + 4) (concat ss)"
    have "?h \<noteq> []" using Some by (cases "concat ss") (simp_all add: strstr_Nil)
    have "returns (copy_head (Suc (brk ?q)) ?q (q_first ?q) a k (buffer_reset (request_content (connection_request conn))))
        (\<lambda>b. buffer_holds b ([] @ ?h))"
      by (rule copy_head_spec [OF us ak(2)]) (use small in simp_all)
    then have "returns (copy_head (Suc (brk ?q)) ?q (q_first ?q) a k (buffer_reset (request_content (connection_request conn))))
        (\<lambda>b. text_buffer b ?h)"
      by (rule returns_mono) (use text_buffer_nonempty \<open>?h \<noteq> []\<close> in simp)
    with Some ak(1) show ?thesis
      by (auto simp: connection_check_head_def head_checked_def head_of_def connection_set_state_def Let_def returns_iff)
  qed
qed

text \<open>The number of bytes the code asks for.\<close>

definition read_request :: "os_env \<Rightarrow> u32" where
  "read_request os = (case os_fionread os (os_calls os) of None \<Rightarrow> 1024
     | Some v \<Rightarrow> if v = 0 \<or> v < 1024 then 1024 else v)"

definition read_answer :: "os_env \<Rightarrow> io_error + string" where
  "read_answer os = os_read os (Suc (os_calls os)) (unat (read_request os))"

lemma read_request_pos: "read_request os \<noteq> 0"
  by (auto simp: read_request_def split: option.split)

definition read_done :: "os_env \<Rightarrow> os_env" where
  "read_done os = sys_tick (sys_tick os)"

text \<open>
  What is asked of a read: it returns at most what it was asked for, and when it fills the request, the size
  of the request is not a multiple of 64.
\<close>

definition read_fits :: "os_env \<Rightarrow> bool" where
  "read_fits os \<longleftrightarrow> (\<forall>bs. read_answer os = Inr bs \<longrightarrow> length bs \<le> unat (read_request os) \<and>
     (length bs = unat (read_request os) \<longrightarrow> \<not> 64 dvd length bs))"

text \<open>One call of \<open>connection_handle_read\<close>, by the answer of \<open>read\<close>.\<close>

lemma connection_handle_read_ok [returns_rules]:
  assumes q: "read_queue (readqueue conn) ss" and size: "unat (read_request os) + 64 \<le> 2 ^ 32"
    and part: "read_fits os"
  shows "returns (connection_handle_read conn os) (\<lambda>(n, conn', os'). os' = read_done os \<and>
    (\<exists>q ss'. read_queue q ss' \<and> conn' = conn\<lparr>readqueue := q, readable := readable conn'\<rparr> \<and>
      (case read_answer os of
         Inl e \<Rightarrow> n = (if e \<in> {EINTR, EAGAIN} then -1 else -2) \<and> concat ss' = concat ss \<and> (readable conn' \<longleftrightarrow> e = EINTR)
       | Inr bs \<Rightarrow> n = int (length bs) \<and> concat ss' = concat ss @ bs \<and>
           (readable conn' \<longleftrightarrow> length bs = unat (read_request os)))))"
proof -
  let ?n = "read_request os"
  have all: "\<forall>v \<in> set (map (Mem 0) ss). \<exists>s. v = Mem 0 s" by auto
  have qr: "queue_rel (readqueue conn) (map (Mem 0) ss)" using q by (simp add: read_queue_def)
  obtain q1 vs s a off room where mem: "chunk_get_memory (readqueue conn) ?n = Inr (q1, Some (a, off))"
      "open_tail q1 vs s a off room" "map (Mem 0) ss = vs @ [Mem 0 s] \<or> map (Mem 0) ss = vs \<and> s = []" "unat ?n \<le> room"
      "s \<noteq> [] \<longrightarrow> unat ?n < room"
    using chunk_get_memory_rel [OF qr all read_request_pos size] by (fastforce simp: returns_iff)
  have al: "blocks_aligned q1"
    using ensuresD [OF get_memory_aligned [OF _ size] mem(1)] q by (simp add: read_queue_def)
  obtain ss0 where ss0: "vs = map (Mem 0) ss0" "concat ss = concat ss0 @ s"
    using mem(3) by (auto simp: map_eq_append_conv)
  have q1: "read_queue q1 (ss0 @ [s])" using open_tail_rel [OF mem(2)] ss0(1) al by (simp add: read_queue_def)
  have start: "connection_handle_read conn os = (case read_answer os of
      Inl e \<Rightarrow> if e = EINTR \<or> e = EAGAIN
        then Inr (-1, if e = EINTR then conn\<lparr>readqueue := q1, readable := True\<rparr> else conn\<lparr>readqueue := q1, readable := False\<rparr>, read_done os)
        else Inr (-2, conn\<lparr>readqueue := q1, readable := False\<rparr>, read_done os)
    | Inr bs \<Rightarrow> if length bs = 0 then Inr (0, conn\<lparr>readqueue := q1, readable := False\<rparr>, read_done os)
        else andthen (andthen (chunk_fill q1 a off bs) (\<lambda>q2. chunk_commit_memory q2 (of_nat (length bs)))) (\<lambda>q3.
          Inr (int (length bs), conn\<lparr>readqueue := q3, readable := (of_nat (length bs) = ?n)\<rparr>, read_done os)))"
    using mem(1) by (cases "chunk_fill q1 a off (projr (read_answer os))")
      (auto simp: connection_handle_read_def sys_fionread_def sys_read_def read_request_def read_answer_def
        read_done_def sys_tick_def Let_def split: sum.splits)
  show ?thesis
  proof (cases "read_answer os")
    case (Inl e)
    show ?thesis unfolding start using Inl q1 ss0(2) by (auto intro!: exI [of _ q1] exI [of _ "ss0 @ [s]"])
  next
    case (Inr bs)
    show ?thesis
    proof (cases "bs = []")
      case True
      then show ?thesis unfolding start using Inr q1 ss0(2) read_request_pos [of os]
        by (auto simp: unat_eq_0_iff intro!: exI [of _ q1] exI [of _ "ss0 @ [s]"])
    next
      case False
      have le: "length bs \<le> unat ?n" and full: "length bs = unat ?n \<longrightarrow> \<not> 64 dvd length bs"
        using part Inr by (simp_all add: read_fits_def)
      have room: "length bs < room"
      proof (cases "s = []")
        case True
        with open_tail_room [OF mem(2) al] have "64 dvd room" by simp
        with le full mem(4) show ?thesis by (cases "length bs = unat ?n") (auto simp: le_less)
      qed (use le mem(5) in simp)
      have eq: "of_nat (length bs) = ?n \<longleftrightarrow> length bs = unat ?n"
        using le unat_of_nat_u32 [of "length bs"] unat_u32_lt [of ?n] by auto
      obtain q3 where q3: "andthen (chunk_fill q1 a off bs) (\<lambda>q2. chunk_commit_memory q2 (of_nat (length bs))) = Inr q3"
          "queue_rel q3 (vs @ [Mem 0 (s @ bs)])"
        using chunk_receive_rel [OF mem(2) False room] by (auto simp: returns_iff)
      have res: "connection_handle_read conn os =
          Inr (int (length bs), conn\<lparr>readqueue := q3, readable := (length bs = unat ?n)\<rparr>, read_done os)"
        unfolding start Inr sum.case q3(1) andthen.simps eq using False by simp
      have "blocks_aligned q3" using ensuresD [OF receive_aligned [OF al] q3(1)] .
      then have rq: "read_queue q3 (ss0 @ [s @ bs])" using q3(2) ss0(1) by (simp add: read_queue_def)
      show ?thesis unfolding res returns_Inr prod.case Inr sum.case
        by (intro conjI refl exI [of _ q3] exI [of _ "ss0 @ [s @ bs]"] rq) (use ss0(2) in simp_all)
    qed
  qed
qed

text \<open>What one run of the read state does, by what \<open>read\<close> answers and all that was received before.\<close>

definition read_outcome ::
  "server_config \<Rightarrow> string \<Rightarrow> connection \<Rightarrow> io_error + string \<Rightarrow> int \<Rightarrow> connection \<Rightarrow> bool" where
  "read_outcome config received conn answer n conn' \<longleftrightarrow> (case answer of
     Inl e \<Rightarrow> n = (if e \<in> {EINTR, EAGAIN} then -1 else -2) \<and>
       state conn' = (if e \<in> {EINTR, EAGAIN} then state conn else CON_STATE_ERROR)
   | Inr bs \<Rightarrow> n = int (length bs) \<and>
       (if bs = [] then state conn' = CON_STATE_CLOSE
        else case head_of (received @ bs) of
          Some h \<Rightarrow> state conn' = CON_STATE_REQUEST_END \<and> text_buffer (request_content (connection_request conn')) h
        | None \<Rightarrow> if unat (max_http_head_size config) < length (received @ bs)
            then state conn' = CON_STATE_HANDLE_REQUEST \<and> http_status conn' = 414 \<and> \<not> keep_alive conn'
            else state conn' = state conn \<and> connection_request conn' = connection_request conn))"

definition received_bytes :: "io_error + string \<Rightarrow> string" where
  "received_bytes answer = (case answer of Inl _ \<Rightarrow> [] | Inr bs \<Rightarrow> bs)"

text \<open>The part of a connection the read side leaves alone.\<close>

definition read_frame :: "connection \<Rightarrow> connection \<Rightarrow> bool" where
  "read_frame conn conn' \<longleftrightarrow> writequeue conn' = writequeue conn \<and>
     connection_response conn' = connection_response conn \<and> conn_socket_fd conn' = conn_socket_fd conn \<and>
     connection_index conn' = connection_index conn \<and> writeable conn' = writeable conn \<and>
     http_response_body_finished conn' = http_response_body_finished conn \<and>
     request_url (connection_request conn') = request_url (connection_request conn) \<and>
     hostname (connection_request conn') = hostname (connection_request conn) \<and>
     http_range (connection_request conn') = http_range (connection_request conn) \<and>
     req_keep_alive (connection_request conn') = req_keep_alive (connection_request conn) \<and>
     (request_wf (connection_request conn) \<longrightarrow> request_wf (connection_request conn'))"

lemma request_wf_content: "text_buffer b s \<Longrightarrow> request_wf r \<Longrightarrow> request_wf (r\<lparr>request_content := b\<rparr>)"
  by (rule request_wf_update(1) [OF _ text_buffer_holds])

lemma head_checked_frame:
  "head_checked config received conn conn' \<Longrightarrow>
   readqueue conn' = readqueue conn \<and> readable conn' = readable conn \<and> read_frame conn conn'"
  by (auto simp: head_checked_def read_frame_def split: option.splits if_splits) (erule request_wf_content)

lemma connection_handle_read_state_ok [returns_rules]:
  assumes q: "read_queue (readqueue conn) ss" and rd: "readable conn"
    and size: "unat (read_request os) + 64 \<le> 2 ^ 32"
    and part: "read_fits os"
    and small: "length (concat ss) + unat (read_request os) < buffer_max"
  shows "returns (connection_handle_read_state config ts conn os) (\<lambda>(n, conn', os').
    (\<exists>ss'. read_queue (readqueue conn') ss' \<and> concat ss' = concat ss @ received_bytes (read_answer os)) \<and>
    read_outcome config (concat ss) conn (read_answer os) n conn' \<and> read_frame conn conn' \<and>
    (readable conn' \<longrightarrow> read_answer os = Inl EINTR \<or> (\<exists>bs. read_answer os = Inr bs \<and> length bs = unat (read_request os))) \<and> same_os os os' \<and> trace os' = trace os)"
proof -
  let ?c = "conn\<lparr>active_read_ts := ts\<rparr>"
  have qc: "read_queue (readqueue ?c) ss" using q by simp
  obtain n conn1 os1 q1 ss' where r: "connection_handle_read ?c os = Inr (n, conn1, os1)" "os1 = read_done os"
      "read_queue q1 ss'" "conn1 = ?c\<lparr>readqueue := q1, readable := readable conn1\<rparr>"
    and res: "case read_answer os of
         Inl e \<Rightarrow> n = (if e \<in> {EINTR, EAGAIN} then -1 else -2) \<and> concat ss' = concat ss \<and> (readable conn1 \<longleftrightarrow> e = EINTR)
       | Inr bs \<Rightarrow> n = int (length bs) \<and> concat ss' = concat ss @ bs \<and> (readable conn1 \<longleftrightarrow> length bs = unat (read_request os))"
    using connection_handle_read_ok [OF qc size part] by (fastforce simp: returns_iff)
  have os1: "same_os os os1" "trace os1 = trace os" using r(2) by (simp_all add: read_done_def)
  have q1: "readqueue conn1 = q1" "read_frame conn conn1" "state conn1 = state conn"
      "connection_request conn1 = connection_request conn"
    by (subst r(4), simp add: read_frame_def)+
  show ?thesis
  proof (cases "read_answer os")
    case (Inl e)
    then show ?thesis
      using r(1,3) res rd q1 os1
      by (auto simp: connection_handle_read_state_def connection_set_state_def read_outcome_def received_bytes_def
          read_frame_def)
  next
    case (Inr bs)
    show ?thesis
    proof (cases "bs = []")
      case True
      then show ?thesis
        using r(1,3) res rd q1 os1 Inr
        by (auto simp: connection_handle_read_state_def connection_set_state_def read_outcome_def received_bytes_def
            read_frame_def sys_time_def)
    next
      case False
      have len: "length (concat ss') < buffer_max"
        using res Inr part small by (simp add: read_fits_def)
      have rq: "read_queue (readqueue conn1) ss'" using r(3) q1(1) by simp
      obtain conn2 where c2: "connection_check_head config conn1 = Inr conn2"
          "head_checked config (concat ss @ bs) conn1 conn2"
        using connection_check_head_ok [OF rq len, of config] res Inr by (auto simp: returns_iff)
      have fr: "readqueue conn2 = q1" "readable conn2 = readable conn1" "read_frame conn1 conn2"
        using head_checked_frame [OF c2(2)] q1(1) by simp_all
      have "read_frame conn conn2" using fr(3) q1(2) by (auto simp: read_frame_def)
      moreover have "read_outcome config (concat ss) conn (Inr bs) n conn2"
        using c2(2) False res Inr q1(3,4) by (auto simp: read_outcome_def head_checked_def split: option.splits)
      ultimately show ?thesis
        using r(1,3) res rd os1 Inr False c2(1) fr
        by (auto simp: connection_handle_read_state_def received_bytes_def)
    qed
  qed
qed

section \<open>Properties\<close>

text \<open>
  C10: However the network cuts the bytes of a request, after each read the connection has a complete
  request head exactly when everything received so far contains a CRLFCRLF, and the head it passes on
  is the received bytes up to and including the first one; without one, it answers 414 once more than
  \<open>max_http_head_size\<close> bytes have arrived and otherwise goes on reading. Errors and the end of the stream
  lead to the error and close states. A read that fills all it
  asked for is taken to have asked for a size that is not a multiple of 64.
\<close>

theorem connection_handle_read_state_finds_head:
  assumes "read_queue (readqueue conn) ss" and "readable conn"
    and "unat (read_request os) + 64 \<le> 2 ^ 32"
    and "read_fits os"
    and "length (concat ss) + unat (read_request os) < buffer_max"
  shows "\<exists>n conn' os' ss'. connection_handle_read_state config ts conn os = Inr (n, conn', os') \<and>
    read_queue (readqueue conn') ss' \<and> concat ss' = concat ss @ received_bytes (read_answer os) \<and>
    read_outcome config (concat ss) conn (read_answer os) n conn' \<and> read_frame conn conn'"
  using connection_handle_read_state_ok [OF assms] by (fastforce simp: returns_iff)

theorem connection_handle_read_state_finds_head_witness:
  "\<exists>n conn' os' ss'. connection_handle_read_state server_config_init 5 (sample_connection [])
       (sample_os (\<lambda>_ _. Inr (''GET / HTTP/1.0'' @ target_string))) = Inr (n, conn', os') \<and>
    read_queue (readqueue conn') ss' \<and>
    concat ss' = concat [] @ received_bytes (read_answer (sample_os (\<lambda>_ _. Inr (''GET / HTTP/1.0'' @ target_string)))) \<and>
    read_outcome server_config_init (concat []) (sample_connection [])
      (read_answer (sample_os (\<lambda>_ _. Inr (''GET / HTTP/1.0'' @ target_string)))) n conn' \<and>
    read_frame (sample_connection []) conn'"
  by (rule connection_handle_read_state_finds_head)
    (simp_all add: read_queue_empty queue_rel_init sample_connection_def read_request_def read_answer_def sample_os_def
      target_string_def read_fits_def)

text \<open>A full read into a fresh block of a size that is a multiple of the allocation unit.\<close>

lemma full_read_overflows:
  assumes "read_queue (readqueue conn) []" and full: "read_answer os = Inr bs" "length bs = unat (read_request os)"
    and size: "unat (read_request os) < 2 ^ 31" "64 dvd length bs"
  shows "connection_handle_read conn os = Inl OutOfBounds"
proof -
  let ?n = "read_request os"
  obtain us ids where wf: "queue_wf (readqueue conn) us ids []" "views (readqueue conn) us []"
    using assms(1) by (auto simp: read_queue_def queue_rel_def)
  then have last: "q_last (readqueue conn) = None" by (simp add: queue_wf_def queue_links_def)
  obtain k where "unat ?n = 64 * k" using full(2) size(2) by (auto elim: dvdE)
  then have al: "unat (buffer_align_size ?n) = unat ?n" using buffer_align_size_unat [of ?n] size(1) by simp
  obtain q1 a off where mem: "chunk_get_memory (readqueue conn) ?n = Inr (q1, Some (a, off))"
      "open_tail q1 [] [] a off (unat ?n)"
    using get_memory_fresh [OF wf _ read_request_pos, of os] last al size(1) read_request_pos [of os]
    by (fastforce simp: chunk_get_memory_def returns_iff)
  have ne: "bs \<noteq> []" using full(2) read_request_pos [of os] by (auto simp: unat_eq_0_iff)
  have "andthen (chunk_fill q1 a off bs) (\<lambda>q2. chunk_commit_memory q2 (of_nat (length bs))) = Inl OutOfBounds"
    by (rule chunk_receive_overflow [OF mem(2) ne full(2)])
  then have over: "andthen (chunk_fill q1 a off bs) (\<lambda>q2. andthen (chunk_commit_memory q2 (of_nat (length bs))) f) = Inl OutOfBounds"
    for f :: "chunkqueue \<Rightarrow> fault + (int \<times> connection \<times> os_env)"
    by (cases "chunk_fill q1 a off bs") auto
  have req: "(case os_fionread os (os_calls os) of None \<Rightarrow> 1024 | Some v \<Rightarrow> if v = 0 \<or> v < 1024 then 1024 else v) = ?n"
    by (simp add: read_request_def)
  have ans: "os_read os (Suc (os_calls os)) (unat ?n) = Inr bs" using full(1) by (simp add: read_answer_def)
  show ?thesis
    using mem(1) ne ans over
    by (simp add: connection_handle_read_def sys_fionread_def sys_read_def sys_tick_def Let_def req)
qed

text \<open>
  C32: A first read that brings all it asked for stores the terminating NUL one byte behind the block exactly when that
  size is a multiple of 64: the block is sized for the requested bytes only, rounded up to the allocation unit. The size is what
  FIONREAD reports, and 1024 where it fails or reports less. So 1024 or 1088 bytes waiting at the first read make the server
  write out of bounds, and 1025 do not.
\<close>

theorem connection_handle_read_overflow:
  assumes "read_queue (readqueue conn) []" and "read_answer os = Inr bs" and "length bs = unat (read_request os)"
    and "unat (read_request os) < 2 ^ 31"
  shows "if 64 dvd length bs then connection_handle_read conn os = Inl OutOfBounds
    else \<exists>conn' os' ss. connection_handle_read conn os = Inr (int (length bs), conn', os') \<and>
      read_queue (readqueue conn') ss \<and> concat ss = bs"
proof (cases "64 dvd length bs")
  case True
  with full_read_overflows [OF assms] show ?thesis by simp
next
  case False
  then have "read_fits os" using assms(2,3) by (simp add: read_fits_def)
  from connection_handle_read_ok [OF assms(1) _ this] assms(4) False obtain conn' os' ss where
    r: "connection_handle_read conn os = Inr (int (length bs), conn', os')" "read_queue (readqueue conn') ss" "concat ss = bs"
    using assms(2) by (auto simp: returns_iff)
  with False show ?thesis by auto
qed

theorem connection_handle_read_overflow_witness:
  "connection_handle_read (sample_connection []) ((sample_os (\<lambda>_ n. Inr (replicate n CHR ''x'')))\<lparr>os_fionread := \<lambda>_. Some 1088\<rparr>) =
     Inl OutOfBounds \<and>
   (\<exists>conn' os'. connection_handle_read (sample_connection [])
      ((sample_os (\<lambda>_ n. Inr (replicate n CHR ''x'')))\<lparr>os_fionread := \<lambda>_. Some 1025\<rparr>) = Inr (1025, conn', os'))"
proof -
  have q: "read_queue (readqueue (sample_connection [])) []"
    by (simp add: read_queue_empty queue_rel_init sample_connection_def)
  let ?os = "\<lambda>v. (sample_os (\<lambda>_ n. Inr (replicate n CHR ''x'')))\<lparr>os_fionread := \<lambda>_. Some v\<rparr>"
  have a: "read_answer (?os v) = Inr (replicate (unat v) CHR ''x'')" "read_request (?os v) = v" if "1024 \<le> v" for v
    using that by (auto simp: read_request_def read_answer_def sample_os_def)
  note over = connection_handle_read_overflow [OF q, of "?os v" "replicate (unat v) CHR ''x''" for v]
  show ?thesis using over [of 1088] over [of 1025] a [of 1088] a [of 1025] by auto
qed

end
