(* ===== verification/Conn_Head.thy ===== *)
theory Conn_Head
  imports Os
begin

text \<open>
  The heads of responses and the pages that report errors (\<open>connection_handle_prepare_response_head\<close>
  and the functions it calls, \<open>src/connection.cpp\<close>). The lemmas give the exact text of a head and
  what the write queue holds once a response is prepared.
\<close>

section \<open>The C code: response heads\<close>

definition http_error_content :: string where
  "http_error_content =
     ''<?xml version='' @ [QUOTE] @ ''1.0'' @ [QUOTE] @ '' encoding='' @ [QUOTE] @ ''iso-8859-1'' @ [QUOTE] @ ''?>'' @ [LF] @
     ''<!DOCTYPE html PUBLIC '' @ [QUOTE] @ ''-//W3C//DTD XHTML 1.0 Transitional//EN'' @ [QUOTE] @ [LF] @
     ''         '' @ [QUOTE] @ ''http://www.w3.org/TR/xhtml1/DTD/xhtml1-transitional.dtd'' @ [QUOTE] @ ''>'' @ [LF] @
     ''<html xmlns='' @ [QUOTE] @ ''http://www.w3.org/1999/xhtml'' @ [QUOTE] @ '' xml:lang='' @ [QUOTE] @ ''en'' @ [QUOTE] @
     '' lang='' @ [QUOTE] @ ''en'' @ [QUOTE] @ ''>'' @ [LF] @
     '' <head>'' @ [LF] @
     ''  <title>''"

definition error_middle :: string where
  "error_middle = ''</title>'' @ [LF] @ '' </head>'' @ [LF] @ '' <body>'' @ [LF] @ ''  <h1>''"

definition error_tail :: string where
  "error_tail = ''</h1>'' @ [LF] @ '' </body>'' @ [LF] @ ''</html>'' @ [LF]"

definition append_error_page :: "u32 \<Rightarrow> string \<Rightarrow> buffer \<Rightarrow> fault + buffer" where
  "append_error_page status map_string b0 =
     andthen (buffer_append_string b0 (lit http_error_content)) (\<lambda>b.
     andthen (buffer_append_string b (lit (format_d status))) (\<lambda>b.
     andthen (buffer_append_string b (lit '' - '')) (\<lambda>b.
     andthen (buffer_append_string b (lit map_string)) (\<lambda>b.
     andthen (buffer_append_string b (lit error_middle)) (\<lambda>b.
     andthen (buffer_append_string b (lit (format_d status))) (\<lambda>b.
     andthen (buffer_append_string b (lit '' - '')) (\<lambda>b.
     andthen (buffer_append_string b (lit map_string)) (\<lambda>b.
     buffer_append_string b (lit error_tail)))))))))"

definition append_response_head ::
  "server_config \<Rightarrow> connection \<Rightarrow> string \<Rightarrow> string \<Rightarrow> buffer \<Rightarrow> fault + buffer" where
  "append_response_head config conn map_string date b0 =
     andthen (if http_version (connection_request conn) = HTTP_VERSION_1_1
              then buffer_append_string b0 (lit ''HTTP/1.1 '') else buffer_append_string b0 (lit ''HTTP/1.0 '')) (\<lambda>b.
     andthen (buffer_append_string b (lit (format_d (http_status conn) @ '' ''))) (\<lambda>b.
     andthen (buffer_append_string b (lit map_string)) (\<lambda>b.
     andthen (if http_version (connection_request conn) \<noteq> HTTP_VERSION_1_1 \<or> \<not> keep_alive conn
              then andthen (buffer_append_string b (lit (CRLF @ ''Connection: ''))) (\<lambda>b.
                   if keep_alive conn then buffer_append_string b (lit ''keep-alive'')
                   else buffer_append_string b (lit ''close''))
              else Inr b) (\<lambda>b.
     andthen (if 0 < content_length (connection_response conn)
              then andthen (buffer_append_string b (lit (CRLF @ ''Content-Length: ''))) (\<lambda>b.
                   buffer_append_string b (lit (format_d (content_length (connection_response conn)))))
              else Inr b) (\<lambda>b.
     andthen (if \<not> buffer_is_empty (content_type (connection_response conn))
              then andthen (buffer_append_string b (lit (CRLF @ ''Content-Type: ''))) (\<lambda>b.
                   buffer_append_string b (ptr (content_type (connection_response conn))))
              else buffer_append_string b (lit (CRLF @ ''Content-Type: application/octet-stream''))) (\<lambda>b.
     andthen (buffer_append_string b (lit (CRLF @ ''Date: ''))) (\<lambda>b.
     andthen (buffer_append_string b (lit date)) (\<lambda>b.
     andthen (buffer_append_string b (lit (CRLF @ ''Server: ''))) (\<lambda>b.
     andthen (buffer_append_string b (ptr (service_name config))) (\<lambda>b.
     buffer_append_string b (lit (CRLF @ CRLF))))))))))))"

text \<open>The code asserts that the status is in the table.\<close>

definition connection_write_response_head ::
  "server_config \<Rightarrow> connection \<Rightarrow> os_env \<Rightarrow> fault + (connection \<times> os_env)" where
  "connection_write_response_head config conn os =
     (case query_http_status_string (http_status conn) of
        None \<Rightarrow> Inl AssertFailed
      | Some (k, map_string) \<Rightarrow>
          let (ts, os1) = sys_time os
          in andthen (append_response_head config conn map_string (os_strftime (os_files os) ts) buffer_init) (\<lambda>b.
             andthen (chunkqueue_prepend_buffer (writequeue conn) b) (\<lambda>q.
             Inr (conn\<lparr>writequeue := q\<rparr>, os1))))"

definition response_custom_body :: "connection \<Rightarrow> fault + connection" where
  "response_custom_body conn =
     (if http_status conn \<in> {204, 205, 304}
      then andthen (chunkqueue_reset (writequeue conn)) (\<lambda>q.
           Inr (conn\<lparr>writequeue := q, http_response_body_finished := True\<rparr>))
      else if http_status conn < 400 \<or> 600 \<le> http_status conn then Inr conn
      else case query_http_status_string (http_status conn) of
             None \<Rightarrow> Inl AssertFailed
           | Some (k, map_string) \<Rightarrow>
               andthen (append_error_page (http_status conn) map_string buffer_init) (\<lambda>b.
               andthen (chunkqueue_append_buffer (writequeue conn) b) (\<lambda>q.
               andthen (buffer_copy_string (content_type (connection_response conn)) (lit ''text/html'')) (\<lambda>ct.
               Inr (conn\<lparr>writequeue := q, http_response_body_finished := True,
                      connection_response := (connection_response conn)\<lparr>content_type := ct\<rparr>\<rparr>)))))"

definition connection_handle_prepare_response_head ::
  "server_config \<Rightarrow> connection \<Rightarrow> os_env \<Rightarrow> fault + (connection \<times> os_env)" where
  "connection_handle_prepare_response_head config conn os =
     andthen (response_custom_body (if http_status conn = 0 then conn\<lparr>http_status := 403\<rparr> else conn)) (\<lambda>conn1.
     andthen (if http_response_body_finished conn1
              then andthen (chunkqueue_length (writequeue conn1)) (\<lambda>len.
                   Inr (conn1\<lparr>connection_response := (connection_response conn1)\<lparr>content_length := len\<rparr>\<rparr>))
              else Inr conn1) (\<lambda>conn2.
     connection_write_response_head config conn2 os))"

section \<open>Response heads\<close>

lemma adds_if [adds_rules]:
  "(P \<Longrightarrow> adds f t) \<Longrightarrow> (\<not> P \<Longrightarrow> adds g u) \<Longrightarrow> adds (\<lambda>b. if P then f b else g b) (if P then t else u)"
  by (cases P) simp_all

lemma NUL_format_d: "NUL \<notin> set (format_d x)"
  using NUL_nat_digits by (auto simp: format_d_def Let_def)

lemma nat_digits_length: "length (nat_digits n) \<le> Suc n"
proof (induction n rule: nat_digits.induct)
  case (1 n)
  then show ?case by (subst nat_digits.simps) (auto intro: order_trans)
qed

lemma nat_digits_small: "n < 10 ^ k \<Longrightarrow> 0 < k \<Longrightarrow> length (nat_digits n) \<le> k"
proof (induction k arbitrary: n)
  case (Suc k)
  show ?case
  proof (cases "n < 10")
    case False
    then have "0 < k" using Suc.prems by (cases k) auto
    moreover have "n div 10 < 10 ^ k" using Suc.prems(1) by (simp add: less_mult_imp_div_less)
    ultimately show ?thesis using Suc.IH [of "n div 10"] False by (subst nat_digits.simps) simp
  qed (subst nat_digits.simps, simp)
qed simp

lemma format_d_length: "length (format_d x) \<le> 11"
proof -
  have "- (2 ^ 31) \<le> sint x" "sint x < 2 ^ 31"
    using sint_ge [of x] sint_lt [of x] by simp_all
  then have "nat (- sint x) < 10 ^ 10" "nat (sint x) < 10 ^ 10" by (simp_all add: nat_less_iff)
  then have "length (nat_digits (nat (- sint x))) \<le> 10" "length (nat_digits (nat (sint x))) \<le> 10"
    by (auto intro: nat_digits_small)
  then show ?thesis by (simp add: format_d_def Let_def)
qed

definition error_page :: "u32 \<Rightarrow> string \<Rightarrow> string" where
  "error_page status msg = http_error_content @ format_d status @ '' - '' @ msg @ error_middle @
     format_d status @ '' - '' @ msg @ error_tail"

text \<open>
  A response head: version, status, whether the connection stays open, the length of the body, its
  type, the date and the name of the server.
\<close>

definition head_text ::
  "http_version_t \<Rightarrow> u32 \<Rightarrow> string \<Rightarrow> bool \<Rightarrow> u32 \<Rightarrow> string option \<Rightarrow> string \<Rightarrow> string \<Rightarrow> string" where
  "head_text v status msg keep len ty date name =
     (if v = HTTP_VERSION_1_1 then ''HTTP/1.1 '' else ''HTTP/1.0 '') @
     (format_d status @ '' '') @ msg @
     (if v \<noteq> HTTP_VERSION_1_1 \<or> \<not> keep
      then (CRLF @ ''Connection: '') @ (if keep then ''keep-alive'' else ''close'') else []) @
     (if 0 < len then (CRLF @ ''Content-Length: '') @ format_d len else []) @
     (if ty \<noteq> None then (CRLF @ ''Content-Type: '') @ the ty
      else CRLF @ ''Content-Type: application/octet-stream'') @
     (CRLF @ ''Date: '') @ date @ (CRLF @ ''Server: '') @ name @ (CRLF @ CRLF)"

lemma adds_error_page:
  assumes "NUL \<notin> set msg"
  shows "adds (append_error_page status msg) (error_page status msg)"
proof -
  have "adds (\<lambda>b. append_error_page status msg b) (error_page status msg)"
    unfolding append_error_page_def error_page_def
    by (intro adds_rules assms NUL_format_d) (simp_all add: http_error_content_def error_middle_def error_tail_def)
  then show ?thesis by simp
qed

definition content_type_is :: "connection \<Rightarrow> string option \<Rightarrow> bool" where
  "content_type_is conn ty \<longleftrightarrow> holds_field (content_type (connection_response conn)) ty \<and>
     (\<forall>t. ty = Some t \<longrightarrow> NUL \<notin> set t \<and> length t < 1024)"

definition server_name_is :: "server_config \<Rightarrow> string \<Rightarrow> bool" where
  "server_name_is config name \<longleftrightarrow> text_buffer (service_name config) name \<and> NUL \<notin> set name \<and> length name < 1024"

lemma CRLF_NUL: "NUL \<notin> set CRLF"
  by (simp add: CRLF_def)

lemma adds_response_head:
  assumes "NUL \<notin> set msg" and "NUL \<notin> set date" and ct: "content_type_is conn ty" and name: "server_name_is config name"
  shows "adds (append_response_head config conn msg date)
    (head_text (http_version (connection_request conn)) (http_status conn) msg (keep_alive conn)
       (content_length (connection_response conn)) ty date name)"
proof -
  let ?b = "content_type (connection_response conn)"
  have empty: "\<not> buffer_is_empty ?b \<longleftrightarrow> ty \<noteq> None"
    using ct by (cases ty) (auto simp: content_type_is_def buffer_is_empty_def text_buffer_def word_neq_0_conv)
  have ty: "points_to (ptr ?b) (the ty)" if "ty \<noteq> None"
    using that ct by (auto simp: content_type_is_def intro: text_buffer_points_to_plain)
  have nm: "points_to (ptr (service_name config)) name"
    using name by (auto simp: server_name_is_def intro: text_buffer_points_to_plain)
  have "adds (\<lambda>b. append_response_head config conn msg date b)
    (head_text (http_version (connection_request conn)) (http_status conn) msg (keep_alive conn)
       (content_length (connection_response conn)) ty date name)"
    unfolding append_response_head_def head_text_def empty
    by (intro adds_rules adds_Inr ty nm points_to_lit) (use assms(1,2) in \<open>simp_all only: set_append Un_iff NUL_format_d CRLF_NUL\<close>, simp_all)
  then show ?thesis by simp
qed

lemma status_text:
  "query_http_status_string status = Some (k, msg) \<Longrightarrow> NUL \<notin> set msg \<and> length msg < 64 \<and> k = status"
proof -
  have "\<forall>(k, s) \<in> set http_status_table. case s of None \<Rightarrow> True | Some t \<Rightarrow> NUL \<notin> set t \<and> length t < 64"
    by (simp add: http_status_table_def)
  moreover have "query_status_loop tab status = Some (k, msg) \<Longrightarrow> (k, Some msg) \<in> set tab \<and> k = status" for tab
    by (induction tab status rule: query_status_loop.induct) (auto split: if_splits)
  ultimately show "query_http_status_string status = Some (k, msg) \<Longrightarrow> NUL \<notin> set msg \<and> length msg < 64 \<and> k = status"
    by (fastforce simp: query_http_status_string_def)
qed

lemma length_error_page:
  assumes "length msg < 64"
  shows "length (error_page status msg) < 1000"
  using assms format_d_length [of status]
  by (simp add: error_page_def http_error_content_def error_middle_def error_tail_def)

lemma length_head_text:
  assumes "length msg < 64" and "ty = None \<or> length (the ty) < 1024" and "length name < 1024"
  shows "length (head_text v status msg keep len ty date name) < length date + 3000"
  using assms format_d_length [of status] format_d_length [of len]
  by (auto simp: head_text_def CRLF_def)

lemma head_text_nonempty: "head_text v status msg keep len ty date name \<noteq> []"
  by (simp add: head_text_def)

lemma connection_write_response_head_ok [returns_rules]:
  assumes known: "query_http_status_string (http_status conn) = Some (k, msg)"
    and ct: "content_type_is conn ty" and name: "server_name_is config name" and q: "queue_rel (writequeue conn) ws"
    and date: "NUL \<notin> set (os_strftime (os_files os) (os_time os (os_calls os)))"
      "length (os_strftime (os_files os) (os_time os (os_calls os))) < 128"
  shows "returns (connection_write_response_head config conn os) (\<lambda>(conn', os'). \<exists>q. queue_rel q
      (Mem 0 (head_text (http_version (connection_request conn)) (http_status conn) msg (keep_alive conn)
        (content_length (connection_response conn)) ty (os_strftime (os_files os) (os_time os (os_calls os))) name) # ws) \<and>
      conn' = conn\<lparr>writequeue := q\<rparr> \<and> os' = sys_tick os)"
proof -
  let ?date = "os_strftime (os_files os) (os_time os (os_calls os))"
  let ?h = "head_text (http_version (connection_request conn)) (http_status conn) msg (keep_alive conn)
        (content_length (connection_response conn)) ty ?date name"
  note msg = status_text [OF known]
  have ty_len: "ty = None \<or> length (the ty) < 1024" using ct by (cases ty) (auto simp: content_type_is_def)
  have "length ?h < length ?date + 3000"
    by (rule length_head_text) (use msg ty_len name in \<open>auto simp: server_name_is_def\<close>)
  then have len: "length ?h < buffer_max" using date(2) by simp
  obtain b where b: "append_response_head config conn msg ?date buffer_init = Inr b" "buffer_holds b ?h"
    using adds_init [OF adds_response_head [OF _ date(1) ct name] len] msg by (auto simp: returns_iff)
  have "ptr b \<noteq> None" using text_buffer_nonempty [OF b(2) head_text_nonempty] by (auto simp: text_buffer_cells)
  then obtain q where "chunkqueue_prepend_buffer (writequeue conn) b = Inr q" "queue_rel q (Mem 0 ?h # ws)"
    using chunkqueue_prepend_buffer_rel [OF q b(2) _ len] by (auto simp: returns_iff)
  with known b(1) show ?thesis
    by (auto simp: connection_write_response_head_def sys_time_def)
qed

definition response_status :: "connection \<Rightarrow> u32" where
  "response_status conn = (if http_status conn = 0 then 403 else http_status conn)"

definition is_error_status :: "u32 \<Rightarrow> bool" where
  "is_error_status s \<longleftrightarrow> 400 \<le> s \<and> s < 600"

definition body_pieces :: "u32 \<Rightarrow> string \<Rightarrow> piece list \<Rightarrow> piece list" where
  "body_pieces s msg ws = (if s \<in> {204, 205, 304} then []
     else if is_error_status s then ws @ [Mem 0 (error_page s msg)] else ws)"

definition body_type :: "u32 \<Rightarrow> string option \<Rightarrow> string option" where
  "body_type s ty = (if is_error_status s then Some ''text/html'' else ty)"

text \<open>What the functions on the write side leave alone.\<close>

definition write_frame :: "connection \<Rightarrow> connection \<Rightarrow> bool" where
  "write_frame conn conn' \<longleftrightarrow> readqueue conn' = readqueue conn \<and> connection_request conn' = connection_request conn \<and>
     conn_socket_fd conn' = conn_socket_fd conn \<and> connection_index conn' = connection_index conn \<and>
     state conn' = state conn \<and> keep_alive conn' = keep_alive conn \<and> readable conn' = readable conn \<and>
     writeable conn' = writeable conn \<and> close_timeout_ts conn' = close_timeout_ts conn"

lemma write_frame_refl [simp]: "write_frame conn conn"
  by (simp add: write_frame_def)

lemma write_frame_trans: "write_frame a b \<Longrightarrow> write_frame b c \<Longrightarrow> write_frame a c"
  by (simp add: write_frame_def)

lemma write_frame_queue [simp]: "write_frame conn (conn\<lparr>writequeue := q\<rparr>)"
  by (simp add: write_frame_def)

lemma error_status_not_special: "is_error_status s \<Longrightarrow> s \<notin> {204, 205, 304}"
  by (auto simp: is_error_status_def)

lemma response_custom_body_ok [returns_rules]:
  assumes known: "query_http_status_string (http_status conn) = Some (k, msg)"
    and wf: "response_wf (connection_response conn)" and ct: "content_type_is conn ty"
    and q: "queue_rel (writequeue conn) ws"
  shows "returns (response_custom_body conn) (\<lambda>conn'. \<exists>q r. conn' = conn\<lparr>writequeue := q, connection_response := r,
      http_response_body_finished := http_response_body_finished conn \<or> http_status conn \<in> {204, 205, 304} \<or>
        is_error_status (http_status conn)\<rparr> \<and>
    queue_rel q (body_pieces (http_status conn) msg ws) \<and> content_type_is conn' (body_type (http_status conn) ty) \<and>
    response_wf r)"
proof -
  let ?s = "http_status conn" and ?r = "connection_response conn"
  have err: "?s < 400 \<or> 600 \<le> ?s \<longleftrightarrow> \<not> is_error_status ?s"
    by (auto simp: is_error_status_def not_less not_le)
  show ?thesis
  proof (cases "?s \<in> {204, 205, 304}")
    case True
    then have "\<not> is_error_status ?s" using error_status_not_special by blast
    moreover obtain wq where wq: "chunkqueue_reset (writequeue conn) = Inr wq" "queue_rel wq []"
      using chunkqueue_reset_rel [OF q] by (auto simp: returns_iff)
    ultimately show ?thesis
      unfolding response_custom_body_def if_P [OF True] wq(1) andthen.simps returns_Inr
      using True wf ct
      by (intro exI [of _ wq] exI [of _ ?r])
        (simp add: body_pieces_def body_type_def content_type_is_def wq(2))
  next
    case False
    show ?thesis
    proof (cases "is_error_status ?s")
      case True
      note msg = status_text [OF known]
      have len: "length (error_page ?s msg) < buffer_max" using length_error_page [of msg ?s] msg by simp
      obtain b where b: "append_error_page ?s msg buffer_init = Inr b" "buffer_holds b (error_page ?s msg)"
        using adds_init [OF adds_error_page len] msg by (auto simp: returns_iff)
      have "error_page ?s msg \<noteq> []" by (simp add: error_page_def http_error_content_def)
      then have "ptr b \<noteq> None" using text_buffer_nonempty [OF b(2)] by (auto simp: text_buffer_cells)
      then obtain wq where wq: "chunkqueue_append_buffer (writequeue conn) b = Inr wq"
          "queue_rel wq (ws @ [Mem 0 (error_page ?s msg)])"
        using chunkqueue_append_buffer_rel [OF q b(2) _ len] by (auto simp: returns_iff)
      obtain p0 c0 where old: "buffer_holds (fullpath ?r) p0" "buffer_holds (content_type ?r) c0"
        using wf by (auto simp: response_wf_def)
      obtain cb where cb: "buffer_copy_string (content_type ?r) (lit ''text/html'') = Inr cb" "text_buffer cb ''text/html''"
        using buffer_copy_string_holds [OF old(2), of "lit ''text/html''" "''text/html''"] text_buffer_nonempty
        by (auto simp: returns_iff)
      let ?r2 = "?r\<lparr>content_type := cb\<rparr>"
      have eq: "response_custom_body conn = Inr (conn\<lparr>writequeue := wq, http_response_body_finished := True,
          connection_response := ?r2\<rparr>)"
        using known b(1) wq(1) cb(1)
        unfolding response_custom_body_def if_not_P [OF False] err by (simp add: True)
      have "response_wf ?r2" using old(1) cb(2) by (auto simp: response_wf_def dest: text_buffer_holds)
      then show ?thesis unfolding eq returns_Inr
        using True wq(2) cb(2) error_status_not_special [OF True]
        by (intro exI [of _ wq] exI [of _ ?r2]) (simp add: body_pieces_def body_type_def content_type_is_def)
    next
      case no: False
      then have eq: "response_custom_body conn = Inr conn"
        unfolding response_custom_body_def if_not_P [OF False] err by simp
      show ?thesis unfolding eq returns_Inr using no False q ct wf
        by (intro exI [of _ "writequeue conn"] exI [of _ ?r]) (simp add: body_pieces_def body_type_def)
    qed
  qed
qed

text \<open>The whole response: the head, then the body.\<close>

definition response_pieces :: "connection \<Rightarrow> string \<Rightarrow> string option \<Rightarrow> string \<Rightarrow> string \<Rightarrow> piece list \<Rightarrow> piece list" where
  "response_pieces conn msg ty date name ws =
     (let s = response_status conn; body = body_pieces s msg ws in
      Mem 0 (head_text (http_version (connection_request conn)) s msg (keep_alive conn)
        (of_nat (queue_bytes body + queue_sent body)) (body_type s ty) date name) # body)"

lemma connection_handle_prepare_response_head_ok [returns_rules]:
  assumes known: "query_http_status_string (response_status conn) = Some (k, msg)"
    and wf: "response_wf (connection_response conn)" and ct: "content_type_is conn ty" and q: "queue_rel (writequeue conn) ws"
    and fin: "http_response_body_finished conn \<or> is_error_status (response_status conn)"
    and name: "server_name_is config name"
    and date: "NUL \<notin> set (os_strftime (os_files os) (os_time os (os_calls os)))"
      "length (os_strftime (os_files os) (os_time os (os_calls os))) < 128"
  shows "returns (connection_handle_prepare_response_head config conn os) (\<lambda>(conn', os'). os' = sys_tick os \<and>
     write_frame conn conn' \<and> http_response_body_finished conn' \<and> response_wf (connection_response conn') \<and>
     queue_rel (writequeue conn')
       (response_pieces conn msg ty (os_strftime (os_files os) (os_time os (os_calls os))) name ws))"
proof -
  define c0 where "c0 = (if http_status conn = 0 then conn\<lparr>http_status := 403\<rparr> else conn)"
  have c0: "http_status c0 = response_status conn" "write_frame conn c0" "connection_response c0 = connection_response conn"
      "writequeue c0 = writequeue conn" "content_type_is c0 ty"
      "http_response_body_finished c0 = http_response_body_finished conn"
    using ct by (simp_all add: c0_def response_status_def write_frame_def content_type_is_def)
  let ?body = "body_pieces (response_status conn) msg ws" and ?ty = "body_type (response_status conn) ty"
  have known0: "query_http_status_string (http_status c0) = Some (k, msg)"
    and wf0: "response_wf (connection_response c0)" and q0: "queue_rel (writequeue c0) ws"
    using known wf q c0 by simp_all
  have flag: "http_response_body_finished c0 \<or> http_status c0 \<in> {204, 205, 304} \<or> is_error_status (http_status c0)"
    unfolding c0(1,6) using fin by blast
  obtain c1 where c1a: "response_custom_body c0 = Inr c1" and c1b: "\<exists>q r. c1 = c0\<lparr>writequeue := q, connection_response := r,
      http_response_body_finished := True\<rparr> \<and>
      queue_rel q ?body \<and> content_type_is c1 ?ty \<and> response_wf r"
    using response_custom_body_ok [OF known0 wf0 c0(5) q0] unfolding eqTrueI [OF flag] unfolding c0(1) by (rule returns_obtain)
  from c1b obtain wq r where c1: "response_custom_body c0 = Inr c1"
      "c1 = c0\<lparr>writequeue := wq, connection_response := r, http_response_body_finished := True\<rparr>"
      "queue_rel wq ?body" "content_type_is c1 ?ty" "response_wf r"
    using c1a by blast
  let ?c2 = "c1\<lparr>connection_response := r\<lparr>content_length := of_nat (queue_bytes ?body + queue_sent ?body)\<rparr>\<rparr>"
  have step: "connection_handle_prepare_response_head config conn os = connection_write_response_head config ?c2 os"
    using c1(1,2) chunkqueue_length_rel [OF c1(3)]
    by (simp add: connection_handle_prepare_response_head_def c0_def [symmetric])
  have ct2: "content_type_is ?c2 ?ty" using c1(2,4) by (simp add: content_type_is_def)
  have known2: "query_http_status_string (http_status ?c2) = Some (k, msg)" using known0 c1(2) by simp
  have q2: "queue_rel (writequeue ?c2) ?body" using c1(2,3) by simp
  have fr: "write_frame conn ?c2" "http_response_body_finished ?c2" "response_wf (connection_response ?c2)"
    using c0(2) c1(2,5) by (simp_all add: write_frame_def response_wf_def)
  have same: "http_version (connection_request ?c2) = http_version (connection_request conn)" "keep_alive ?c2 = keep_alive conn"
      "http_status ?c2 = response_status conn"
    using c0(1,2) c1(2) by (simp_all add: write_frame_def)
  show ?thesis unfolding step
    by (rule returns_mono [OF connection_write_response_head_ok [OF known2 ct2 name q2 date]])
      (use fr same in \<open>auto simp: response_pieces_def Let_def write_frame_def\<close>)
qed

section \<open>Properties\<close>

text \<open>C12: The head the server puts in front of a response is exactly the text of \<open>head_text\<close>: the version of
  the request, the status line, \<open>Connection\<close> when it is not the default of the version, the length of the body
  queued (the error page included), its type, the date and the server's name. A status that was never set
  becomes 403, an error status replaces the type by \<open>text/html\<close> and appends the page, 204, 205 and 304
  drop the body; the rest of the connection is left alone.\<close>

theorem response_head_is_exact:
  assumes "query_http_status_string (response_status conn) = Some (k, msg)"
    and "response_wf (connection_response conn)" and "content_type_is conn ty" and "queue_rel (writequeue conn) ws"
    and "http_response_body_finished conn \<or> is_error_status (response_status conn)"
    and "server_name_is config name" and "os_strftime (os_files os) (os_time os (os_calls os)) = date"
    and "NUL \<notin> set date" and "length date < 128"
  shows "\<exists>conn' os'. connection_handle_prepare_response_head config conn os = Inr (conn', os') \<and>
     write_frame conn conn' \<and> http_response_body_finished conn' \<and>
     queue_rel (writequeue conn') (response_pieces conn msg ty date name ws)"
  using connection_handle_prepare_response_head_ok [OF assms(1-6), of os] assms(7-9) by (auto simp: returns_iff)

definition named_config :: server_config where
  "named_config = sample_config\<lparr>service_name := sample_buffer ''minihttpd''\<rparr>"

lemma named_config_name: "server_name_is named_config ''minihttpd''"
  using text_sample_buffer [of "''minihttpd''"] by (simp add: server_name_is_def named_config_def)

lemma used_buffer_init [simp]: "used_bytes buffer_init = 0" "\<exists>s. buffer_holds buffer_init s"
  by (simp_all add: buffer_init_def buffer_holds_def)

theorem response_head_is_exact_witness:
  "\<exists>conn' os'. connection_handle_prepare_response_head named_config ((sample_connection [])\<lparr>http_status := 404\<rparr>)
       (sample_os (\<lambda>_ _. Inr [])) = Inr (conn', os') \<and>
     write_frame ((sample_connection [])\<lparr>http_status := 404\<rparr>) conn' \<and> http_response_body_finished conn' \<and>
     queue_rel (writequeue conn') (response_pieces ((sample_connection [])\<lparr>http_status := 404\<rparr>) ''Not Found'' None
       ''2020'' ''minihttpd'' [])"
  by (rule response_head_is_exact [OF _ _ _ _ _ named_config_name, where k = 404])
    (simp_all add: sample_connection_def response_status_def query_http_status_string_def http_status_table_def
      content_type_is_def response_initialize_def response_wf_def queue_rel_init is_error_status_def sample_os_def
      sample_fs_def)

end
