(* ===== verification/Conn_Write.thy ===== *)
theory Conn_Write
  imports Conn_Head
begin

text \<open>
  Sending (\<open>src/connection.cpp\<close>): the functions that hand the write queue to the socket. \<open>writev\<close> takes
  up to 16 memory chunks at a time, a file chunk is sent through a window of 256 KiB mapped with \<open>mmap\<close>.
  The lemmas show that the bytes on the wire followed by what stays queued are always what the queue
  stood for, and that the loop ends.
\<close>

section \<open>The C code: sending\<close>

fun cell_bytes :: "cell list \<Rightarrow> fault + string" where
  "cell_bytes [] = Inr []"
| "cell_bytes (None # cs) = Inl Uninitialised"
| "cell_bytes (Some c # cs) = andthen (cell_bytes cs) (\<lambda>s. Inr (c # s))"

text \<open>The loop that fills the \<open>iovec\<close>: the number of entries, their total length, their bytes.\<close>

fun gather_chunks :: "nat \<Rightarrow> chunkqueue \<Rightarrow> addr option \<Rightarrow> nat \<Rightarrow> u32 \<Rightarrow> string \<Rightarrow> fault + (nat \<times> u32 \<times> string)" where
  "gather_chunks 0 q p chunk_index send_bytes bs = Inl Diverges"
| "gather_chunks (Suc n) q None chunk_index send_bytes bs = Inr (chunk_index, send_bytes, bs)"
| "gather_chunks (Suc n) q (Some a) chunk_index send_bytes bs = andthen (load_chunk q a) (\<lambda>c.
     if chunk_type c = CHUNK_MEM \<and> chunk_index < 16
     then (if chunk_offset c \<le> buffer_string_length (mem c)
           then let chunk_len = buffer_string_length (mem c) - chunk_offset c
                in if 0 < chunk_len
                   then andthen (read_cells (advance (ptr (mem c)) (unat (chunk_offset c))) (unat chunk_len)) (\<lambda>xs.
                        andthen (cell_bytes xs) (\<lambda>s.
                        gather_chunks n q (next_chunk c) (chunk_index + 1) (send_bytes + chunk_len) (bs @ s)))
                   else gather_chunks n q (next_chunk c) chunk_index send_bytes bs
           else Inl AssertFailed)
     else Inr (chunk_index, send_bytes, bs))"

definition first_chunk :: "chunkqueue \<Rightarrow> fault + (addr \<times> chunk)" where
  "first_chunk q = (case q_first q of None \<Rightarrow> Inl AssertFailed
     | Some a \<Rightarrow> andthen (load_chunk q a) (\<lambda>c. Inr (a, c)))"

text \<open>
  After a failed \<open>writev\<close> the code looks at its result, -1, where it means \<open>errno\<close>, so it answers -2
  for every error.
\<close>

definition connection_writev_mem_chunk ::
  "connection \<Rightarrow> os_env \<Rightarrow> fault + (int \<times> connection \<times> os_env)" where
  "connection_writev_mem_chunk conn os =
     (let q = writequeue conn
      in andthen (first_chunk q) (\<lambda>(a, c).
         if chunk_type c \<noteq> CHUNK_MEM then Inl AssertFailed
         else andthen (gather_chunks (Suc (brk q)) q (q_first q) 0 0 []) (\<lambda>(chunk_index, send_bytes, bs).
              if chunk_index = 0
              then andthen (chunkqueue_remove_finished_chunk q) (\<lambda>q1. Inr (0, conn\<lparr>writequeue := q1\<rparr>, os))
              else let (res, os1) = sys_write os (conn_socket_fd conn) bs
                   in case res of
                        Inl e \<Rightarrow> Inr (-2, conn, os1)
                      | Inr n \<Rightarrow>
                          andthen (if 0 < n
                                   then andthen (chunkqueue_mark_written q (of_nat n)) (\<lambda>(q1, remaining_bytes).
                                        if remaining_bytes \<noteq> 0 then Inl AssertFailed else Inr q1)
                                   else Inr q) (\<lambda>q1.
                          Inr (if of_nat n = send_bytes then 0 else 1, conn\<lparr>writequeue := q1\<rparr>, os1)))))"

text \<open>
  Opening the file and mapping the window that holds the next byte to send; -1 when either fails.
\<close>

definition file_window :: "u32 \<Rightarrow> u32 \<Rightarrow> chunk \<Rightarrow> os_env \<Rightarrow> fault + (bool \<times> chunk \<times> os_env)" where
  "file_window offset file_end c os =
     andthen (cstr (ptr (filename c))) (\<lambda>name.
     let (fd, os1) = (if file_fd c < 0 then sys_open os name else (file_fd c, os));
         c1 = c\<lparr>file_fd := fd\<rparr>
     in if fd < 0 then Inr (False, c1, os1)
        else if mmap_start c1 = None \<or> offset < mmap_offset c1 \<or> mmap_offset c1 + mmap_len c1 \<le> offset
        then let start = offset - offset mod 4096;
                 len = (if file_end < start + 64 * 4096 then file_end - start else 64 * 4096);
                 (m, os2) = sys_mmap os1 name (unat start) (unat len)
             in Inr (m \<noteq> None, c1\<lparr>mmap_start := m, mmap_offset := start, mmap_len := len\<rparr>, os2)
        else Inr (True, c1, os1))"

definition connection_send_file_chunk ::
  "connection \<Rightarrow> os_env \<Rightarrow> fault + (int \<times> connection \<times> os_env)" where
  "connection_send_file_chunk conn os =
     (let q = writequeue conn
      in andthen (first_chunk q) (\<lambda>(a, c).
         if chunk_type c \<noteq> CHUNK_FILE \<or> file_length c < chunk_offset c then Inl AssertFailed
         else case file_offset c of
           None \<Rightarrow> Inl Uninitialised
         | Some off \<Rightarrow>
             let offset = off + chunk_offset c;
                 send_len = file_length c - chunk_offset c;
                 file_end = off + file_length c
             in if send_len = 0
                then andthen (chunkqueue_push_unused_chunk q a) (\<lambda>q1. Inr (0, conn\<lparr>writequeue := q1\<rparr>, os))
                else andthen (file_window offset file_end c os) (\<lambda>(ok, c1, os1).
                     let q1 = put_chunk q a c1; conn1 = conn\<lparr>writequeue := q1\<rparr>
                     in if \<not> ok then Inr (-1, conn1, os1)
                        else case mmap_start c1 of
                               None \<Rightarrow> Inl AssertFailed
                             | Some bytes \<Rightarrow>
                                 if offset < mmap_offset c1 then Inl AssertFailed
                                 else let skip = offset - mmap_offset c1;
                                          available = mmap_len c1 - skip;
                                          len = (if available < send_len then available else send_len)
                                      in if length bytes < unat skip + unat len then Inl OutOfBounds
                                         else let (res, os2) = sys_write os1 (conn_socket_fd conn)
                                                                 (take (unat len) (drop (unat skip) bytes))
                                              in case res of
                                                   Inl e \<Rightarrow> Inr (if e = EINTR \<or> e = EAGAIN then -1 else -2, conn1, os2)
                                                 | Inr n \<Rightarrow>
                                                     andthen (if 0 < n
                                                              then andthen (chunkqueue_mark_written q1 (of_nat n))
                                                                     (\<lambda>(q2, _). Inr q2)
                                                              else Inr q1) (\<lambda>q2.
                                                     Inr (if of_nat n = len then 0 else 1,
                                                          conn\<lparr>writequeue := q2\<rparr>, os2)))))"

text \<open>
  The loop over the queue. Each successful round sends at least one byte or removes a chunk, so the
  bytes left plus the number of chunks, counted over all live chunks, is enough fuel.
\<close>

fun connection_handle_write_loop :: "nat \<Rightarrow> connection \<Rightarrow> os_env \<Rightarrow> fault + (int \<times> connection \<times> os_env)" where
  "connection_handle_write_loop 0 conn os = Inl Diverges"
| "connection_handle_write_loop (Suc k) conn os =
     (case q_first (writequeue conn) of
        None \<Rightarrow> Inr (0, conn, os)
      | Some a \<Rightarrow> andthen (load_chunk (writequeue conn) a) (\<lambda>c.
          andthen (case chunk_type c of
                     CHUNK_MEM \<Rightarrow> connection_writev_mem_chunk conn os
                   | CHUNK_FILE \<Rightarrow> connection_send_file_chunk conn os) (\<lambda>(n, conn1, os1).
          if n \<noteq> 0 then Inr (n, conn1, os1) else connection_handle_write_loop k conn1 os1)))"

definition write_fuel :: "chunkqueue \<Rightarrow> nat" where
  "write_fuel q = Suc (sum_list (map (\<lambda>a. case cells q a of None \<Rightarrow> 0
     | Some c \<Rightarrow> Suc (unat (chunk_remaining_len c))) [0..<brk q]))"

definition connection_handle_write :: "connection \<Rightarrow> os_env \<Rightarrow> fault + (int \<times> connection \<times> os_env)" where
  "connection_handle_write conn os = connection_handle_write_loop (write_fuel (writequeue conn)) conn os"

definition connection_handle_write_state ::
  "int \<Rightarrow> connection \<Rightarrow> os_env \<Rightarrow> fault + (int \<times> connection \<times> os_env)" where
  "connection_handle_write_state cur_ts conn os =
     (if \<not> writeable conn then Inr (-1, conn, os)
      else andthen (connection_handle_write conn os) (\<lambda>(n, conn1, os1).
           Inr (0,
                (if n = 0
                 then (if http_response_body_finished conn1 then connection_set_state conn1 CON_STATE_RESPONSE_END
                       else conn1)\<lparr>active_write_ts := cur_ts\<rparr>
                 else if n = -1 then conn1\<lparr>writeable := False\<rparr>
                 else if n = 1 then conn1\<lparr>writeable := False, active_write_ts := cur_ts\<rparr>
                 else if n = -2 then connection_set_state conn1 CON_STATE_ERROR
                 else conn1), os1)))"

section \<open>Mapped windows\<close>

text \<open>
  A mapped window shows the bytes of the file at its place. \<open>maps_kept q q'\<close>: no operation of the queue
  changes the window of a chunk or its file but by dropping the window.
\<close>

definition map_ok :: "(string \<Rightarrow> string) \<Rightarrow> chunk \<Rightarrow> bool" where
  "map_ok contents c \<longleftrightarrow> (\<forall>bs. mmap_start c = Some bs \<longrightarrow> (\<exists>f. buffer_holds (filename c) f \<and>
     bs = take (unat (mmap_len c)) (drop (unat (mmap_offset c)) (contents f)) \<and> length bs = unat (mmap_len c) \<and>
     unat (mmap_offset c) + unat (mmap_len c) < 2 ^ 32))"

definition maps_ok :: "(string \<Rightarrow> string) \<Rightarrow> chunkqueue \<Rightarrow> bool" where
  "maps_ok contents q \<longleftrightarrow> (\<forall>a c. cells q a = Some c \<longrightarrow> map_ok contents c)"

definition maps_kept :: "chunkqueue \<Rightarrow> chunkqueue \<Rightarrow> bool" where
  "maps_kept q q' \<longleftrightarrow> (\<forall>a c'. cells q' a = Some c' \<longrightarrow> mmap_start c' = None \<or>
     (\<exists>c. cells q a = Some c \<and> mmap_start c' = mmap_start c \<and> mmap_offset c' = mmap_offset c \<and>
        mmap_len c' = mmap_len c \<and> filename c' = filename c))"

lemma maps_kept_ok: "maps_kept q q' \<Longrightarrow> maps_ok contents q \<Longrightarrow> maps_ok contents q'"
  by (fastforce simp: maps_kept_def maps_ok_def map_ok_def)

lemma maps_kept_refl [simp]: "maps_kept q q"
  by (auto simp: maps_kept_def)

lemma maps_kept_trans: "maps_kept p q \<Longrightarrow> maps_kept q r \<Longrightarrow> maps_kept p r"
  unfolding maps_kept_def by (metis (no_types, lifting))

lemma maps_kept_cells: "cells q' = cells q \<Longrightarrow> maps_kept q q'"
  by (auto simp: maps_kept_def)

lemma maps_kept_put:
  "cells q a = Some c \<Longrightarrow> mmap_start c' = mmap_start c \<Longrightarrow> mmap_offset c' = mmap_offset c \<Longrightarrow>
   mmap_len c' = mmap_len c \<Longrightarrow> filename c' = filename c \<Longrightarrow> maps_kept q (put_chunk q a c')"
  by (auto simp: maps_kept_def)

lemma push_unused_maps_kept: "chunkqueue_push_unused_chunk q a = Inr q' \<Longrightarrow> maps_kept q q'"
  by (auto simp: chunkqueue_push_unused_chunk_def chunk_free_def andthen_Inr_iff maps_kept_def chunk_reset_def
      split: if_splits)

lemma pop_first_maps_kept:
  assumes "chunkqueue_pop_first q a c = Inr q'"
  shows "maps_kept q q'"
proof -
  let ?q1 = "q\<lparr>q_first := next_chunk c\<rparr>"
  let ?q2 = "if q_last ?q1 = Some a then ?q1\<lparr>q_last := None\<rparr> else ?q1"
  have "maps_kept q ?q2" by (simp add: maps_kept_def)
  moreover have "maps_kept ?q2 q'"
    by (rule push_unused_maps_kept) (use assms in \<open>simp add: chunkqueue_pop_first_def Let_def\<close>)
  ultimately show ?thesis by (rule maps_kept_trans)
qed

lemma mark_written_loop_maps_kept:
  "chunkqueue_mark_written_loop n q len = Inr (q', r) \<Longrightarrow> maps_kept q q'"
proof (induction n arbitrary: q len)
  case (Suc n)
  show ?case
  proof (cases "q_first q")
    case (Some a)
    with Suc.prems obtain c where c: "cells q a = Some c"
      by (auto simp: andthen_Inr_iff)
    let ?k = "chunk_remaining_len c" and ?c = "\<lambda>k. c\<lparr>chunk_offset := chunk_offset c + k\<rparr>"
    have put: "maps_kept q (put_chunk q a (?c k))" for k
      by (rule maps_kept_put [OF c]) simp_all
    show ?thesis
    proof (cases "\<not> (len = 0 \<and> 0 < ?k) \<and> ?k \<le> len")
      case True
      then have "\<not> (len = 0 \<and> 0 < ?k)" "?k \<le> len" by simp_all
      with Suc.prems Some c obtain q1 where q1: "chunkqueue_pop_first (put_chunk q a (?c ?k)) a (?c ?k) = Inr q1"
          "chunkqueue_mark_written_loop n q1 (len - ?k) = Inr (q', r)"
        by (auto simp: load_chunk_def Let_def andthen_Inr_iff)
      from maps_kept_trans [OF put pop_first_maps_kept [OF q1(1)]] Suc.IH [OF q1(2)] show ?thesis
        by (rule maps_kept_trans)
    next
      case False
      with Suc.prems Some c put show ?thesis
        by (cases "len = 0 \<and> 0 < ?k") (auto simp: load_chunk_def Let_def)
    qed
  qed (use Suc.prems in simp)
qed simp

lemma remove_finished_loop_maps_kept:
  "chunkqueue_remove_finished_loop n q = Inr q' \<Longrightarrow> maps_kept q q'"
proof (induction n arbitrary: q)
  case (Suc n)
  show ?case
  proof (cases "q_first q")
    case (Some a)
    with Suc.prems obtain c where c: "cells q a = Some c" by (auto simp: andthen_Inr_iff)
    show ?thesis
    proof (cases "0 < chunk_remaining_len c")
      case False
      with Suc.prems Some c obtain q1 where q1: "chunkqueue_pop_first q a c = Inr q1"
          "chunkqueue_remove_finished_loop n q1 = Inr q'"
        by (auto simp: load_chunk_def andthen_Inr_iff)
      from pop_first_maps_kept [OF q1(1)] Suc.IH [OF q1(2)] show ?thesis by (rule maps_kept_trans)
    qed (use Suc.prems Some c in \<open>simp add: load_chunk_def\<close>)
  qed (use Suc.prems in simp)
qed simp

lemma mark_written_ok:
  assumes "queue_rel q vs" and "maps_ok contents q"
  shows "returns (chunkqueue_mark_written q len) (\<lambda>(q', r). queue_rel q' (consume (unat len) vs) \<and>
     unat r = unat len - queue_bytes vs \<and> maps_ok contents q')"
  using chunkqueue_mark_written_rel [OF assms(1), of len] maps_kept_ok [OF _ assms(2)]
  by (auto simp: returns_iff intro: mark_written_loop_maps_kept [OF chunkqueue_mark_written_def [symmetric, THEN trans]])

lemma remove_finished_ok:
  assumes "queue_rel q vs" and "maps_ok contents q"
  shows "returns (chunkqueue_remove_finished_chunk q) (\<lambda>q'. queue_rel q' (consume 0 vs) \<and> maps_ok contents q')"
  using chunkqueue_remove_finished_chunk_rel [OF assms(1)] maps_kept_ok [OF _ assms(2)]
  by (auto simp: returns_iff intro: remove_finished_loop_maps_kept [OF chunkqueue_remove_finished_chunk_def [symmetric, THEN trans]])

section \<open>What is sent\<close>

text \<open>
  A queue that can be sent: every file piece is not empty, lies inside its file, which ends at least
  one window below 4 GiB, and names it by a C string.
\<close>

definition file_window_size :: nat where "file_window_size = 64 * 4096"

fun piece_ok :: "(string \<Rightarrow> string) \<Rightarrow> piece \<Rightarrow> bool" where
  "piece_ok contents (Mem k s) \<longleftrightarrow> True"
| "piece_ok contents (File k f pos n) \<longleftrightarrow> f \<noteq> [] \<and> NUL \<notin> set f \<and> 0 < n \<and> pos + n \<le> length (contents f) \<and>
     pos + n + file_window_size < 2 ^ 32"

definition sendable :: "(string \<Rightarrow> string) \<Rightarrow> piece list \<Rightarrow> bool" where
  "sendable contents vs \<longleftrightarrow> (\<forall>p \<in> set vs. piece_ok contents p) \<and> queue_bytes vs + queue_sent vs < 2 ^ 31"

lemma piece_ok_backed: "piece_ok contents p \<Longrightarrow> piece_backed contents p"
  by (cases p) auto

lemma piece_ok_drop: "piece_ok contents p \<Longrightarrow> j < piece_len p \<Longrightarrow> piece_ok contents (drop_piece j p)"
  by (cases p) auto

lemma pieces_ok_consume:
  "\<forall>p \<in> set vs. piece_ok contents p \<Longrightarrow> \<forall>p \<in> set (consume n vs). piece_ok contents p"
  by (induction n vs rule: consume.induct) (auto intro: piece_ok_drop)

lemma total_consume: "queue_bytes (consume n vs) + queue_sent (consume n vs) \<le> queue_bytes vs + queue_sent vs"
proof (induction n vs rule: consume.induct)
  case (2 n p ps)
  then show ?case by (cases p) (auto simp: queue_bytes_def queue_sent_def)
qed simp

lemma sendable_consume: "sendable contents vs \<Longrightarrow> sendable contents (consume n vs)"
  using pieces_ok_consume total_consume [of n vs] by (auto simp: sendable_def)

lemma length_consume: "length (consume n vs) \<le> length vs"
  by (induction n vs rule: consume.induct) auto

lemma sendable_stream:
  assumes "sendable contents vs"
  shows "length (queue_stream contents vs) = queue_bytes vs"
    and "queue_stream contents (consume n vs) = drop n (queue_stream contents vs)"
proof -
  have backed: "\<forall>p \<in> set vs. piece_backed contents p"
    using assms piece_ok_backed by (auto simp: sendable_def)
  then show "queue_stream contents (consume n vs) = drop n (queue_stream contents vs)"
    by (rule queue_stream_consume)
  from backed show "length (queue_stream contents vs) = queue_bytes vs"
    by (induction vs) (auto simp: queue_stream_def length_piece_stream)
qed

text \<open>
  \<open>sent contents conn vs os conn' ws os'\<close>: between the two states only bytes went out on the socket of
  the connection, and they are the front of what the queue stood for; the rest is still queued.
\<close>

definition sent ::
  "(string \<Rightarrow> string) \<Rightarrow> connection \<Rightarrow> piece list \<Rightarrow> os_env \<Rightarrow> connection \<Rightarrow> piece list \<Rightarrow> os_env \<Rightarrow> bool" where
  "sent contents conn vs os conn' ws os' \<longleftrightarrow> (\<exists>q. conn' = conn\<lparr>writequeue := q\<rparr>) \<and>
     queue_rel (writequeue conn') ws \<and> maps_ok contents (writequeue conn') \<and> sendable contents ws \<and>
     same_os os os' \<and> queue_bytes ws \<le> queue_bytes vs \<and> length ws \<le> length vs \<and>
     (\<exists>bss. trace os' = trace os @ map (Sent (conn_socket_fd conn)) bss \<and>
        queue_stream contents vs = concat bss @ queue_stream contents ws)"

lemma sent_refl:
  "queue_rel (writequeue conn) vs \<Longrightarrow> maps_ok contents (writequeue conn) \<Longrightarrow> sendable contents vs \<Longrightarrow>
   sent contents conn vs os conn vs os"
  unfolding sent_def by (auto intro: exI [of _ "writequeue conn"] exI [of _ "[]"])

lemma sent_trans:
  assumes "sent contents conn us os conn' vs os'" and "sent contents conn' vs os' conn'' ws os''"
  shows "sent contents conn us os conn'' ws os''"
proof -
  from assms obtain bs cs where
    "trace os' = trace os @ map (Sent (conn_socket_fd conn)) bs" "queue_stream contents us = concat bs @ queue_stream contents vs"
    "trace os'' = trace os' @ map (Sent (conn_socket_fd conn')) cs" "queue_stream contents vs = concat cs @ queue_stream contents ws"
    by (auto simp: sent_def)
  moreover have "conn_socket_fd conn' = conn_socket_fd conn" using assms(1) by (auto simp: sent_def)
  ultimately have "trace os'' = trace os @ map (Sent (conn_socket_fd conn)) (bs @ cs)"
    "queue_stream contents us = concat (bs @ cs) @ queue_stream contents ws" by simp_all
  then show ?thesis using assms same_os_trans unfolding sent_def by (auto simp del: map_append concat_append)
qed

text \<open>One successful write of a prefix of the stream.\<close>

lemma sent_consume:
  assumes "queue_rel q (consume n vs)" and "maps_ok contents q" and "sendable contents vs" and "n \<le> queue_bytes vs"
    and "same_os os os'" and "trace os' = trace os @ [Sent (conn_socket_fd conn) (take n (queue_stream contents vs))]"
  shows "sent contents conn vs os (conn\<lparr>writequeue := q\<rparr>) (consume n vs) os'"
  unfolding sent_def using assms sendable_consume [OF assms(3)] sendable_stream [OF assms(3)] length_consume [of n vs]
  by (auto simp: consume_bytes intro!: exI [of _ q] exI [of _ "[take n (queue_stream contents vs)]"])

section \<open>Memory chunks\<close>

lemma cell_bytes_map [simp]: "cell_bytes (map Some s) = Inr s"
  by (induction s) simp_all

lemma read_mem_chunk:
  assumes "chunk_view c (Mem k s)"
  shows "andthen (read_cells (advance (ptr (mem c)) (unat (chunk_offset c))) (length s)) cell_bytes = Inr s"
proof -
  from assms obtain t cs where t: "buffer_holds (mem c) t" "ptr (mem c) = Some cs" "unat (chunk_offset c) \<le> length t"
      "s = drop (unat (chunk_offset c)) t" by auto
  show ?thesis
  proof (cases "s = []")
    case False
    then have "text_buffer (mem c) t" using t by (intro text_buffer_nonempty) auto
    then obtain rest where "cs = map Some t @ Some NUL # rest" using t(2) by (auto simp: text_buffer_cells)
    then have "take (length s) (drop (unat (chunk_offset c)) cs) = map Some s" using t(3,4) by (simp add: drop_map)
    then show ?thesis using t \<open>cs = _\<close> by (simp add: advance_def)
  qed (use t in \<open>simp add: advance_def\<close>)
qed

text \<open>The length and the bytes a memory chunk offers are those of its piece.\<close>

lemma mem_chunk_offers:
  assumes "chunk_view c (Mem k s)"
  shows "unat (buffer_string_length (mem c) - chunk_offset c) = length s" "chunk_offset c \<le> buffer_string_length (mem c)"
proof -
  from assms obtain t where t: "buffer_holds (mem c) t" "unat (chunk_offset c) \<le> length t" "s = drop (unat (chunk_offset c)) t"
    by auto
  show "chunk_offset c \<le> buffer_string_length (mem c)" using t buffer_string_length_holds [OF t(1)] by (simp add: word_le_nat_alt)
  then show "unat (buffer_string_length (mem c) - chunk_offset c) = length s"
    using t buffer_string_length_holds [OF t(1)] by (simp add: unat_sub_u32)
qed

lemma gather_chunks_ok:
  "linked (cells q) p us \<Longrightarrow> views q us vs \<Longrightarrow> length us < n \<Longrightarrow> unat sb + queue_bytes vs < 2 ^ 32 \<Longrightarrow>
   (\<forall>v \<in> set vs. piece_backed contents v) \<Longrightarrow>
   returns (gather_chunks n q p i sb bs) (\<lambda>(i', sb', bs'). \<exists>m. m \<le> queue_bytes vs \<and> i \<le> i' \<and> (i' = i \<longleftrightarrow> m = 0) \<and>
     unat sb' = unat sb + m \<and> bs' = bs @ take m (queue_stream contents vs) \<and>
     (m = 0 \<and> i < 16 \<longrightarrow> (case vs of Mem k s # ws \<Rightarrow> s = [] | _ \<Rightarrow> True)))"
proof (induction n arbitrary: p us vs i sb bs)
  case (Suc n)
  show ?case
  proof (cases us)
    case Nil
    with Suc.prems show ?thesis by simp
  next
    case (Cons a us')
    with Suc.prems(1,2) obtain c v vs' where c: "p = Some a" "cells q a = Some c" "linked (cells q) (next_chunk c) us'"
      and vs: "vs = v # vs'" "chunk_view c v" "views q us' vs'"
      by (cases vs) (auto split: option.splits)
    have IH: "returns (gather_chunks n q (next_chunk c) j sb2 bs2) (\<lambda>(i', sb', bs'). \<exists>m. m \<le> queue_bytes vs' \<and> j \<le> i' \<and>
        (i' = j \<longleftrightarrow> m = 0) \<and> unat sb' = unat sb2 + m \<and> bs' = bs2 @ take m (queue_stream contents vs'))"
      if "unat sb2 + queue_bytes vs' < 2 ^ 32" for j sb2 bs2
      by (rule returns_mono [OF Suc.IH [OF c(3) vs(3) _ that]]) (use Suc.prems(3,5) Cons vs(1) in auto)
    show ?thesis
    proof (cases "chunk_type c = CHUNK_MEM \<and> i < 16")
      case False
      then have stop: "\<not> (chunk_type c = CHUNK_MEM \<and> i < 16)" by simp
      have "i < 16 \<Longrightarrow> (case v of Mem k s \<Rightarrow> s = [] | _ \<Rightarrow> True)" using False vs(2) by (cases v) auto
      moreover have "gather_chunks (Suc n) q p i sb bs = Inr (i, sb, bs)"
        using c(1,2) by (simp add: load_chunk_def if_not_P [OF stop] del: de_Morgan_conj)
      ultimately show ?thesis using vs(1) by (auto intro!: exI [of _ "0::nat"] split: piece.splits)
    next
      case mem: True
      then obtain k s where v: "v = Mem k s" using vs(2) by (cases v) auto
      let ?len = "buffer_string_length (mem c) - chunk_offset c"
      note len = mem_chunk_offers [OF vs(2) [unfolded v]]
      have stream: "queue_stream contents vs = s @ queue_stream contents vs'"
        by (simp add: vs(1) v queue_stream_def)
      have bytes: "queue_bytes vs = length s + queue_bytes vs'" by (simp add: vs(1) v)
      show ?thesis
      proof (cases "s = []")
        case True
        have "returns (gather_chunks n q (next_chunk c) i sb bs) (\<lambda>(i', sb', bs'). \<exists>m. m \<le> queue_bytes vs' \<and> i \<le> i' \<and>
            (i' = i \<longleftrightarrow> m = 0) \<and> unat sb' = unat sb + m \<and> bs' = bs @ take m (queue_stream contents vs'))"
          by (rule IH) (use Suc.prems(4) bytes in simp)
        then show ?thesis using True mem c vs(1) v len stream bytes
          by (simp add: u32_pos_iff Let_def load_chunk_def)
      next
        case False
        obtain xs where xs: "read_cells (advance (ptr (mem c)) (unat (chunk_offset c))) (length s) = Inr xs" "cell_bytes xs = Inr s"
          using read_mem_chunk [of c k s] vs(2) v by (auto simp: andthen_Inr_iff)
        have sum: "unat (sb + ?len) = unat sb + length s" using Suc.prems(4) len bytes by (subst unat_add_u32) simp_all
        have "returns (gather_chunks n q (next_chunk c) (i + 1) (sb + ?len) (bs @ s)) (\<lambda>(i', sb', bs'). \<exists>m. m \<le> queue_bytes vs' \<and>
            i + 1 \<le> i' \<and> (i' = i + 1 \<longleftrightarrow> m = 0) \<and> unat sb' = unat (sb + ?len) + m \<and>
            bs' = (bs @ s) @ take m (queue_stream contents vs'))"
          by (rule IH) (use Suc.prems(4) bytes sum in simp)
        then have "returns (gather_chunks n q (next_chunk c) (i + 1) (sb + ?len) (bs @ s)) (\<lambda>(i', sb', bs'). \<exists>m. m \<le> queue_bytes vs \<and>
            i \<le> i' \<and> (i' = i \<longleftrightarrow> m = 0) \<and> unat sb' = unat sb + m \<and> bs' = bs @ take m (queue_stream contents vs) \<and>
            (m = 0 \<and> i < 16 \<longrightarrow> (case vs of Mem k s # ws \<Rightarrow> s = [] | _ \<Rightarrow> True)))"
        proof (rule returns_mono, clarify)
          fix i' sb' bs' m
          assume "m \<le> queue_bytes vs'" "i + 1 \<le> i'" "unat sb' = unat (sb + ?len) + m"
          then show "\<exists>m'. m' \<le> queue_bytes vs \<and> i \<le> i' \<and> (i' = i \<longleftrightarrow> m' = 0) \<and> unat sb' = unat sb + m' \<and>
              (bs @ s) @ take m (queue_stream contents vs') = bs @ take m' (queue_stream contents vs) \<and>
              (m' = 0 \<and> i < 16 \<longrightarrow> (case vs of Mem k s # ws \<Rightarrow> s = [] | _ \<Rightarrow> True))"
            using sum bytes stream False by (intro exI [of _ "length s + m"]) simp
        qed
        then show ?thesis using False mem c len xs by (simp add: u32_pos_iff Let_def load_chunk_def)
      qed
    qed
  qed
qed simp

text \<open>
  What both kinds of chunks have in common: \<open>write\<close> is given the first bytes of the stream; it fails, takes nothing, or takes
  some of them, and these are acknowledged.
\<close>

lemma write_acknowledged:
  fixes sb :: u32
  assumes q: "queue_rel q vs" and maps: "maps_ok contents q" and ok: "sendable contents vs" and fit: "writes_fit os1"
    and same: "same_os os os1" "trace os1 = trace os"
    and bs: "bs = take (unat sb) (queue_stream contents vs)" and len: "unat sb \<le> queue_bytes vs" "sb \<noteq> 0"
  obtains (fails) e where "os_write os1 (os_calls os1) bs = Inl e" "sys_write os1 (conn_socket_fd conn) bs = (Inl e, sys_tick os1)"
      "sent contents conn vs os (conn\<lparr>writequeue := q\<rparr>) vs (sys_tick os1)"
    | (nothing) os2 where "os_write os1 (os_calls os1) bs = Inr 0" "sys_write os1 (conn_socket_fd conn) bs = (Inr 0, os2)"
      "sent contents conn vs os (conn\<lparr>writequeue := q\<rparr>) vs os2"
    | (some) n q1 os2 where "os_write os1 (os_calls os1) bs = Inr n" "sys_write os1 (conn_socket_fd conn) bs = (Inr n, os2)" "0 < n"
      "chunkqueue_mark_written q (of_nat n) = Inr (q1, 0)" "sent contents conn vs os (conn\<lparr>writequeue := q1\<rparr>) (consume n vs) os2"
      "queue_bytes (consume n vs) + length (consume n vs) < queue_bytes vs + length vs"
proof (cases "os_write os1 (os_calls os1) bs")
  case (Inl e)
  have "sent contents conn vs os (conn\<lparr>writequeue := q\<rparr>) vs (sys_tick os1)"
    unfolding sent_def using q maps ok same by (auto intro!: exI [of _ q] exI [of _ "[]"])
  with Inl show ?thesis by (intro fails) (simp_all add: sys_write_def Let_def)
next
  case (Inr n)
  have "length bs = unat sb" using sendable_stream(1) [OF ok] len(1) bs by simp
  with Inr fit have n: "n \<le> unat sb" unfolding writes_fit_def by metis
  let ?os = "sys_emit [Sent (conn_socket_fd conn) (take n bs)] (sys_tick os1)"
  have wr: "sys_write os1 (conn_socket_fd conn) bs = (Inr n, ?os)" using Inr by (simp add: sys_write_def Let_def)
  have take: "take n bs = take n (queue_stream contents vs)" using n by (simp add: bs)
  have un: "unat (of_nat n :: u32) = n" using le_less_trans [OF n unat_u32_lt] by (rule unat_of_nat_u32)
  have nle: "n \<le> queue_bytes vs" using n len(1) by simp
  show ?thesis
  proof (cases "n = 0")
    case True
    have s: "sent contents conn vs os (conn\<lparr>writequeue := q\<rparr>) vs ?os"
      unfolding sent_def using q maps ok same True by (auto intro!: exI [of _ q] exI [of _ "[[]]"])
    show ?thesis by (rule nothing) (use True Inr wr s in simp_all)
  next
    case False
    obtain q1 r where q1: "chunkqueue_mark_written q (of_nat n) = Inr (q1, r)" "queue_rel q1 (consume n vs)"
        "unat r = n - queue_bytes vs" "maps_ok contents q1"
      using mark_written_ok [OF q maps, of "of_nat n"] unfolding un by (rule returns_obtain) blast
    have "r = 0" using q1(3) nle by (simp add: unat_eq_0_iff)
    moreover have "sent contents conn vs os (conn\<lparr>writequeue := q1\<rparr>) (consume n vs) ?os"
      by (rule sent_consume [OF q1(2,4) ok nle]) (use same take in simp_all)
    moreover have "queue_bytes (consume n vs) + length (consume n vs) < queue_bytes vs + length vs"
      unfolding consume_bytes using length_consume [of n vs] False nle by linarith
    ultimately show ?thesis using Inr wr q1(1) False by (intro some) simp_all
  qed
qed

lemma connection_writev_mem_chunk_ok:
  assumes q: "queue_rel (writequeue conn) (Mem k s # vs')" and maps: "maps_ok contents (writequeue conn)"
    and ok: "sendable contents (Mem k s # vs')" and fit: "writes_fit os"
  shows "returns (connection_writev_mem_chunk conn os) (\<lambda>(n, conn', os'). \<exists>ws.
     sent contents conn (Mem k s # vs') os conn' ws os' \<and> n \<in> {0, 1, -2} \<and>
     (n = 0 \<longrightarrow> queue_bytes ws + length ws < queue_bytes (Mem k s # vs') + length (Mem k s # vs')) \<and>
     (\<forall>e. s \<noteq> [] \<and> os_write os (os_calls os) = (\<lambda>_. Inl e) \<longrightarrow> n = -2))"
proof -
  let ?q = "writequeue conn" and ?vs = "Mem k s # vs'"
  obtain us ids where wf: "queue_wf ?q us ids []" and vw: "views ?q us ?vs" using q by (auto simp: queue_rel_def)
  then obtain a us' where us: "us = a # us'" by (cases us) auto
  obtain c where c: "q_first ?q = Some a" "cells ?q a = Some c" using queue_wf_head wf us by blast
  have ct: "chunk_type c = CHUNK_MEM" using vw us c by simp
  have links: "linked (cells ?q) (q_first ?q) us" using wf by (simp add: queue_wf_def queue_links_def)
  have bytes: "queue_bytes ?vs < 2 ^ 31" using ok by (simp add: sendable_def)
  have backed: "\<forall>v \<in> set ?vs. piece_backed contents v" using ok piece_ok_backed unfolding sendable_def by blast
  obtain i sb m where g: "gather_chunks (Suc (brk ?q)) ?q (q_first ?q) 0 0 [] = Inr (i, sb, take m (queue_stream contents ?vs))"
      and m: "m \<le> queue_bytes ?vs" "i = 0 \<longleftrightarrow> m = 0" "unat sb = m" "m = 0 \<longrightarrow> s = []"
    using gather_chunks_ok [OF links vw, of "Suc (brk ?q)" 0 contents 0 "[]"] queue_wf_length(1) [OF wf] bytes backed
    by (auto simp: returns_iff)
  have step: "connection_writev_mem_chunk conn os =
      (if i = 0 then andthen (chunkqueue_remove_finished_chunk ?q) (\<lambda>q1. Inr (0, conn\<lparr>writequeue := q1\<rparr>, os))
       else let (res, os1) = sys_write os (conn_socket_fd conn) (take m (queue_stream contents ?vs))
                   in case res of
                        Inl e \<Rightarrow> Inr (-2, conn, os1)
                      | Inr n \<Rightarrow>
                          andthen (if 0 < n
                                   then andthen (chunkqueue_mark_written ?q (of_nat n)) (\<lambda>(q1, remaining_bytes).
                                        if remaining_bytes \<noteq> 0 then Inl AssertFailed else Inr q1)
                                   else Inr ?q) (\<lambda>q1.
                          Inr (if of_nat n = sb then 0 else 1, conn\<lparr>writequeue := q1\<rparr>, os1)))"
    unfolding connection_writev_mem_chunk_def Let_def g using c ct by (simp add: first_chunk_def load_chunk_def)
  show ?thesis
  proof (cases "i = 0")
    case True
    with m have "s = []" by simp
    obtain q1 where q1: "chunkqueue_remove_finished_chunk ?q = Inr q1" "queue_rel q1 (consume 0 ?vs)" "maps_ok contents q1"
      using remove_finished_ok [OF q maps] by (rule returns_obtain) blast
    have eq: "queue_stream contents (consume 0 ?vs) = queue_stream contents ?vs" "queue_bytes (consume 0 ?vs) = queue_bytes ?vs"
      using sendable_stream(2) [OF ok, of 0] by (simp_all add: consume_bytes)
    have "sent contents conn ?vs os (conn\<lparr>writequeue := q1\<rparr>) (consume 0 ?vs) os"
      unfolding sent_def using q1(2,3) sendable_consume [OF ok, of 0] eq length_consume [of 0 ?vs]
      by (auto intro!: exI [of _ q1] exI [of _ "[]"])
    moreover have "length (consume 0 ?vs) < length ?vs"
      using length_consume [of 0 vs'] by (simp add: \<open>s = []\<close>)
    ultimately show ?thesis using True step q1(1) eq(2)
      by (auto intro!: exI [of _ "consume 0 ?vs"])
  next
    case False
    then have i: "i \<noteq> 0" and sb: "sb \<noteq> 0" using m by auto
    have bs: "take m (queue_stream contents ?vs) = take (unat sb) (queue_stream contents ?vs)" using m(3) by simp
    have bound: "unat sb \<le> queue_bytes ?vs" using m(1,3) by simp
    show ?thesis
    proof (cases rule: write_acknowledged [OF q maps ok fit same_os_refl refl bs bound sb, of conn, case_names fails nothing some])
      case (fails e)
      with i show ?thesis unfolding step by (auto simp: Let_def intro!: exI [of _ ?vs])
    next
      case (nothing os2)
      with i sb show ?thesis unfolding step by (auto simp: Let_def intro!: exI [of _ ?vs])
    next
      case (some n q1 os2)
      with i show ?thesis unfolding step by (auto simp: Let_def intro!: exI [of _ "consume n ?vs"] simp del: consume.simps)
    qed
  qed
qed

section \<open>File chunks\<close>

lemma chunk_view_file_fields:
  "chunk_view (c\<lparr>file_fd := x, mmap_start := m, mmap_offset := y, mmap_len := z\<rparr>) v = chunk_view c v"
  "chunk_view (c\<lparr>file_fd := x\<rparr>) v = chunk_view c v"
  by (cases v; simp)+

text \<open>The window that is mapped covers the byte at \<open>offset\<close> and shows the file from there on.\<close>

lemma file_window_ok:
  assumes v: "chunk_view c (File k f pos n)" and ok: "piece_ok contents (File k f pos n)" and m: "map_ok contents c"
    and maps: "maps_files contents os" and off: "file_offset c = Some off"
  shows "returns (file_window (off + chunk_offset c) (off + file_length c) c os) (\<lambda>(good, c1, os1). 
     (\<exists>x w y z. c1 = c\<lparr>file_fd := x, mmap_start := w, mmap_offset := y, mmap_len := z\<rparr>) \<and>
     map_ok contents c1 \<and> same_os os os1 \<and> trace os1 = trace os \<and>
     (good \<longrightarrow> mmap_start c1 \<noteq> None \<and> mmap_offset c1 \<le> off + chunk_offset c \<and>
        off + chunk_offset c < mmap_offset c1 + mmap_len c1))"
proof -
  let ?o = "off + chunk_offset c" and ?e = "off + file_length c"
  from v off have f: "buffer_holds (filename c) f" and n: "pos = unat off + unat (chunk_offset c)"
      "n = unat (file_length c) - unat (chunk_offset c)" "unat (chunk_offset c) \<le> unat (file_length c)"
      "unat off + unat (file_length c) < 2 ^ 32"
    by auto
  from ok have fn: "f \<noteq> []" "NUL \<notin> set f" and n0: "0 < n" and inside: "pos + n \<le> length (contents f)"
      and room: "pos + n + file_window_size < 2 ^ 32" by simp_all
  have o: "unat ?o = pos" using n by (subst unat_add_u32) simp_all
  have e: "unat ?e = pos + n" using n by (subst unat_add_u32) simp_all
  have name: "cstr (ptr (filename c)) = Inr f"
    by (rule text_buffer_cstr_plain [OF text_buffer_nonempty [OF f fn(1)] fn(2)])
  obtain fd os1 where o1: "(if file_fd c < 0 then sys_open os f else (file_fd c, os)) = (fd, os1)" "same_os os os1" "trace os1 = trace os"
    by (cases "file_fd c < 0") (auto simp: sys_open_def)
  let ?c1 = "c\<lparr>file_fd := fd\<rparr>"
  have same: "\<exists>x w y z. c\<lparr>file_fd := fd\<rparr> = c\<lparr>file_fd := x, mmap_start := w, mmap_offset := y, mmap_len := z\<rparr>"
    by (intro exI [of _ fd] exI [of _ "mmap_start c"] exI [of _ "mmap_offset c"] exI [of _ "mmap_len c"]) simp
  have m1: "map_ok contents ?c1" using m by (simp add: map_ok_def)
  show ?thesis
  proof (cases "fd < 0 \<or> \<not> (mmap_start ?c1 = None \<or> ?o < mmap_offset ?c1 \<or> mmap_offset ?c1 + mmap_len ?c1 \<le> ?o)")
    case True
    then show ?thesis using name o1 same m1
      unfolding file_window_def name andthen.simps o1(1) Let_def by (auto simp: not_le not_less)
  next
    case False
    define start where "start = ?o - ?o mod 4096"
    define len where "len = (if ?e < start + 64 * 4096 then ?e - start else 64 * 4096)"
    have st: "unat start = pos - pos mod 4096"
      using o by (simp add: start_def unat_sub_if' unat_mod word_le_nat_alt)
    have st_le: "unat start \<le> pos" "pos < unat start + 4096" using st by (simp_all add: less_imp_diff_less)
    have sum: "unat (start + 64 * 4096) = unat start + file_window_size"
      using st_le(1) room by (subst unat_add_u32) (simp_all add: file_window_size_def)
    have len_nat: "unat len = min (pos + n - unat start) file_window_size"
      using sum e st_le(1) unfolding len_def
      by (auto simp: word_less_nat_alt unat_sub_u32 word_le_nat_alt min_def file_window_size_def)
    have end_in: "unat start + unat len \<le> pos + n" using len_nat st_le(1) by simp
    have lenpos: "pos < unat start + unat len" using len_nat st_le n0 by (simp add: file_window_size_def min_def)
    obtain w where w: "sys_mmap os1 f (unat start) (unat len) = (w, sys_tick os1)" by (simp add: sys_mmap_def)
    have wmap: "bs = take (unat len) (drop (unat start) (contents f)) \<and> length bs = unat len" if "w = Some bs" for bs
    proof -
      have "maps_files contents os1" using maps o1(2) same_os_facts(3) by blast
      with w that have "bs = take (unat len) (drop (unat start) (contents f))"
        by (auto simp: maps_files_def sys_mmap_def)
      with end_in inside show ?thesis by simp
    qed
    let ?c2 = "?c1\<lparr>mmap_start := w, mmap_offset := start, mmap_len := len\<rparr>"
    have eq: "file_window ?o ?e c os = Inr (w \<noteq> None, ?c2, sys_tick os1)"
      using False w unfolding file_window_def name andthen.simps o1(1) Let_def prod.case
      unfolding start_def [symmetric] unfolding len_def [symmetric] by simp
    have "map_ok contents ?c2"
      unfolding map_ok_def using wmap f end_in room by auto
    moreover have "start \<le> ?o" using st_le(1) o by (simp add: word_le_nat_alt)
    moreover have "?o < start + len"
      using lenpos o end_in room by (simp add: word_less_nat_alt unat_add_u32)
    ultimately show ?thesis unfolding eq using o1(2,3) by (auto intro: exI)
  qed
qed

text \<open>The bytes of the window from the offset on are the next bytes of the queue's stream.\<close>

lemma window_bytes:
  fixes nn :: u32
  assumes ok: "piece_ok contents (File k f pos n)" and m: "map_ok contents c" "buffer_holds (filename c) f" "mmap_start c = Some bs"
    and o: "unat o1 = pos" "mmap_offset c \<le> o1" "o1 < mmap_offset c + mmap_len c" and nn: "unat nn = n"
    and skip: "skip = o1 - mmap_offset c" and len: "len = (if mmap_len c - skip < nn then mmap_len c - skip else nn)"
  shows "unat skip + unat len \<le> length bs" "len \<noteq> 0" "unat len \<le> n"
    "take (unat len) (drop (unat skip) bs) = take (unat len) (queue_stream contents (File k f pos n # vs))"
proof -
  obtain f' where f': "buffer_holds (filename c) f'" "length bs = unat (mmap_len c)"
      "bs = take (unat (mmap_len c)) (drop (unat (mmap_offset c)) (contents f'))"
      "unat (mmap_offset c) + unat (mmap_len c) < 2 ^ 32"
    using m(1,3) by (auto simp: map_ok_def)
  have ff: "f' = f" using f'(1) m(2) by (auto intro: buffer_holds_unique)
  have sk: "unat skip = pos - unat (mmap_offset c)" "unat (mmap_offset c) \<le> pos"
    using o by (auto simp: skip unat_sub_u32 word_le_nat_alt)
  have "pos < unat (mmap_offset c) + unat (mmap_len c)"
    using o f'(4) by (simp add: word_less_nat_alt unat_add_u32)
  then have av: "unat (mmap_len c - skip) = unat (mmap_len c) - unat skip" "unat skip < unat (mmap_len c)"
    using sk by (auto simp: unat_sub_u32 word_le_nat_alt)
  have ln: "unat len = min (unat (mmap_len c) - unat skip) n" using av nn by (auto simp: len word_less_nat_alt min_def)
  have pos: "0 < unat len" "unat len \<le> n" "unat len \<le> length (contents f) - pos" using ln av(2) ok by auto
  then show "len \<noteq> 0" "unat len \<le> n" by auto
  show "unat skip + unat len \<le> length bs" using ln av(2) f'(2) by auto
  have window: "drop (unat skip) bs = take (unat (mmap_len c) - unat skip) (drop pos (contents f))"
    using f'(3) sk ff by (simp add: drop_take)
  have "take (unat len) (queue_stream contents (File k f pos n # vs)) = take (unat len) (drop pos (contents f))"
    using pos(2,3) by (simp add: queue_stream_def min_absorb1)
  moreover have "take (unat len) (drop (unat skip) bs) = take (unat len) (drop pos (contents f))"
    unfolding window take_take using ln by (simp add: min_absorb1)
  ultimately show "take (unat len) (drop (unat skip) bs) = take (unat len) (queue_stream contents (File k f pos n # vs))" by simp
qed

text \<open>The chunk at the front of a queue whose first piece is a part of a file.\<close>

lemma file_chunk_in_front:
  assumes q: "queue_rel q (File k f pos n # vs)" and mq: "maps_ok contents q" and n: "0 < n"
  obtains us ids a us' c off where "queue_wf q us ids []" "views q us (File k f pos n # vs)" "us = a # us'" "cells q a = Some c"
    "first_chunk q = Inr (a, c)" "chunk_view c (File k f pos n)" "map_ok contents c" "chunk_type c = CHUNK_FILE"
    "file_offset c = Some off" "unat (off + chunk_offset c) = pos" "chunk_offset c \<le> file_length c"
    "unat (file_length c - chunk_offset c) = n" "file_length c - chunk_offset c \<noteq> 0"
proof -
  obtain us ids where wf: "queue_wf q us ids []" and vw: "views q us (File k f pos n # vs)" using q by (auto simp: queue_rel_def)
  then obtain a us' where us: "us = a # us'" by (cases us) auto
  obtain c where c: "q_first q = Some a" "cells q a = Some c" using queue_wf_head wf us by blast
  have cv: "chunk_view c (File k f pos n)" using vw us c by (simp del: chunk_view.simps)
  then obtain off where off: "file_offset c = Some off" and ct: "chunk_type c = CHUNK_FILE"
    and lens: "unat (chunk_offset c) \<le> unat (file_length c)" "pos = unat off + unat (chunk_offset c)"
      "n = unat (file_length c) - unat (chunk_offset c)" "unat off + unat (file_length c) < 2 ^ 32"
    by auto
  have o: "unat (off + chunk_offset c) = pos" using lens by (subst unat_add_u32) simp_all
  have le: "chunk_offset c \<le> file_length c" using lens(1) by (simp add: word_le_nat_alt)
  then have un: "unat (file_length c - chunk_offset c) = n" using lens(3) by (simp add: unat_sub_u32)
  have "map_ok contents c" using mq c(2) by (auto simp: maps_ok_def)
  moreover have "first_chunk q = Inr (a, c)" using c by (simp add: first_chunk_def load_chunk_def)
  moreover have "file_length c - chunk_offset c \<noteq> 0" using un n by (auto simp: unat_eq_0_iff)
  ultimately show thesis using that wf vw us c(2) cv ct off o le un by blast
qed

lemma connection_send_file_chunk_ok:
  assumes q: "queue_rel (writequeue conn) (File k f pos n # vs')" and mq: "maps_ok contents (writequeue conn)"
    and ok: "sendable contents (File k f pos n # vs')" and fit: "writes_fit os" and files: "maps_files contents os"
  shows "returns (connection_send_file_chunk conn os) (\<lambda>(r, conn', os'). \<exists>ws.
     sent contents conn (File k f pos n # vs') os conn' ws os' \<and> r \<in> {0, 1, -1, -2} \<and>
     (r = 0 \<longrightarrow> queue_bytes ws + length ws < queue_bytes (File k f pos n # vs') + length (File k f pos n # vs')))"
proof -
  let ?q = "writequeue conn" and ?vs = "File k f pos n # vs'"
  have po: "piece_ok contents (File k f pos n)" using ok by (auto simp: sendable_def)
  then have "0 < n" by auto
  then obtain us ids a us' c off where wf: "queue_wf ?q us ids []" and vw: "views ?q us ?vs" and us: "us = a # us'"
    and c: "cells ?q a = Some c" and first: "first_chunk ?q = Inr (a, c)" and cv: "chunk_view c (File k f pos n)"
    and mc: "map_ok contents c" and ct: "chunk_type c = CHUNK_FILE" and off: "file_offset c = Some off"
    and o: "unat (off + chunk_offset c) = pos" and le: "chunk_offset c \<le> file_length c"
    and n: "unat (file_length c - chunk_offset c) = n" and n0: "file_length c - chunk_offset c \<noteq> 0"
    by (rule file_chunk_in_front [OF q mq])
  let ?o = "off + chunk_offset c" and ?n = "file_length c - chunk_offset c"
  obtain good c1 os1 where win: "file_window ?o (off + file_length c) c os = Inr (good, c1, os1)"
    and c1: "\<exists>x w y z. c1 = c\<lparr>file_fd := x, mmap_start := w, mmap_offset := y, mmap_len := z\<rparr>"
      "map_ok contents c1" "same_os os os1" "trace os1 = trace os"
      "good \<longrightarrow> mmap_start c1 \<noteq> None \<and> mmap_offset c1 \<le> ?o \<and> ?o < mmap_offset c1 + mmap_len c1"
    using file_window_ok [OF cv po mc files off] by (rule returns_obtain) blast
  let ?q1 = "put_chunk ?q a c1" and ?conn1 = "conn\<lparr>writequeue := put_chunk ?q a c1\<rparr>"
  from c1(1) have next1: "next_chunk c1 = next_chunk c" and cv1: "chunk_view c1 (File k f pos n)"
    and fname: "filename c1 = filename c"
    using cv chunk_view_file_fields by auto
  have q1: "queue_rel ?q1 ?vs"
    using queue_rel_put [OF wf vw, of "[]" a us' "[]" "File k f pos n" vs' c c1] us c next1 cv1 by (simp del: chunk_view.simps)
  have mq1: "maps_ok contents ?q1" using mq c1(2) by (auto simp: maps_ok_def)
  have same1: "sent contents conn ?vs os ?conn1 ?vs os1"
    unfolding sent_def using q1 mq1 ok c1(3,4) by (auto intro!: exI [of _ ?q1] exI [of _ "[]"])
  define skip where "skip = ?o - mmap_offset c1"
  define len where "len = (if mmap_len c1 - skip < ?n then mmap_len c1 - skip else ?n)"
  have nof: "(chunk_type c \<noteq> CHUNK_FILE \<or> file_length c < chunk_offset c) = False" using ct le by auto
  have step: "connection_send_file_chunk conn os =
      (if \<not> good then Inr (-1, ?conn1, os1)
       else case mmap_start c1 of
              None \<Rightarrow> Inl AssertFailed
            | Some bytes \<Rightarrow>
                if ?o < mmap_offset c1 then Inl AssertFailed
                else if length bytes < unat skip + unat len then Inl OutOfBounds
                else let (res, os2) = sys_write os1 (conn_socket_fd conn) (take (unat len) (drop (unat skip) bytes))
                     in case res of
                          Inl e \<Rightarrow> Inr (if e = EINTR \<or> e = EAGAIN then -1 else -2, ?conn1, os2)
                        | Inr n \<Rightarrow> andthen (if 0 < n then andthen (chunkqueue_mark_written ?q1 (of_nat n)) (\<lambda>(q2, _). Inr q2) else Inr ?q1)
                            (\<lambda>q2. Inr (if of_nat n = len then 0 else 1, conn\<lparr>writequeue := q2\<rparr>, os2)))"
    unfolding connection_send_file_chunk_def Let_def first andthen.simps prod.case nof if_False off option.case if_not_P [OF n0] win
    unfolding skip_def [symmetric] unfolding len_def [symmetric] by (rule refl)
  show ?thesis
  proof (cases good)
    case False
    with same1 show ?thesis unfolding step by (auto intro!: exI [of _ ?vs])
  next
    case True
    with c1(5) obtain bs where bs: "mmap_start c1 = Some bs" and lo: "mmap_offset c1 \<le> ?o"
      and hi: "?o < mmap_offset c1 + mmap_len c1" by auto
    have "buffer_holds (filename c1) f" using cv fname by simp
    note w = window_bytes [OF po c1(2) this bs o lo hi n skip_def len_def]
    have inb: "\<not> length bs < unat skip + unat len" "\<not> ?o < mmap_offset c1" using w(1) lo by (simp_all add: not_less)
    have bound: "unat len \<le> queue_bytes ?vs" using w(3) by simp
    have fit1: "writes_fit os1" using fit c1(3) same_os_facts(2) by blast
    show ?thesis
    proof (cases rule: write_acknowledged [OF q1 mq1 ok fit1 c1(3,4) w(4) bound w(2), of conn, case_names fails nothing some])
      case (fails e)
      with True bs inb show ?thesis unfolding step by (auto simp: Let_def intro!: exI [of _ ?vs])
    next
      case (nothing os2)
      with True bs inb w(2) show ?thesis unfolding step by (auto simp: Let_def intro!: exI [of _ ?vs])
    next
      case (some m q2 os2)
      with True bs inb show ?thesis
        unfolding step by (auto simp: Let_def intro!: exI [of _ "consume m ?vs"] simp del: consume.simps)
    qed
  qed
qed

section \<open>The loop\<close>

lemma connection_handle_write_loop_ok:
  "queue_rel (writequeue conn) vs \<Longrightarrow> maps_ok contents (writequeue conn) \<Longrightarrow> sendable contents vs \<Longrightarrow>
   writes_fit os \<Longrightarrow> maps_files contents os \<Longrightarrow> queue_bytes vs + length vs < k \<Longrightarrow>
   returns (connection_handle_write_loop k conn os) (\<lambda>(n, conn', os'). \<exists>ws. sent contents conn vs os conn' ws os' \<and>
     n \<in> {0, 1, -1, -2} \<and> (n = 0 \<longrightarrow> ws = []))"
proof (induction k arbitrary: conn vs os)
  case (Suc k)
  obtain us ids where wf: "queue_wf (writequeue conn) us ids []" and vw: "views (writequeue conn) us vs"
    using Suc.prems(1) by (auto simp: queue_rel_def)
  show ?case
  proof (cases vs)
    case Nil
    with vw wf have "q_first (writequeue conn) = None" using queue_wf_empty [of "writequeue conn" ids] by simp
    with Nil sent_refl [OF Suc.prems(1-3)] show ?thesis by auto
  next
    case (Cons v vs')
    with vw obtain a us' where us: "us = a # us'" by (cases us) auto
    obtain c where c: "q_first (writequeue conn) = Some a" "cells (writequeue conn) a = Some c"
      using queue_wf_head wf us by blast
    have cv: "chunk_view c v" using vw us c Cons by simp
    let ?step = "case chunk_type c of CHUNK_MEM \<Rightarrow> connection_writev_mem_chunk conn os
                   | CHUNK_FILE \<Rightarrow> connection_send_file_chunk conn os"
    have "returns ?step (\<lambda>(n, conn', os'). \<exists>ws. sent contents conn vs os conn' ws os' \<and> n \<in> {0, 1, -1, -2} \<and>
        (n = 0 \<longrightarrow> queue_bytes ws + length ws < queue_bytes vs + length vs))"
    proof (cases v)
      case (Mem j s)
      with cv connection_writev_mem_chunk_ok [of conn j s vs' contents os] Suc.prems Cons show ?thesis
        by (auto elim!: returns_mono)
    next
      case (File j f pos n)
      with cv connection_send_file_chunk_ok [of conn j f pos n vs' contents os] Suc.prems Cons show ?thesis
        by (auto elim!: returns_mono)
    qed
    then obtain n conn1 os1 ws where st: "?step = Inr (n, conn1, os1)" and s1: "sent contents conn vs os conn1 ws os1"
      and n: "n \<in> {0, 1, -1, -2}" "n = 0 \<longrightarrow> queue_bytes ws + length ws < queue_bytes vs + length vs"
      by (rule returns_obtain) blast
    have loop: "connection_handle_write_loop (Suc k) conn os =
        (if n \<noteq> 0 then Inr (n, conn1, os1) else connection_handle_write_loop k conn1 os1)"
      using c st by (simp add: load_chunk_def)
    show ?thesis
    proof (cases "n = 0")
      case False
      then show ?thesis unfolding loop using s1 n by auto
    next
      case True
      have fit: "writes_fit os1" "maps_files contents os1"
        using s1 Suc.prems(4,5) same_os_facts(2,3) unfolding sent_def by blast+
      have rel: "queue_rel (writequeue conn1) ws" "maps_ok contents (writequeue conn1)" "sendable contents ws"
        using s1 by (simp_all add: sent_def)
      have "returns (connection_handle_write_loop k conn1 os1) (\<lambda>(n, conn', os'). \<exists>zs. sent contents conn1 ws os1 conn' zs os' \<and>
          n \<in> {0, 1, -1, -2} \<and> (n = 0 \<longrightarrow> zs = []))"
        by (rule Suc.IH [OF rel fit]) (use n True Suc.prems(6) in simp)
      then have "returns (connection_handle_write_loop k conn1 os1) (\<lambda>(n, conn', os'). \<exists>zs. sent contents conn vs os conn' zs os' \<and>
          n \<in> {0, 1, -1, -2} \<and> (n = 0 \<longrightarrow> zs = []))"
        by (rule returns_mono) (use sent_trans [OF s1] in blast)
      then show ?thesis unfolding loop using True by simp
    qed
  qed
qed simp

lemma sum_list_distinct_le:
  fixes f :: "nat \<Rightarrow> nat"
  assumes "distinct xs" and "set xs \<subseteq> {0..<n}"
  shows "sum_list (map f xs) \<le> sum_list (map f [0..<n])"
  using assms sum_mono2 [of "{0..<n}" "set xs" f]
  by (simp add: sum_list_distinct_conv_sum_set)

lemma write_fuel_enough:
  assumes "queue_rel q vs"
  shows "queue_bytes vs + length vs < write_fuel q"
proof -
  let ?f = "\<lambda>a. case cells q a of None \<Rightarrow> 0 | Some c \<Rightarrow> Suc (unat (chunk_remaining_len c))"
  obtain us ids where wf: "queue_wf q us ids []" and vw: "views q us vs" using assms by (auto simp: queue_rel_def)
  have alive: "\<forall>a \<in> set us. cells q a \<noteq> None" and us: "distinct us" "set us \<subseteq> {0..<brk q}"
    using wf by (auto simp: queue_wf_def queue_links_def)
  have "queue_bytes vs + length vs = sum_list (map ?f us)"
    using vw alive unfolding views_def
    by (induction us vs rule: list_all2_induct) (auto simp: chunk_view_len)
  then show ?thesis using sum_list_distinct_le [OF us, of ?f] by (simp add: write_fuel_def)
qed

lemma connection_handle_write_ok [returns_rules]:
  assumes "queue_rel (writequeue conn) vs" and "maps_ok contents (writequeue conn)" and "sendable contents vs"
    and "writes_fit os" and "maps_files contents os"
  shows "returns (connection_handle_write conn os) (\<lambda>(n, conn', os'). \<exists>ws. sent contents conn vs os conn' ws os' \<and>
     n \<in> {0, 1, -1, -2} \<and> (n = 0 \<longrightarrow> ws = []))"
  unfolding connection_handle_write_def
  by (rule connection_handle_write_loop_ok [OF assms write_fuel_enough [OF assms(1)]])

section \<open>The write state\<close>

text \<open>
  What one run of the write state leaves behind: the bytes sent, and the connection, which stays in the
  state with the socket marked not writeable, goes on to the end of the response when all is sent and
  nothing more will be queued, or fails.
\<close>

definition write_outcome :: "int \<Rightarrow> connection \<Rightarrow> connection \<Rightarrow> piece list \<Rightarrow> bool" where
  "write_outcome ts conn conn' ws \<longleftrightarrow> (\<exists>q.
     conn' = conn\<lparr>writequeue := q, writeable := False\<rparr> \<or>
     conn' = conn\<lparr>writequeue := q, writeable := False, active_write_ts := ts\<rparr> \<or>
     conn' = conn\<lparr>writequeue := q, state := CON_STATE_ERROR\<rparr> \<or>
     ws = [] \<and> http_response_body_finished conn \<and>
       conn' = conn\<lparr>writequeue := q, state := CON_STATE_RESPONSE_END, active_write_ts := ts\<rparr> \<or>
     ws = [] \<and> \<not> http_response_body_finished conn \<and> conn' = conn\<lparr>writequeue := q, active_write_ts := ts\<rparr>)"

lemma connection_handle_write_state_ok [returns_rules]:
  assumes "queue_rel (writequeue conn) vs" and "maps_ok contents (writequeue conn)" and "sendable contents vs"
    and "writes_fit os" and "maps_files contents os" and w: "writeable conn"
  shows "returns (connection_handle_write_state ts conn os) (\<lambda>(n, conn', os'). n = 0 \<and> (\<exists>ws bss.
     queue_rel (writequeue conn') ws \<and> maps_ok contents (writequeue conn') \<and> sendable contents ws \<and>
     same_os os os' \<and> trace os' = trace os @ map (Sent (conn_socket_fd conn)) bss \<and>
     queue_stream contents vs = concat bss @ queue_stream contents ws \<and> write_outcome ts conn conn' ws))"
proof -
  obtain n conn1 os1 ws where h: "connection_handle_write conn os = Inr (n, conn1, os1)"
    and s: "sent contents conn vs os conn1 ws os1" and n: "n \<in> {0, 1, -1, -2}" "n = 0 \<longrightarrow> ws = []"
    using connection_handle_write_ok [OF assms(1-5)] by (rule returns_obtain) blast
  from s obtain q bss where q: "conn1 = conn\<lparr>writequeue := q\<rparr>" "queue_rel q ws" "maps_ok contents q" "sendable contents ws"
      "same_os os os1" "trace os1 = trace os @ map (Sent (conn_socket_fd conn)) bss"
      "queue_stream contents vs = concat bss @ queue_stream contents ws"
    by (auto simp: sent_def)
  let ?c = "(if n = 0
                 then (if http_response_body_finished conn1 then connection_set_state conn1 CON_STATE_RESPONSE_END
                       else conn1)\<lparr>active_write_ts := ts\<rparr>
                 else if n = -1 then conn1\<lparr>writeable := False\<rparr>
                 else if n = 1 then conn1\<lparr>writeable := False, active_write_ts := ts\<rparr>
                 else if n = -2 then connection_set_state conn1 CON_STATE_ERROR
                 else conn1)"
  have eq: "connection_handle_write_state ts conn os = Inr (0, ?c, os1)"
    by (simp add: connection_handle_write_state_def w h)
  have "write_outcome ts conn ?c ws"
    unfolding write_outcome_def connection_set_state_def using n q(1) by (intro exI [of _ q]) auto
  moreover have "writequeue ?c = q" using q(1) by (simp add: connection_set_state_def)
  ultimately show ?thesis
    unfolding eq returns_Inr prod.case using q(2-7) by (intro conjI refl exI [of _ ws] exI [of _ bss]) simp_all
qed

section \<open>Queues under construction\<close>

lemma alloc_idle_maps_kept: "maps_kept q (chunkqueue_alloc_idle n q)"
proof (induction n arbitrary: q)
  case (Suc n)
  have "maps_kept q (q\<lparr>cells := (cells q)(brk q \<mapsto> chunk_initialize\<lparr>next_chunk := q_idle q\<rparr>),
          brk := Suc (brk q), q_idle := Some (brk q)\<rparr>)"
    by (auto simp: maps_kept_def chunk_initialize_def)
  with Suc show ?case by (simp add: maps_kept_trans)
qed simp

lemma get_unused_maps_kept:
  assumes "chunkqueue_get_unused_chunk q = Inr (q', a)"
  shows "maps_kept q q'"
proof -
  define q1 where "q1 = (if idle_chunk_size q = 0
                     then chunkqueue_alloc_idle (unat (idle_chunk_size q + 4)) (q\<lparr>idle_chunk_size := idle_chunk_size q + 4\<rparr>)
                     else q)"
  have "maps_kept q (q\<lparr>idle_chunk_size := idle_chunk_size q + 4\<rparr>)" by (rule maps_kept_cells) simp
  then have kept: "maps_kept q q1"
    using maps_kept_trans [OF _ alloc_idle_maps_kept [where n = "unat (idle_chunk_size q + 4)"]]
    by (cases "idle_chunk_size q = 0") (simp_all add: q1_def)
  from assms have "cells q' = cells q1"
    unfolding chunkqueue_get_unused_chunk_def q1_def [symmetric] Let_def
    by (auto simp: andthen_Inr_iff split: if_splits option.splits)
  then show ?thesis using maps_kept_trans [OF kept maps_kept_cells] by blast
qed

lemma append_chunk_maps_kept:
  assumes "chunkqueue_append_chunk q a = Inr q'"
  shows "maps_kept q q'"
proof -
  from assms obtain c q2 where c: "cells q a = Some c"
    and q2: "(case q_last q of None \<Rightarrow> Inr (put_chunk q a (c\<lparr>next_chunk := None\<rparr>))
              | Some l \<Rightarrow> andthen (load_chunk (put_chunk q a (c\<lparr>next_chunk := None\<rparr>)) l) (\<lambda>cl.
                  Inr (put_chunk (put_chunk q a (c\<lparr>next_chunk := None\<rparr>)) l (cl\<lparr>next_chunk := Some a\<rparr>)))) = Inr q2"
    and q': "cells q' = cells q2"
    unfolding chunkqueue_append_chunk_def andthen_Inr_iff Let_def put_chunk_simps load_chunk_Inr
    by (auto split: if_splits)
  have one: "maps_kept q (put_chunk q a (c\<lparr>next_chunk := None\<rparr>))" by (rule maps_kept_put [OF c]) simp_all
  have "maps_kept (put_chunk q a (c\<lparr>next_chunk := None\<rparr>)) q2"
  proof (cases "q_last q")
    case (Some l)
    with q2 obtain cl where "cells (put_chunk q a (c\<lparr>next_chunk := None\<rparr>)) l = Some cl"
        "q2 = put_chunk (put_chunk q a (c\<lparr>next_chunk := None\<rparr>)) l (cl\<lparr>next_chunk := Some a\<rparr>)"
      unfolding Some option.case andthen_Inr_iff load_chunk_Inr by auto
    then show ?thesis by (auto intro: maps_kept_put)
  qed (use q2 in simp)
  from maps_kept_trans [OF one maps_kept_trans [OF this maps_kept_cells [OF q']]] show ?thesis .
qed

lemma append_buffer_maps_kept:
  assumes "chunkqueue_append_buffer q b = Inr q'"
  shows "maps_kept q q'"
proof -
  from assms obtain q1 a c m where get: "chunkqueue_get_unused_chunk q = Inr (q1, a)" and c: "cells q1 a = Some c"
    and app: "chunkqueue_append_chunk (put_chunk q1 a (c\<lparr>chunk_type := CHUNK_MEM, mem := m\<rparr>)) a = Inr q'"
    by (auto simp: chunkqueue_append_buffer_def andthen_Inr_iff)
  have "maps_kept q1 (put_chunk q1 a (c\<lparr>chunk_type := CHUNK_MEM, mem := m\<rparr>))" by (rule maps_kept_put [OF c]) simp_all
  from maps_kept_trans [OF get_unused_maps_kept [OF get] maps_kept_trans [OF this append_chunk_maps_kept [OF app]]]
  show ?thesis .
qed

lemma prepend_buffer_maps_kept:
  assumes "chunkqueue_prepend_buffer q b = Inr q'"
  shows "maps_kept q q'"
proof -
  from assms obtain q1 a c m where get: "chunkqueue_get_unused_chunk q = Inr (q1, a)" and c: "cells q1 a = Some c"
    and q': "cells q' = (cells q1)(a \<mapsto> c\<lparr>chunk_type := CHUNK_MEM, mem := m, next_chunk := q_first q1\<rparr>)"
    by (auto simp: chunkqueue_prepend_buffer_def andthen_Inr_iff Let_def put_chunk_def split: if_splits)
  have "maps_kept q1 q'" unfolding maps_kept_def q' using c by auto
  with get_unused_maps_kept [OF get] show ?thesis by (rule maps_kept_trans)
qed

lemma append_file_maps_kept:
  assumes "chunkqueue_append_file q b off len = Inr q'" and "queue_rel q vs"
  shows "maps_kept q q'"
proof (cases "q' = q")
  case False
  obtain us ids where "queue_wf q us ids []" "views q us vs" using assms(2) by (auto simp: queue_rel_def)
  then obtain q1 a c where get: "chunkqueue_get_unused_chunk q = Inr (q1, a)" and c: "cells q1 a = Some c" "idle_chunk c"
    by (rule get_unused_obtain)
  with assms(1) False obtain f where app: "chunkqueue_append_chunk (put_chunk q1 a (c\<lparr>chunk_type := CHUNK_FILE, filename := f, file_fd := -1,
                            file_offset := Some off, file_length := len\<rparr>)) a = Inr q'"
    by (auto simp: chunkqueue_append_file_def andthen_Inr_iff split: if_splits)
  have "maps_kept q1 (put_chunk q1 a (c\<lparr>chunk_type := CHUNK_FILE, filename := f, file_fd := -1,
                            file_offset := Some off, file_length := len\<rparr>))"
    using c by (auto simp: maps_kept_def idle_chunk_def)
  from maps_kept_trans [OF get_unused_maps_kept [OF get] maps_kept_trans [OF this append_chunk_maps_kept [OF app]]]
  show ?thesis .
qed simp

text \<open>The chunks of an empty queue are all idle, and idle chunks have no window.\<close>

lemma empty_queue_maps_ok:
  assumes "queue_rel q []"
  shows "maps_ok contents q"
proof -
  obtain us ids where wf: "queue_wf q us ids []" "us = []" using assms by (auto simp: queue_rel_def)
  then have "\<forall>a c. cells q a = Some c \<longrightarrow> idle_chunk c"
    by (auto simp: queue_wf_def queue_links_def) (metis option.distinct(1) option.sel)
  then show ?thesis by (auto simp: maps_ok_def map_ok_def idle_chunk_def)
qed

section \<open>Properties\<close>

text \<open>C8: The write path conserves the byte stream of a response. Whatever sizes the kernel accepts and whenever
  it refuses, for memory and file chunks in any order, the call returns, only bytes go out on the socket of
  the connection, and they followed by what the queue still stands for are what it stood for before; the
  call reports 0 exactly when nothing is left to send, so that the loop over the queue ends.\<close>

theorem connection_handle_write_delivers:
  assumes "queue_rel (writequeue conn) vs" and "maps_ok contents (writequeue conn)" and "sendable contents vs"
    and "writes_fit os" and "maps_files contents os"
  shows "\<exists>n conn' os' ws bss. connection_handle_write conn os = Inr (n, conn', os') \<and>
     conn' = conn\<lparr>writequeue := writequeue conn'\<rparr> \<and> queue_rel (writequeue conn') ws \<and> sendable contents ws \<and>
     trace os' = trace os @ map (Sent (conn_socket_fd conn)) bss \<and>
     queue_stream contents vs = concat bss @ queue_stream contents ws \<and>
     n \<in> {0, 1, -1, -2} \<and> (n = 0 \<longrightarrow> concat bss = queue_stream contents vs)"
proof -
  obtain n conn1 os1 ws where h: "connection_handle_write conn os = Inr (n, conn1, os1)"
    and s: "sent contents conn vs os conn1 ws os1" and n: "n \<in> {0, 1, -1, -2}" "n = 0 \<longrightarrow> ws = []"
    using connection_handle_write_ok [OF assms] by (rule returns_obtain) blast
  from s obtain q bss where "conn1 = conn\<lparr>writequeue := q\<rparr>" "queue_rel (writequeue conn1) ws" "sendable contents ws"
      "trace os1 = trace os @ map (Sent (conn_socket_fd conn)) bss"
      "queue_stream contents vs = concat bss @ queue_stream contents ws"
    by (auto simp: sent_def)
  with h n show ?thesis
    by (intro exI [of _ n] exI [of _ conn1] exI [of _ os1] exI [of _ ws] exI [of _ bss]) (auto simp: queue_stream_def)
qed

definition sample_file_os :: os_env where
  "sample_file_os = (sample_os (\<lambda>_ _. Inr []))\<lparr>os_mmap := \<lambda>_ _ off len. Some (take len (drop off ''abcdef'')),
     os_write := \<lambda>_ bs. Inr (min 4 (length bs))\<rparr>"

lemma sample_file_os_ok: "writes_fit sample_file_os" "maps_files (\<lambda>_. ''abcdef'') sample_file_os" "trace sample_file_os = []"
  by (simp_all add: sample_file_os_def sample_os_def writes_fit_def maps_files_def)

lemma sample_send_queue:
  "\<exists>q. queue_rel q [Mem 0 ''hi'', File 0 ''/f'' 0 6] \<and> maps_ok contents q"
proof -
  obtain q1 where q1: "chunkqueue_append_buffer chunkqueue_init (sample_buffer ''hi'') = Inr q1" "queue_rel q1 [Mem 0 ''hi'']"
    using chunkqueue_append_buffer_rel [OF queue_rel_init sample_buffer_holds, of "''hi''"]
    by (auto simp: returns_iff sample_buffer_def lit_def)
  obtain q2 where q2: "chunkqueue_append_file q1 (sample_buffer ''/f'') 0 6 = Inr q2"
      "queue_rel q2 ([Mem 0 ''hi''] @ [File 0 ''/f'' 0 6])"
    using chunkqueue_append_file_rel [OF q1(2) sample_buffer_holds, of "''/f''" 6 0]
    by (auto simp: returns_iff sample_buffer_def)
  have "maps_kept chunkqueue_init q2"
    by (rule maps_kept_trans [OF append_buffer_maps_kept [OF q1(1)] append_file_maps_kept [OF q2(1) q1(2)]])
  from maps_kept_ok [OF this empty_queue_maps_ok [OF queue_rel_init]] q2(2) show ?thesis by auto
qed

theorem connection_handle_write_delivers_witness:
  "\<exists>q n conn' os' ws bss. queue_rel q [Mem 0 ''hi'', File 0 ''/f'' 0 6] \<and>
     connection_handle_write ((sample_connection [])\<lparr>writequeue := q\<rparr>) sample_file_os = Inr (n, conn', os') \<and>
     trace os' = map (Sent 7) bss \<and> ''hiabcdef'' = concat bss @ queue_stream (\<lambda>_. ''abcdef'') ws"
proof -
  obtain q where q: "queue_rel q [Mem 0 ''hi'', File 0 ''/f'' 0 6]" "maps_ok (\<lambda>_. ''abcdef'') q"
    using sample_send_queue by blast
  have ok: "sendable (\<lambda>_. ''abcdef'') [Mem 0 ''hi'', File 0 ''/f'' 0 6]"
    by (simp add: sendable_def file_window_size_def)
  from connection_handle_write_delivers [of "(sample_connection [])\<lparr>writequeue := q\<rparr>" _ "\<lambda>_. ''abcdef''" sample_file_os] q ok
  obtain n conn' os' ws bss where
    "connection_handle_write ((sample_connection [])\<lparr>writequeue := q\<rparr>) sample_file_os = Inr (n, conn', os')"
    "trace os' = map (Sent 7) bss" "''hiabcdef'' = concat bss @ queue_stream (\<lambda>_. ''abcdef'') ws"
    by (fastforce simp: sample_file_os_ok sample_connection_def queue_stream_def)
  with q(1) show ?thesis by blast
qed

text \<open>C40: A memory chunk that finds the socket's send buffer full breaks the connection. After a failed \<open>writev\<close>
  the code looks at the result of the call instead of \<open>errno\<close>, so even \<open>EAGAIN\<close> counts as fatal, although
  the same error on a file chunk only marks the socket as not writeable.\<close>

theorem writev_would_block_is_fatal:
  assumes "queue_rel (writequeue conn) (Mem k s # vs)" and "s \<noteq> []" and "maps_ok contents (writequeue conn)"
    and "sendable contents (Mem k s # vs)" and "os_write os = (\<lambda>_ _. Inl EAGAIN)" and "writeable conn"
  shows "\<exists>conn' os'. connection_handle_write_state ts conn os = Inr (0, conn', os') \<and> state conn' = CON_STATE_ERROR"
proof -
  have fit: "writes_fit os" using assms(5) by (simp add: writes_fit_def)
  obtain us ids where wf: "queue_wf (writequeue conn) us ids []" and vw: "views (writequeue conn) us (Mem k s # vs)"
    using assms(1) by (auto simp: queue_rel_def)
  then obtain a us' where us: "us = a # us'" by (cases us) auto
  obtain c where c: "q_first (writequeue conn) = Some a" "cells (writequeue conn) a = Some c"
    using queue_wf_head wf us by blast
  have ct: "chunk_type c = CHUNK_MEM" using vw us c by simp
  obtain conn1 os1 ws where w: "connection_writev_mem_chunk conn os = Inr (-2, conn1, os1)"
    using connection_writev_mem_chunk_ok [OF assms(1,3,4) fit] assms(2,5) by (fastforce simp: returns_iff)
  obtain k where "write_fuel (writequeue conn) = Suc k" by (simp add: write_fuel_def)
  then have "connection_handle_write conn os = Inr (-2, conn1, os1)"
    using c ct w by (simp add: connection_handle_write_def load_chunk_def)
  then show ?thesis using assms(6)
    by (simp add: connection_handle_write_state_def connection_set_state_def)
qed

theorem writev_would_block_is_fatal_witness:
  "\<exists>q conn' os'. connection_handle_write_state 5 ((sample_connection [])\<lparr>writequeue := q, writeable := True\<rparr>)
     (sample_file_os\<lparr>os_write := \<lambda>_ _. Inl EAGAIN\<rparr>) = Inr (0, conn', os') \<and> state conn' = CON_STATE_ERROR"
proof -
  obtain q where q: "queue_rel q [Mem 0 ''hi'', File 0 ''/f'' 0 6]" "maps_ok (\<lambda>_. ''abcdef'') q"
    using sample_send_queue by blast
  have ok: "sendable (\<lambda>_. ''abcdef'') [Mem 0 ''hi'', File 0 ''/f'' 0 6]"
    by (simp add: sendable_def file_window_size_def)
  from writev_would_block_is_fatal [where conn = "(sample_connection [])\<lparr>writequeue := q, writeable := True\<rparr>"
      and os = "sample_file_os\<lparr>os_write := \<lambda>_ _. Inl EAGAIN\<rparr>" and ts = 5, OF _ _ _ ok] q
  show ?thesis by (fastforce simp: sample_connection_def)
qed

end
