(* ===== verification/Machine.thy ===== *)
theory Machine
  imports Conn_Read Conn_Write Fdevents
begin

text \<open>
  The state machine of a connection (\<open>connection_state_machine\<close>, \<open>connection_event_handle\<close>,
  \<open>connection_close\<close> and \<open>connection_free\<close> of \<open>src/connection.cpp\<close>) and the worker it belongs to
  (\<open>src/worker.h\<close>). One definition per case of the switch, one step function that selects among them,
  and the loop that runs it until the state stays the same. The lemmas give every step a rank that
  falls whenever the state changes, so that the loop ends, and what the machine leaves alone.
\<close>

section \<open>The worker\<close>

text \<open>
  What a handler finds in its context pointer. Connections live on a heap of their own: \<open>conn_heap\<close> maps
  addresses to the live ones, \<open>conn_slots\<close> is the table \<open>conn\<close> of the worker. The log descriptor and its
  path are not modelled.
\<close>

datatype handler_context = Ctx_worker | Ctx_connection addr

record worker =
  worker_id :: u32
  unix_domain_socekt_fd :: int
  conn_slots :: "addr option list"
  conn_heap :: "addr \<Rightarrow> connection option"
  conn_brk :: addr
  conn_max_size :: u32
  cur_connection_number :: u32
  conn_ev :: "handler_context fdevents"
  global_config :: server_config
  cur_ts :: int

section \<open>The C code: one definition per state\<close>

definition connection_close :: "worker \<Rightarrow> connection \<Rightarrow> os_env \<Rightarrow> fault + (worker \<times> connection \<times> os_env)" where
  "connection_close w conn os =
     (let fd = conn_socket_fd conn
      in if 0 \<le> fd \<and> fd < max_fd (conn_ev w)
         then andthen (fdevents_unset_event (conn_ev w) fd) (\<lambda>ev1.
              andthen (fdevents_unregister_fd ev1 fd) (\<lambda>ev2.
              Inr (w\<lparr>conn_ev := ev2\<rparr>, connection_set_state (conn\<lparr>conn_socket_fd := -1\<rparr>) CON_STATE_CONNECT,
                   sys_close os fd)))
         else Inl AssertFailed)"

definition state_request_start :: "connection \<Rightarrow> os_env \<Rightarrow> connection \<times> os_env" where
  "state_request_start conn os =
     (let (ts, os1) = sys_time os
      in (connection_set_state (conn\<lparr>start_ts := ts, active_read_ts := ts\<rparr>) CON_STATE_READ, os1))"

text \<open>The result of the parser decides only whether the request is logged.\<close>

definition state_request_end :: "server_config \<Rightarrow> connection \<Rightarrow> fault + connection" where
  "state_request_end config conn =
     (let r = connection_request conn;
          r1 = r\<lparr>http_method := buffer_reset (http_method r), http_version := HTTP_VERSION_UNSET,
                 http_range := buffer_reset (http_range r), hostname := buffer_reset (hostname r),
                 request_url := buffer_reset (request_url r)\<rparr>
      in andthen (http_reuqest_parse config (conn\<lparr>connection_request := r1, http_status := 0\<rparr>)) (\<lambda>(rc, conn1).
         andthen (if rc = 0 then andthen (log_parsed_request (connection_request conn1)) (\<lambda>b. Inr ()) else Inr ()) (\<lambda>u.
         Inr (connection_set_state conn1 CON_STATE_HANDLE_REQUEST))))"

definition state_handle_request :: "server_config \<Rightarrow> connection \<Rightarrow> os_env \<Rightarrow> fault + connection" where
  "state_handle_request config conn os =
     andthen (http_request_handle config (os_files os) (conn\<lparr>connection_response := response_initialize\<rparr>)) (\<lambda>(rc, conn1).
     Inr (connection_set_state conn1 CON_STATE_RESPONSE_START))"

definition state_response_start ::
  "server_config \<Rightarrow> connection \<Rightarrow> os_env \<Rightarrow> fault + (connection \<times> os_env)" where
  "state_response_start config conn os =
     andthen (connection_handle_prepare_response_head config conn os) (\<lambda>(conn1, os1).
     Inr (connection_set_state conn1 CON_STATE_WRITE, os1))"

definition state_response_end :: "int \<Rightarrow> connection \<Rightarrow> os_env \<Rightarrow> fault + (connection \<times> os_env)" where
  "state_response_end now conn os =
     (if keep_alive conn
      then andthen (connection_reset (connection_set_state conn CON_STATE_REQUEST_START)) (\<lambda>conn1. Inr (conn1, os))
      else let (ok, os1) = sys_shutdown os (conn_socket_fd conn);
               t = (if ok then now else now - (MINIHTTPD_CLOSE_TIMEOUT + 1))
           in andthen (connection_reset (connection_set_state (conn\<lparr>close_timeout_ts := t\<rparr>) CON_STATE_CLOSE)) (\<lambda>conn1.
              Inr (conn1, os1)))"

definition state_write :: "int \<Rightarrow> connection \<Rightarrow> os_env \<Rightarrow> fault + (connection \<times> os_env)" where
  "state_write now conn os =
     andthen (chunkqueue_length (writequeue conn)) (\<lambda>len.
     if len \<noteq> 0
     then (if writeable conn
           then andthen (connection_handle_write_state now conn os) (\<lambda>(n, conn1, os1). Inr (conn1, os1))
           else Inr (conn, os))
     else if http_response_body_finished conn then Inr (connection_set_state conn CON_STATE_RESPONSE_END, os)
     else Inr (conn, os))"

definition state_error :: "int \<Rightarrow> connection \<Rightarrow> os_env \<Rightarrow> fault + (connection \<times> os_env)" where
  "state_error now conn os =
     (let (ok, os1) = sys_shutdown os (conn_socket_fd conn);
          t = (if ok then now else now - (MINIHTTPD_CLOSE_TIMEOUT + 1))
      in andthen (connection_reset (connection_set_state (conn\<lparr>keep_alive := False, close_timeout_ts := t\<rparr>) CON_STATE_CLOSE))
           (\<lambda>conn1. Inr (conn1, os1)))"

text \<open>Bytes that still arrive are dropped; at the end of the stream or on an error the time-out is over.\<close>

definition state_close :: "worker \<Rightarrow> connection \<Rightarrow> os_env \<Rightarrow> fault + (worker \<times> connection \<times> os_env)" where
  "state_close w conn os =
     (let (res, os1) = sys_read os 512;
          over = (case res of Inl e \<Rightarrow> e \<noteq> EINTR \<and> e \<noteq> EAGAIN | Inr bs \<Rightarrow> bs = []);
          conn1 = (if over then conn\<lparr>close_timeout_ts := cur_ts w - (MINIHTTPD_CLOSE_TIMEOUT + 1)\<rparr> else conn)
      in if MINIHTTPD_CLOSE_TIMEOUT < cur_ts w - close_timeout_ts conn1 then connection_close w conn1 os1
         else Inr (w, conn1, os1))"

definition connection_machine_step ::
  "worker \<Rightarrow> connection \<Rightarrow> os_env \<Rightarrow> fault + (worker \<times> connection \<times> os_env)" where
  "connection_machine_step w conn os =
     (case state conn of
        CON_STATE_REQUEST_START \<Rightarrow> let (conn1, os1) = state_request_start conn os in Inr (w, conn1, os1)
      | CON_STATE_REQUEST_END \<Rightarrow> andthen (state_request_end (global_config w) conn) (\<lambda>conn1. Inr (w, conn1, os))
      | CON_STATE_HANDLE_REQUEST \<Rightarrow> andthen (state_handle_request (global_config w) conn os) (\<lambda>conn1. Inr (w, conn1, os))
      | CON_STATE_RESPONSE_START \<Rightarrow>
          andthen (state_response_start (global_config w) conn os) (\<lambda>(conn1, os1). Inr (w, conn1, os1))
      | CON_STATE_RESPONSE_END \<Rightarrow> andthen (state_response_end (cur_ts w) conn os) (\<lambda>(conn1, os1). Inr (w, conn1, os1))
      | CON_STATE_READ \<Rightarrow>
          andthen (connection_handle_read_state (global_config w) (cur_ts w) conn os) (\<lambda>(n, conn1, os1). Inr (w, conn1, os1))
      | CON_STATE_WRITE \<Rightarrow> andthen (state_write (cur_ts w) conn os) (\<lambda>(conn1, os1). Inr (w, conn1, os1))
      | CON_STATE_ERROR \<Rightarrow> andthen (state_error (cur_ts w) conn os) (\<lambda>(conn1, os1). Inr (w, conn1, os1))
      | CON_STATE_CLOSE \<Rightarrow> state_close w conn os
      | CON_STATE_CONNECT \<Rightarrow> Inr (w, conn, os))"

section \<open>The C code: the machine\<close>

text \<open>
  The loop ends when a step leaves the state as it was. Twelve steps are enough from any state (see
  \<open>machine_fuel_enough\<close>).
\<close>

fun connection_machine_loop ::
  "nat \<Rightarrow> worker \<Rightarrow> connection \<Rightarrow> os_env \<Rightarrow> fault + (worker \<times> connection \<times> os_env)" where
  "connection_machine_loop 0 w conn os = Inl Diverges"
| "connection_machine_loop (Suc n) w conn os =
     andthen (connection_machine_step w conn os) (\<lambda>(w1, conn1, os1).
     if state conn1 = state conn then Inr (w1, conn1, os1) else connection_machine_loop n w1 conn1 os1)"

definition machine_fuel :: nat where "machine_fuel = 12"

text \<open>
  \<open>connection_free\<close>: the queues are freed chunk by chunk, the buffers of the request and the response and
  the object itself are given back.
\<close>

definition connection_free :: "worker \<Rightarrow> addr \<Rightarrow> connection \<Rightarrow> fault + worker" where
  "connection_free w a conn =
     andthen (chunkqueue_free (readqueue conn)) (\<lambda>q1.
     andthen (chunkqueue_free (writequeue conn)) (\<lambda>q2.
     Inr (w\<lparr>conn_heap := (conn_heap w)(a := None)\<rparr>)))"

text \<open>After the loop: a closed connection leaves its slot and is freed, the others choose their events.\<close>

definition connection_machine_finish :: "worker \<Rightarrow> addr \<Rightarrow> connection \<Rightarrow> fault + worker" where
  "connection_machine_finish w a conn =
     (if state conn = CON_STATE_CONNECT
      then (if unat (connection_index conn) < length (conn_slots w)
            then connection_free
                   (w\<lparr>conn_slots := (conn_slots w)[unat (connection_index conn) := None],
                      cur_connection_number := cur_connection_number w - 1\<rparr>) a conn
            else Inl OutOfBounds)
      else let w1 = w\<lparr>conn_heap := (conn_heap w)(a \<mapsto> conn)\<rparr>; fd = conn_socket_fd conn
           in if state conn = CON_STATE_READ \<or> state conn = CON_STATE_CLOSE
              then andthen (fdevents_set_events (conn_ev w1) fd EPOLLIN) (\<lambda>ev1. Inr (w1\<lparr>conn_ev := ev1\<rparr>))
              else if state conn = CON_STATE_WRITE
              then andthen (chunkqueue_length (writequeue conn)) (\<lambda>len.
                   if len \<noteq> 0 \<and> \<not> writeable conn
                   then andthen (fdevents_set_events (conn_ev w1) fd EPOLLOUT) (\<lambda>ev1. Inr (w1\<lparr>conn_ev := ev1\<rparr>))
                   else andthen (fdevents_unset_event (conn_ev w1) fd) (\<lambda>ev1. Inr (w1\<lparr>conn_ev := ev1\<rparr>)))
              else Inr w1)"

definition connection_state_machine :: "worker \<Rightarrow> addr \<Rightarrow> os_env \<Rightarrow> fault + (worker \<times> os_env)" where
  "connection_state_machine w a os =
     (case conn_heap w a of
        None \<Rightarrow> Inl UseAfterFree
      | Some conn \<Rightarrow>
          andthen (connection_machine_loop machine_fuel w conn os) (\<lambda>(w1, conn1, os1).
          andthen (connection_machine_finish w1 a conn1) (\<lambda>w2. Inr (w2, os1))))"

text \<open>The flags and the state an event sets before the machine runs.\<close>

definition connection_note_events :: "u32 \<Rightarrow> connection \<Rightarrow> os_env \<Rightarrow> connection \<times> os_env" where
  "connection_note_events es conn os =
     (let conn1 = (if es AND EPOLLIN \<noteq> 0 then conn\<lparr>readable := True\<rparr> else conn);
          conn2 = (if es AND EPOLLOUT \<noteq> 0 then conn1\<lparr>writeable := True\<rparr> else conn1)
      in if es AND NOT (EPOLLIN OR EPOLLOUT) \<noteq> 0
         then (if es AND EPOLLHUP \<noteq> 0
               then (if state conn2 = CON_STATE_CLOSE
                     then let (ts, os1) = sys_time os
                          in (conn2\<lparr>close_timeout_ts := ts - (MINIHTTPD_CLOSE_TIMEOUT + 1)\<rparr>, os1)
                     else (connection_set_state conn2 CON_STATE_ERROR, os))
               else if es AND EPOLLERR \<noteq> 0 then (connection_set_state conn2 CON_STATE_ERROR, os)
               else (conn2, os))
         else (conn2, os))"

definition connection_event_handle :: "worker \<Rightarrow> addr \<Rightarrow> u32 \<Rightarrow> os_env \<Rightarrow> fault + (worker \<times> os_env)" where
  "connection_event_handle w a es os =
     (case conn_heap w a of
        None \<Rightarrow> Inl UseAfterFree
      | Some conn \<Rightarrow>
          let (conn1, os1) = connection_note_events es conn os
          in connection_state_machine (w\<lparr>conn_heap := (conn_heap w)(a \<mapsto> conn1)\<rparr>) a os1)"

section \<open>What the handlers leave alone\<close>

text \<open>No handler but \<open>connection_close\<close> touches the descriptor of a connection or its place in the table.\<close>

definition conn_ids :: "connection \<Rightarrow> int \<times> u32" where
  "conn_ids conn = (conn_socket_fd conn, connection_index conn)"

lemma conn_ids_simps [simp]:
  "conn_ids (conn\<lparr>state := st\<rparr>) = conn_ids conn" "conn_ids (conn\<lparr>writequeue := q\<rparr>) = conn_ids conn"
  "conn_ids (conn\<lparr>connection_request := r\<rparr>) = conn_ids conn" "conn_ids (conn\<lparr>http_status := s\<rparr>) = conn_ids conn"
  "conn_ids (conn\<lparr>connection_response := p\<rparr>) = conn_ids conn" "conn_ids (conn\<lparr>keep_alive := k\<rparr>) = conn_ids conn"
  "conn_ids (conn\<lparr>readable := k\<rparr>) = conn_ids conn" "conn_ids (conn\<lparr>writeable := k\<rparr>) = conn_ids conn"
  "conn_ids (conn\<lparr>close_timeout_ts := t\<rparr>) = conn_ids conn" "conn_ids (conn\<lparr>active_write_ts := t\<rparr>) = conn_ids conn"
  "conn_ids (conn\<lparr>active_read_ts := t\<rparr>) = conn_ids conn" "conn_ids (conn\<lparr>start_ts := t\<rparr>) = conn_ids conn"
  "conn_ids (conn\<lparr>readqueue := q\<rparr>) = conn_ids conn" "conn_ids (conn\<lparr>http_response_body_finished := k\<rparr>) = conn_ids conn"
  "conn_ids (connection_set_state conn st) = conn_ids conn"
  "conn_ids (refuse s conn) = conn_ids conn" "conn_ids (response_fail s conn) = conn_ids conn"
  by (simp_all add: conn_ids_def connection_set_state_def refuse_def response_fail_def)

lemma state_set_state [simp]: "state (connection_set_state conn st) = st"
  by (simp add: connection_set_state_def)

lemma reset_ids:
  "ensures (connection_reset conn) (\<lambda>conn'. conn_ids conn' = conn_ids conn \<and> state conn' = state conn \<and> \<not> readable conn')"
  by (auto simp: connection_reset_def conn_ids_def intro!: ensures_any)

lemma check_version_ids: "http_check_version config p conn = (ok, conn') \<Longrightarrow> conn_ids conn' = conn_ids conn"
  by (auto simp: http_check_version_def split: option.splits prod.splits if_splits)

lemma line_end_ids: "ensures (request_line_end config m u p i conn) (\<lambda>(ok, conn'). conn_ids conn' = conn_ids conn)"
  by (auto simp: request_line_end_def Let_def intro!: ensures_any dest!: check_version_ids)

lemma post_check_ids: "conn_ids (snd (request_post_check conn)) = conn_ids conn"
  by (simp add: request_post_check_def Let_def)

lemma request_options_ids: "ensures (request_options len i off conn) (\<lambda>(rc, conn'). conn_ids conn' = conn_ids conn)"
  using post_check_ids by (auto simp: request_options_def Let_def case_prod_beta intro!: ensures_any)

lemma parse_ids: "ensures (http_reuqest_parse config conn) (\<lambda>(rc, conn'). conn_ids conn' = conn_ids conn)"
  unfolding http_reuqest_parse_def Let_def ensures_simps
  by (rule ensures_any)
    (auto split: line_scan.split intro!: ensures_mono [OF line_end_ids] ensures_mono [OF request_options_ids])

lemma handle_ids: "ensures (http_request_handle config fs conn) (\<lambda>(rc, conn'). conn_ids conn' = conn_ids conn)"
  by (auto simp: http_request_handle_def Let_def handle_regular_file_def handle_directory_def
      split: sum.split file_kind.split option.split intro!: ensures_any)

lemma custom_body_ids: "ensures (response_custom_body conn) (\<lambda>conn'. conn_ids conn' = conn_ids conn)"
  by (auto simp: response_custom_body_def split: option.split intro!: ensures_any)

lemma write_head_ids: "ensures (connection_write_response_head config conn os) (\<lambda>(conn', os'). conn_ids conn' = conn_ids conn)"
  by (auto simp: connection_write_response_head_def split: option.split prod.split intro!: ensures_any)

lemma prepare_head_ids:
  "ensures (connection_handle_prepare_response_head config conn os) (\<lambda>(conn', os'). conn_ids conn' = conn_ids conn)"
  unfolding connection_handle_prepare_response_head_def ensures_simps
  by (rule ensures_mono [OF custom_body_ids])
    (auto intro!: ensures_any ensures_mono [OF write_head_ids])

lemma handle_read_ids:
  "ensures (connection_handle_read conn os) (\<lambda>(n, conn', os'). conn_ids conn' = conn_ids conn \<and> state conn' = state conn)"
  by (auto simp: connection_handle_read_def Let_def split: prod.split option.split sum.split intro!: ensures_any)

lemma check_head_ids:
  "ensures (connection_check_head config conn) (\<lambda>conn'. conn_ids conn' = conn_ids conn \<and>
    (state conn' = state conn \<or> state conn' \<in> {CON_STATE_REQUEST_END, CON_STATE_HANDLE_REQUEST}))"
  by (auto simp: connection_check_head_def Let_def split: prod.split option.split intro!: ensures_any)

lemma read_state_ids:
  "ensures (connection_handle_read_state config now conn os) (\<lambda>(n, conn', os'). conn_ids conn' = conn_ids conn \<and>
    (state conn' = state conn \<or>
     readable conn \<and> state conn' \<in> {CON_STATE_REQUEST_END, CON_STATE_HANDLE_REQUEST, CON_STATE_ERROR, CON_STATE_CLOSE}))"
proof (cases "readable conn")
  case True
  show ?thesis unfolding connection_handle_read_state_def eqTrueI [OF True] not_True_eq_False if_False ensures_simps
    by (rule ensures_mono [OF handle_read_ids])
      (auto simp: True split: prod.split intro!: ensures_mono [OF check_head_ids])
qed (simp add: connection_handle_read_state_def)

definition only_queue :: "connection \<Rightarrow> connection \<Rightarrow> bool" where
  "only_queue conn conn' \<longleftrightarrow> conn'\<lparr>writequeue := writequeue conn\<rparr> = conn"

lemma only_queue_refl [simp]: "only_queue conn conn" "only_queue conn (conn\<lparr>writequeue := q\<rparr>)"
  by (simp_all add: only_queue_def)

lemma only_queue_trans:
  assumes "only_queue a b" and "only_queue b c"
  shows "only_queue a c"
proof -
  have "c\<lparr>writequeue := writequeue a\<rparr> = c\<lparr>writequeue := writequeue b\<rparr>\<lparr>writequeue := writequeue a\<rparr>" by simp
  also have "\<dots> = a" using assms unfolding only_queue_def by (simp only:)
  finally show ?thesis by (simp only: only_queue_def)
qed

lemma only_queue_ids:
  assumes "only_queue conn conn'"
  shows "conn_ids conn' = conn_ids conn" and "state conn' = state conn"
  using arg_cong [OF assms [unfolded only_queue_def], of conn_ids] arg_cong [OF assms [unfolded only_queue_def], of state]
  by simp_all

lemma writev_only_queue: "ensures (connection_writev_mem_chunk conn os) (\<lambda>(n, conn', os'). only_queue conn conn')"
  by (auto simp: connection_writev_mem_chunk_def Let_def split: prod.split sum.split intro!: ensures_any)

lemma send_file_only_queue: "ensures (connection_send_file_chunk conn os) (\<lambda>(n, conn', os'). only_queue conn conn')"
  by (auto simp: connection_send_file_chunk_def Let_def split: prod.split sum.split option.split intro!: ensures_any)

lemma write_loop_only_queue: "ensures (connection_handle_write_loop k conn os) (\<lambda>(n, conn', os'). only_queue conn conn')"
proof (induction k arbitrary: conn os)
  case (Suc k)
  show ?case
  proof (cases "q_first (writequeue conn)")
    case (Some a)
    have step: "ensures (case chunk_type c of CHUNK_MEM \<Rightarrow> connection_writev_mem_chunk conn os
                   | CHUNK_FILE \<Rightarrow> connection_send_file_chunk conn os) (\<lambda>(n, conn', os'). only_queue conn conn')" for c
      using writev_only_queue send_file_only_queue by (cases "chunk_type c") simp_all
    have rest: "ensures (connection_handle_write_loop k conn1 os1) (\<lambda>(n, conn', os'). only_queue conn conn')"
      if "only_queue conn conn1" for conn1 os1
      by (rule ensures_mono [OF Suc.IH]) (use that only_queue_trans in blast)
    show ?thesis unfolding connection_handle_write_loop.simps Some option.case ensures_simps
      by (rule ensures_any, rule ensures_mono [OF step]) (use rest in auto)
  qed simp
qed simp

lemma write_state_ids:
  "ensures (connection_handle_write_state now conn os) (\<lambda>(n, conn', os'). conn_ids conn' = conn_ids conn \<and>
     (state conn' = state conn \<or> state conn' \<in> {CON_STATE_RESPONSE_END, CON_STATE_ERROR}))"
proof (cases "writeable conn")
  case True
  show ?thesis
    unfolding connection_handle_write_state_def eqTrueI [OF True] not_True_eq_False if_False ensures_simps
      connection_handle_write_def
    by (rule ensures_mono [OF write_loop_only_queue]) (auto dest: only_queue_ids)
qed (simp add: connection_handle_write_state_def)

section \<open>Every change of state lowers the rank\<close>

text \<open>
  A readable connection may go once around the cycle of a request; a reset clears the flag, so the
  second visit to the reading states is the last.
\<close>

definition machine_rank :: "connection \<Rightarrow> nat" where
  "machine_rank conn =
     (case state conn of
        CON_STATE_REQUEST_START \<Rightarrow> if readable conn then 12 else 5
      | CON_STATE_READ \<Rightarrow> if readable conn then 11 else 4
      | CON_STATE_REQUEST_END \<Rightarrow> 10
      | CON_STATE_HANDLE_REQUEST \<Rightarrow> 9
      | CON_STATE_RESPONSE_START \<Rightarrow> 8
      | CON_STATE_WRITE \<Rightarrow> 7
      | CON_STATE_RESPONSE_END \<Rightarrow> 6
      | CON_STATE_ERROR \<Rightarrow> 3
      | CON_STATE_CLOSE \<Rightarrow> 2
      | CON_STATE_CONNECT \<Rightarrow> 1)"

lemma machine_rank_pos: "0 < machine_rank conn"
  by (simp add: machine_rank_def split: connection_state_t.split)

lemma machine_rank_bound: "machine_rank conn \<le> machine_fuel"
  by (simp add: machine_rank_def machine_fuel_def split: connection_state_t.split)

text \<open>
  What a step does to the worker: nothing, unless it closes the connection; then the descriptor is
  out of the event table.
\<close>

definition close_effect :: "worker \<Rightarrow> int \<Rightarrow> worker \<Rightarrow> bool" where
  "close_effect w fd w1 \<longleftrightarrow> (\<exists>ev1 ev2. fdevents_unset_event (conn_ev w) fd = Inr ev1 \<and>
     fdevents_unregister_fd ev1 fd = Inr ev2 \<and> w1 = w\<lparr>conn_ev := ev2\<rparr>)"

definition moved :: "worker \<Rightarrow> connection \<Rightarrow> worker \<Rightarrow> connection \<Rightarrow> bool" where
  "moved w conn w1 conn1 \<longleftrightarrow>
     w1 = w \<and> conn_ids conn1 = conn_ids conn \<and> (state conn1 = CON_STATE_CONNECT \<longleftrightarrow> state conn = CON_STATE_CONNECT) \<or>
     state conn \<noteq> CON_STATE_CONNECT \<and> state conn1 = CON_STATE_CONNECT \<and>
       connection_index conn1 = connection_index conn \<and> close_effect w (conn_socket_fd conn) w1"

definition stepped :: "worker \<Rightarrow> connection \<Rightarrow> worker \<Rightarrow> connection \<Rightarrow> bool" where
  "stepped w conn w1 conn1 \<longleftrightarrow> moved w conn w1 conn1 \<and>
     (state conn1 = state conn \<or> machine_rank conn1 < machine_rank conn)"

lemma moved_refl [simp]: "moved w conn w conn"
  by (simp add: moved_def)

lemma moved_ids: "moved w conn w1 conn1 \<Longrightarrow> connection_index conn1 = connection_index conn"
  by (auto simp: moved_def conn_ids_def)

lemma moved_trans:
  assumes "moved w conn w1 conn1" and "moved w1 conn1 w2 conn2"
  shows "moved w conn w2 conn2"
  using assms unfolding moved_def by (auto simp: conn_ids_def)

lemma state_close_moved:
  "state conn = CON_STATE_CLOSE \<Longrightarrow> ensures (state_close w conn os) (\<lambda>(w1, conn1, os1). stepped w conn w1 conn1)"
  by (auto simp: state_close_def connection_close_def connection_set_state_def Let_def stepped_def moved_def machine_rank_def
      close_effect_def conn_ids_def split: prod.split sum.split intro!: ensuresI)

lemma state_write_stepped:
  assumes at: "state conn = CON_STATE_WRITE"
  shows "ensures (state_write (cur_ts w) conn os) (\<lambda>(conn1, os1). stepped w conn w conn1)"
proof -
  have sent: "ensures (connection_handle_write_state (cur_ts w) conn os) (\<lambda>(n, conn1, os1). stepped w conn w conn1)"
    by (rule ensures_mono [OF write_state_ids]) (auto simp: at stepped_def moved_def machine_rank_def)
  have over: "stepped w conn w (connection_set_state conn CON_STATE_RESPONSE_END)" "stepped w conn w conn"
    by (simp_all add: at stepped_def moved_def machine_rank_def)
  show ?thesis
    unfolding state_write_def ensures_simps
  proof (rule ensures_any)
    fix len :: u32
    from sent have "ensures (andthen (connection_handle_write_state (cur_ts w) conn os) (\<lambda>(n, conn1, os1). Inr (conn1, os1)))
        (\<lambda>(conn1, os1). stepped w conn w conn1)"
      unfolding ensures_simps by (rule ensures_mono) auto
    with over show "ensures (if len \<noteq> 0
     then (if writeable conn
           then andthen (connection_handle_write_state (cur_ts w) conn os) (\<lambda>(n, conn1, os1). Inr (conn1, os1))
           else Inr (conn, os))
     else if http_response_body_finished conn then Inr (connection_set_state conn CON_STATE_RESPONSE_END, os)
     else Inr (conn, os)) (\<lambda>(conn1, os1). stepped w conn w conn1)" by (simp del: ensures_simps(3))
  qed
qed

text \<open>A reset after the response or an error leaves the connection where it was sent.\<close>

lemma reset_stepped:
  fixes os1 :: os_env
  assumes "state conn \<in> {CON_STATE_RESPONSE_END, CON_STATE_ERROR}" and "conn_ids c = conn_ids conn"
    and "state c \<in> {CON_STATE_REQUEST_START, CON_STATE_CLOSE}" "state conn = CON_STATE_ERROR \<Longrightarrow> state c = CON_STATE_CLOSE"
  shows "ensures (andthen (connection_reset c) (\<lambda>conn1. Inr (conn1, os1))) (\<lambda>(conn1, os1). stepped w conn w conn1)"
  unfolding ensures_simps by (rule ensures_mono [OF reset_ids]) (use assms in \<open>auto simp: stepped_def moved_def machine_rank_def\<close>)

lemma state_response_end_stepped:
  assumes "state conn = CON_STATE_RESPONSE_END"
  shows "ensures (state_response_end (cur_ts w) conn os) (\<lambda>(conn1, os1). stepped w conn w conn1)"
  using reset_stepped [of conn] assms
  by (auto simp: state_response_end_def Let_def split: prod.split simp del: ensures_simps(3))

lemma state_error_stepped:
  assumes "state conn = CON_STATE_ERROR"
  shows "ensures (state_error (cur_ts w) conn os) (\<lambda>(conn1, os1). stepped w conn w conn1)"
  using reset_stepped [of conn] assms
  by (auto simp: state_error_def Let_def split: prod.split simp del: ensures_simps(3))

lemma connection_machine_step_moved:
  "ensures (connection_machine_step w conn os) (\<lambda>(w1, conn1, os1). stepped w conn w1 conn1)"
proof (cases "state conn")
  case CON_STATE_REQUEST_START
  then show ?thesis
    by (auto simp: connection_machine_step_def state_request_start_def sys_time_def stepped_def moved_def machine_rank_def
        connection_set_state_def conn_ids_def)
next
  case CON_STATE_REQUEST_END
  show ?thesis
    unfolding connection_machine_step_def CON_STATE_REQUEST_END connection_state_t.case state_request_end_def Let_def ensures_simps
    by (rule ensures_mono [OF parse_ids], clarsimp) (auto simp: CON_STATE_REQUEST_END stepped_def moved_def machine_rank_def intro!: ensures_any)
next
  case CON_STATE_READ
  show ?thesis
    unfolding connection_machine_step_def CON_STATE_READ connection_state_t.case ensures_simps
    by (rule ensures_mono [OF read_state_ids]) (auto simp: CON_STATE_READ stepped_def moved_def machine_rank_def)
next
  case CON_STATE_HANDLE_REQUEST
  show ?thesis
    unfolding connection_machine_step_def CON_STATE_HANDLE_REQUEST connection_state_t.case state_handle_request_def ensures_simps
    by (intro ensures_mono [OF handle_ids]) (auto simp: CON_STATE_HANDLE_REQUEST stepped_def moved_def machine_rank_def)
next
  case CON_STATE_RESPONSE_START
  show ?thesis
    unfolding connection_machine_step_def CON_STATE_RESPONSE_START connection_state_t.case state_response_start_def ensures_simps
    by (intro ensures_mono [OF prepare_head_ids]) (auto simp: CON_STATE_RESPONSE_START stepped_def moved_def machine_rank_def)
next
  case CON_STATE_WRITE
  show ?thesis
    unfolding connection_machine_step_def CON_STATE_WRITE connection_state_t.case ensures_simps
    by (rule ensures_mono [OF state_write_stepped [OF CON_STATE_WRITE]]) auto
next
  case CON_STATE_RESPONSE_END
  show ?thesis
    unfolding connection_machine_step_def CON_STATE_RESPONSE_END connection_state_t.case ensures_simps
    by (rule ensures_mono [OF state_response_end_stepped [OF CON_STATE_RESPONSE_END]]) auto
next
  case CON_STATE_ERROR
  show ?thesis
    unfolding connection_machine_step_def CON_STATE_ERROR connection_state_t.case ensures_simps
    by (rule ensures_mono [OF state_error_stepped [OF CON_STATE_ERROR]]) auto
next
  case CON_STATE_CLOSE
  then show ?thesis using state_close_moved [of conn w os] by (simp add: connection_machine_step_def)
next
  case CON_STATE_CONNECT
  then show ?thesis by (simp add: connection_machine_step_def stepped_def)
qed

lemma connection_machine_loop_moved:
  "ensures (connection_machine_loop n w conn os) (\<lambda>(w1, conn1, os1). moved w conn w1 conn1)"
proof (induction n arbitrary: w conn os)
  case (Suc n)
  have later: "ensures (connection_machine_loop n w1 conn1 os1) (\<lambda>(w2, conn2, os2). moved w conn w2 conn2)"
    if "moved w conn w1 conn1" for w1 conn1 os1
    by (rule ensures_mono [OF Suc.IH]) (use moved_trans [OF that] in blast)
  show ?case unfolding connection_machine_loop.simps ensures_simps
    by (rule ensures_mono [OF connection_machine_step_moved]) (use later in \<open>auto simp: stepped_def\<close>)
qed simp

text \<open>With fuel for the rank, more fuel changes nothing.\<close>

lemma machine_loop_fuel:
  "machine_rank conn \<le> n \<Longrightarrow> connection_machine_loop (n + k) w conn os = connection_machine_loop n w conn os"
proof (induction n arbitrary: w conn os)
  case 0
  with machine_rank_pos [of conn] show ?case by simp
next
  case (Suc n)
  have "(if state conn1 = state conn then Inr (w1, conn1, os1) else connection_machine_loop (n + k) w1 conn1 os1) =
        (if state conn1 = state conn then Inr (w1, conn1, os1) else connection_machine_loop n w1 conn1 os1)"
    if "connection_machine_step w conn os = Inr (w1, conn1, os1)" for w1 conn1 os1
    using ensuresD [OF connection_machine_step_moved that] Suc.prems Suc.IH [of conn1 w1 os1]
    by (auto simp: stepped_def)
  then show ?case
    by (cases "connection_machine_step w conn os") (auto split: prod.split)
qed

lemma machine_fuel_enough: "connection_machine_loop (machine_fuel + k) w conn os = connection_machine_loop machine_fuel w conn os"
  by (rule machine_loop_fuel [OF machine_rank_bound])

section \<open>Runs of the machine\<close>

text \<open>The changes of state of one run of the loop.\<close>

inductive machine_steps :: "nat \<Rightarrow> worker \<times> connection \<times> os_env \<Rightarrow> worker \<times> connection \<times> os_env \<Rightarrow> bool" where
  machine_here: "machine_steps 0 s s"
| machine_there: "connection_machine_step w conn os = Inr (w1, conn1, os1) \<Longrightarrow> state conn1 \<noteq> state conn \<Longrightarrow>
    machine_steps n (w1, conn1, os1) s \<Longrightarrow> machine_steps (Suc n) (w, conn, os) s"

inductive_cases machine_steps_SucE: "machine_steps (Suc n) (w, conn, os) s"
inductive_simps machine_steps_0 [simp]: "machine_steps 0 s s'"

lemma machine_steps_rank:
  "machine_steps n s s' \<Longrightarrow> machine_rank (fst (snd s')) + n \<le> machine_rank (fst (snd s))"
proof (induction rule: machine_steps.induct)
  case (machine_there w conn os w1 conn1 os1 n s)
  then show ?case using ensuresD [OF connection_machine_step_moved machine_there(1)] by (auto simp: stepped_def)
qed simp

lemma machine_steps_append:
  "machine_steps m s t \<Longrightarrow> machine_steps n t u \<Longrightarrow> machine_steps (m + n) s u"
  by (induction rule: machine_steps.induct) (auto intro: machine_there)

text \<open>The loop returns the end of the run: where a step leaves the state alone, or faults.\<close>

lemma machine_steps_loop:
  "machine_steps n (w, conn, os) (w1, conn1, os1) \<Longrightarrow>
   connection_machine_loop (n + k) w conn os = connection_machine_loop k w1 conn1 os1"
proof (induction n arbitrary: w conn os)
  case (Suc n)
  from Suc.prems obtain w2 conn2 os2 where "connection_machine_step w conn os = Inr (w2, conn2, os2)"
      "state conn2 \<noteq> state conn" "machine_steps n (w2, conn2, os2) (w1, conn1, os1)"
    by (elim machine_steps_SucE) auto
  with Suc.IH show ?case by simp
qed simp

lemma machine_rest:
  assumes "machine_steps n (w, conn, os) (w1, conn1, os1)" and "connection_machine_step w1 conn1 os1 = Inr (w2, conn2, os2)"
    and "state conn2 = state conn1"
  shows "connection_machine_loop machine_fuel w conn os = Inr (w2, conn2, os2)"
proof -
  have "n < machine_fuel"
    using machine_steps_rank [OF assms(1)] machine_rank_pos [of conn1] machine_rank_bound [of conn] by simp
  then obtain k where k: "machine_fuel = n + Suc k" by (metis add_Suc_right less_imp_Suc_add)
  show ?thesis unfolding k machine_steps_loop [OF assms(1)] using assms(2,3) by simp
qed

section \<open>Properties\<close>

text \<open>C14: The state machine always ends. A run of the loop changes the state at most eleven times, whatever the
  client sends and the system answers, because every change lowers a rank; the loop with its fuel of twelve
  rounds agrees with the loop with any more fuel.\<close>

theorem state_machine_terminates:
  assumes "machine_steps n (w, conn, os) s"
  shows "n < machine_fuel \<and>
    connection_machine_loop (machine_fuel + k) w conn os = connection_machine_loop machine_fuel w conn os"
  using machine_steps_rank [OF assms] machine_rank_pos [of "fst (snd s)"] machine_rank_bound [of conn] machine_fuel_enough
  by simp

definition sample_worker :: "worker" where
  "sample_worker = \<lparr>worker_id = 0, unix_domain_socekt_fd = 3, conn_slots = [Some 0], conn_heap = (\<lambda>_. None)(0 \<mapsto> sample_connection []),
     conn_brk = 1, conn_max_size = 1, cur_connection_number = 1,
     conn_ev = \<lparr>max_fd = 16, hanlder_array = (replicate 16 None)[7 := Some \<lparr>node_fd = 7, handler_ctx = Ctx_connection 0,
         handler = Connection_event_handle, events = EPOLLIN\<rparr>], epoll_requests = [EPOLL_CTL_ADD 7 (EPOLLIN OR EPOLLERR OR EPOLLHUP)]\<rparr>,
     global_config = named_config, cur_ts = 10\<rparr>"

theorem state_machine_terminates_witness:
  "\<exists>conn os. machine_steps 1 (sample_worker, (sample_connection [])\<lparr>state := CON_STATE_REQUEST_START\<rparr>, sample_os (\<lambda>_ _. Inr []))
      (sample_worker, conn, os) \<and> state conn = CON_STATE_READ \<and> (1::nat) < machine_fuel \<and>
    connection_machine_loop (machine_fuel + 3) sample_worker ((sample_connection [])\<lparr>state := CON_STATE_REQUEST_START\<rparr>)
        (sample_os (\<lambda>_ _. Inr [])) =
      connection_machine_loop machine_fuel sample_worker ((sample_connection [])\<lparr>state := CON_STATE_REQUEST_START\<rparr>)
        (sample_os (\<lambda>_ _. Inr []))"
proof -
  let ?c = "(sample_connection [])\<lparr>state := CON_STATE_REQUEST_START\<rparr>" and ?os = "sample_os (\<lambda>_ _. Inr [])"
  obtain c1 os1 where s: "state_request_start ?c ?os = (c1, os1)" "state c1 = CON_STATE_READ"
    by (simp add: state_request_start_def sys_time_def)
  then have "connection_machine_step sample_worker ?c ?os = Inr (sample_worker, c1, os1)"
    by (simp add: connection_machine_step_def)
  from machine_there [OF this _ machine_here] s(2)
  have one: "machine_steps 1 (sample_worker, ?c, ?os) (sample_worker, c1, os1)" by simp
  from state_machine_terminates [OF one, of 3] one s(2) show ?thesis by blast
qed

end
