(* ===== verification/Worker.thy ===== *)
theory Worker
  imports Machine
begin

text \<open>
  The worker process (\<open>src/worker.cpp\<close> and the worker's part of \<open>src/main.cpp\<close>): its table of
  connections, the handlers of the descriptor-passing socket and of the timer, and the event loop that
  dispatches what \<open>epoll_wait\<close> reports. The invariant \<open>worker_wf\<close> ties the table, the heap of
  connections and the event table together; every handler preserves it, so no event ever reaches a
  connection that has been freed, and the count of connections is exact.
\<close>

section \<open>The C code: connections\<close>

definition worker_connection_initialize :: "worker \<Rightarrow> u32 \<Rightarrow> worker" where
  "worker_connection_initialize w max_connection_sizes = w
     \<lparr>conn_max_size := max_connection_sizes, cur_connection_number := 0,
      conn_slots := replicate (unat max_connection_sizes) None\<rparr>"

text \<open>The index of the first slot that is free.\<close>

function find_slot :: "worker \<Rightarrow> nat \<Rightarrow> fault + nat" where
  "find_slot w i =
     (if i < unat (conn_max_size w)
      then (if i < length (conn_slots w)
            then (if conn_slots w ! i = None then Inr i else find_slot w (i + 1))
            else Inl OutOfBounds)
      else Inr i)"
  by pat_completeness auto
termination by (relation "measure (\<lambda>(w, i). unat (conn_max_size w) - i)") auto

declare find_slot.simps [simp del]

text \<open>\<open>memory\<close> is what the struct that \<open>malloc\<close> returns happens to hold.\<close>

definition worker_get_new_connection :: "connection \<Rightarrow> worker \<Rightarrow> fault + (worker \<times> addr option)" where
  "worker_get_new_connection memory w =
     (if conn_max_size w \<le> cur_connection_number w then Inr (w, None)
      else andthen (find_slot w 0) (\<lambda>i.
           if i < unat (conn_max_size w)
           then let a = conn_brk w; conn = (connection_set_default memory)\<lparr>connection_index := of_nat i\<rparr>
                in Inr (w\<lparr>cur_connection_number := cur_connection_number w + 1,
                          conn_slots := (conn_slots w)[i := Some a],
                          conn_heap := (conn_heap w)(a \<mapsto> conn), conn_brk := Suc a\<rparr>, Some a)
           else Inl AssertFailed))"

section \<open>The C code: the handlers\<close>

text \<open>
  A new connection: its descriptor is registered and its machine started. \<open>getpeername\<close> serves the log
  only.
\<close>

definition worker_accept :: "connection \<Rightarrow> int \<Rightarrow> worker \<Rightarrow> os_env \<Rightarrow> fault + (int \<times> worker \<times> os_env)" where
  "worker_accept memory connection_fd w os =
     andthen (worker_get_new_connection memory w) (\<lambda>(w1, p).
     case p of
       None \<Rightarrow> Inr (-1, w1, sys_close os connection_fd)
     | Some a \<Rightarrow>
         (case conn_heap w1 a of
            None \<Rightarrow> Inl UseAfterFree
          | Some conn \<Rightarrow>
              let w2 = w1\<lparr>conn_heap := (conn_heap w1)(a \<mapsto> conn\<lparr>conn_socket_fd := connection_fd\<rparr>)\<rparr>
              in andthen (fdevents_register_fd (conn_ev w2) connection_fd Connection_event_handle (Ctx_connection a)) (\<lambda>ev1.
                 andthen (connection_state_machine (w2\<lparr>conn_ev := ev1\<rparr>) a os) (\<lambda>(w3, os1).
                 Inr (0, w3, os1)))))"

definition unix_domain_socket_handle ::
  "connection \<Rightarrow> int \<Rightarrow> u32 \<Rightarrow> worker \<Rightarrow> os_env \<Rightarrow> fault + (int \<times> worker \<times> os_env)" where
  "unix_domain_socket_handle memory fd es w os =
     (let leave = (\<lambda>code os1. andthen (fdevents_unset_event (conn_ev w) fd) (\<lambda>ev1. Inr (code, w\<lparr>conn_ev := ev1\<rparr>, os1)))
      in if es AND EPOLLHUP \<noteq> 0 then leave 0 os
         else if es AND EPOLLERR \<noteq> 0 then Inr (-1, w, os)
         else let (res, os1) = sys_recvfd os
              in case res of
                   Inl e \<Rightarrow> if e = EINTR \<or> e = EAGAIN then Inr (0, w, os1) else leave (-1) os1
                 | Inr None \<Rightarrow> leave 0 os1
                 | Inr (Some connection_fd) \<Rightarrow> worker_accept memory connection_fd w os1)"

text \<open>
  Whether the timer runs the machine of a connection; an idle connection is first put into the error
  state.
\<close>

definition timer_check :: "worker \<Rightarrow> connection \<Rightarrow> bool \<times> connection" where
  "timer_check w conn =
     (if state conn = CON_STATE_READ \<and>
         int (unat (max_read_idle_ts (global_config w))) < cur_ts w - active_read_ts conn
      then (True, connection_set_state conn CON_STATE_ERROR)
      else if state conn = CON_STATE_WRITE \<and> active_write_ts conn \<noteq> 0 \<and>
         int (unat (max_write_idle_ts (global_config w))) < cur_ts w - active_write_ts conn
      then (True, connection_set_state conn CON_STATE_ERROR)
      else if state conn = CON_STATE_CLOSE \<and> MINIHTTPD_CLOSE_TIMEOUT < cur_ts w - close_timeout_ts conn
      then (True, conn)
      else (False, conn))"

definition timer_step :: "nat \<Rightarrow> worker \<Rightarrow> os_env \<Rightarrow> fault + (worker \<times> os_env)" where
  "timer_step i w os =
     (if i < length (conn_slots w)
      then (case conn_slots w ! i of
              None \<Rightarrow> Inr (w, os)
            | Some a \<Rightarrow>
                (case conn_heap w a of
                   None \<Rightarrow> Inl UseAfterFree
                 | Some conn \<Rightarrow>
                     let (max_idle_time_reached, conn1) = timer_check w conn;
                         w1 = w\<lparr>conn_heap := (conn_heap w)(a \<mapsto> conn1)\<rparr>
                     in if max_idle_time_reached then connection_state_machine w1 a os else Inr (w1, os)))
      else Inl OutOfBounds)"

fun timer_loop :: "nat list \<Rightarrow> worker \<Rightarrow> os_env \<Rightarrow> fault + (worker \<times> os_env)" where
  "timer_loop [] w os = Inr (w, os)"
| "timer_loop (i # is) w os = andthen (timer_step i w os) (\<lambda>(w1, os1). timer_loop is w1 os1)"

text \<open>
  The result is \<open>None\<close> where the function ends without a \<open>return\<close>.
\<close>

definition worker_timer_expire_handler ::
  "int \<Rightarrow> u32 \<Rightarrow> worker \<Rightarrow> os_env \<Rightarrow> fault + (int option \<times> worker \<times> os_env)" where
  "worker_timer_expire_handler fd es w os =
     (if es AND EPOLLIN = 0 then Inr (Some (-1), w, os)
      else let (expired, os1) = sys_read os 8;
               (localtime, os2) = sys_time os1
           in if localtime = cur_ts w then Inr (Some 0, w, os2)
              else andthen (timer_loop [0..<unat (conn_max_size w)] (w\<lparr>cur_ts := localtime\<rparr>) os2) (\<lambda>(w1, os3).
                   Inr (None, w1, os3)))"

section \<open>The C code: the event loop\<close>

text \<open>
  One event, by the handler and the context the event table has for the descriptor. A handler is only
  ever registered with a context of its own kind; the last case stands for a misread pointer.
\<close>

definition worker_event :: "connection \<Rightarrow> int \<Rightarrow> u32 \<Rightarrow> worker \<Rightarrow> os_env \<Rightarrow> fault + (worker \<times> os_env)" where
  "worker_event memory fd es w os =
     andthen (fdevents_get_handle (conn_ev w) fd) (\<lambda>h.
     andthen (fdevents_get_context (conn_ev w) fd) (\<lambda>ctx.
     case (h, ctx) of
       (Connection_event_handle, Ctx_connection a) \<Rightarrow> connection_event_handle w a es os
     | (Unix_domain_socket_handle, Ctx_worker) \<Rightarrow>
         andthen (unix_domain_socket_handle memory fd es w os) (\<lambda>(r, w1, os1). Inr (w1, os1))
     | (Worker_timer_expire_handler, Ctx_worker) \<Rightarrow>
         andthen (worker_timer_expire_handler fd es w os) (\<lambda>(r, w1, os1). Inr (w1, os1))
     | _ \<Rightarrow> Inl OutOfBounds))"

text \<open>A batch of events, each with the memory a new connection would get.\<close>

type_synonym event = "connection \<times> int \<times> u32"

fun worker_batch :: "event list \<Rightarrow> worker \<Rightarrow> os_env \<Rightarrow> fault + (worker \<times> os_env)" where
  "worker_batch [] w os = Inr (w, os)"
| "worker_batch ((memory, fd, es) # evs) w os =
     andthen (worker_event memory fd es w os) (\<lambda>(w1, os1). worker_batch evs w1 os1)"

text \<open>
  The main loop. Each round is given the flag \<open>server_shutdown\<close> as the loop condition reads it and what
  \<open>epoll_wait\<close> reports, nothing when it fails. The boolean of the result says that the loop has ended.
\<close>

fun worker_loop :: "(bool \<times> event list) list \<Rightarrow> worker \<Rightarrow> os_env \<Rightarrow> fault + (bool \<times> worker \<times> os_env)" where
  "worker_loop [] w os = Inr (False, w, os)"
| "worker_loop ((server_shutdown, evs) # rounds) w os =
     (if \<not> server_shutdown \<or> 0 < cur_connection_number w
      then andthen (worker_batch evs w os) (\<lambda>(w1, os1). worker_loop rounds w1 os1)
      else Inr (True, w, os))"

text \<open>
  What the worker does before its loop: it sets up the event table and the table of connections, which get half of
  \<open>limit\<close> (\<open>RLIMIT_NOFILE\<close>), and registers the unix socket; it opens its log (see \<open>Process\<close>); it registers the timer.
\<close>

definition worker_setup :: "(int \<Rightarrow> int) \<Rightarrow> u32 \<Rightarrow> int \<Rightarrow> server_config \<Rightarrow> nat \<Rightarrow> fault + worker" where
  "worker_setup epoll_create process_id unix_fd config limit =
     (case fdevent_initialize epoll_create (int limit) of
        None \<Rightarrow> Inl AssertFailed
      | Some ev0 \<Rightarrow>
          let w0 = worker_connection_initialize
                     \<lparr>worker_id = process_id, unix_domain_socekt_fd = unix_fd, conn_slots = [], conn_heap = (\<lambda>a. None),
                      conn_brk = 0, conn_max_size = 0, cur_connection_number = 0, conn_ev = ev0,
                      global_config = config, cur_ts = 0\<rparr> (of_nat (limit div 2))
          in andthen (fdevents_register_fd (conn_ev w0) unix_fd Unix_domain_socket_handle Ctx_worker) (\<lambda>ev1.
             andthen (fdevents_set_events ev1 unix_fd EPOLLIN) (\<lambda>ev2.
             Inr (w0\<lparr>conn_ev := ev2\<rparr>))))"

definition worker_arm :: "int \<Rightarrow> worker \<Rightarrow> os_env \<Rightarrow> fault + (worker \<times> os_env)" where
  "worker_arm timer_fd w os =
     (let (now, os1) = sys_time os
      in andthen (fdevents_register_fd (conn_ev w) timer_fd Worker_timer_expire_handler Ctx_worker) (\<lambda>ev1.
         andthen (fdevents_set_events ev1 timer_fd EPOLLIN) (\<lambda>ev2.
         Inr (w\<lparr>cur_ts := now, conn_ev := ev2\<rparr>, os1))))"

definition worker_start ::
  "(int \<Rightarrow> int) \<Rightarrow> u32 \<Rightarrow> int \<Rightarrow> server_config \<Rightarrow> nat \<Rightarrow> int \<Rightarrow> os_env \<Rightarrow> fault + (worker \<times> os_env)" where
  "worker_start epoll_create process_id unix_fd config limit timer_fd os =
     andthen (worker_setup epoll_create process_id unix_fd config limit) (\<lambda>w. worker_arm timer_fd w os)"

lemmas worker_start_defs = worker_start_def worker_setup_def worker_arm_def

section \<open>The invariant\<close>

text \<open>What the event table has for a descriptor: its handler and context, events aside.\<close>

definition binding :: "handler_context fdevents \<Rightarrow> int \<Rightarrow> (event_handle \<times> handler_context) option" where
  "binding t f = map_option (\<lambda>n. (handler n, handler_ctx n)) (node_of t f)"

lemma synced_wf: "synced t \<Longrightarrow> ev_wf t"
  by (simp add: synced_def)

lemma register_binding:
  assumes "synced t" and "fdevents_register_fd t f h c = Inr t'"
  shows "synced t' \<and> binding t f = None \<and> binding t' = (binding t)(f \<mapsto> (h, c))"
proof -
  have ok: "0 \<le> f" "f < max_fd t" "node_of t f = None"
    using assms(2) by (auto simp: fdevents_register_fd_def node_of_def split: if_splits)
  have nd: "node_of t' = (node_of t)(f \<mapsto> \<lparr>node_fd = f, handler_ctx = c, handler = h, events = 0\<rparr>)"
    using register_ok [OF synced_wf [OF assms(1)] ok, of h c] unfolding assms(2) returns_Inr by blast
  have "binding t' = (binding t)(f \<mapsto> (h, c))" by (rule ext) (simp add: binding_def nd)
  with synced_register [OF assms] ok(3) show ?thesis by (simp add: binding_def)
qed

lemma node_of_result:
  assumes "ev_wf t" and "andthen (get_node t f) g = Inr t'"
  obtains n where "node_of t f = Some n"
  using assms get_node_iff [OF assms(1)] by (auto simp: andthen_Inr_iff)

lemma set_events_binding:
  assumes "synced t" and "fdevents_set_events t f es = Inr t'" and "es \<noteq> 0"
  shows "synced t' \<and> binding t' = binding t"
proof -
  obtain n where n: "node_of t f = Some n"
    by (rule node_of_result [OF synced_wf [OF assms(1)] assms(2) [unfolded fdevents_set_events_def]])
  have nd: "node_of t' = (node_of t)(f \<mapsto> n\<lparr>events := es\<rparr>)"
    using set_events_ok [OF synced_wf [OF assms(1)] n, of es] unfolding assms(2) returns_Inr by blast
  have "binding t' = binding t" by (rule ext) (simp add: binding_def nd n)
  with synced_set [OF assms] show ?thesis by blast
qed

lemma unset_event_binding:
  assumes "synced t" and "fdevents_unset_event t f = Inr t'"
  shows "synced t' \<and> binding t' = binding t"
proof -
  obtain n where n: "node_of t f = Some n"
    by (rule node_of_result [OF synced_wf [OF assms(1)] assms(2) [unfolded fdevents_unset_event_def]])
  have nd: "node_of t' = (node_of t)(f \<mapsto> n\<lparr>events := 0\<rparr>)"
    using unset_event_ok [OF synced_wf [OF assms(1)] n] unfolding assms(2) returns_Inr by blast
  have "binding t' = binding t" by (rule ext) (simp add: binding_def nd n)
  with synced_unset [OF assms] show ?thesis by blast
qed

lemma close_binding:
  assumes "synced t" and "fdevents_unset_event t f = Inr t1" and "fdevents_unregister_fd t1 f = Inr t2"
  shows "synced t2 \<and> binding t2 = (binding t)(f := None)"
proof -
  have one: "synced t1" "binding t1 = binding t" "\<forall>n. node_of t1 f = Some n \<longrightarrow> events n = 0"
    using unset_event_binding [OF assms(1,2)] synced_unset [OF assms(1,2)] by blast+
  obtain n where n: "node_of t1 f = Some n"
    by (rule node_of_result [OF synced_wf [OF one(1)] assms(3) [unfolded fdevents_unregister_fd_def]])
  have nd: "node_of t2 = (node_of t1)(f := None)"
    using unregister_ok [OF synced_wf [OF one(1)] n] unfolding assms(3) returns_Inr by blast
  have "binding t2 = (binding t1)(f := None)" by (rule ext) (simp add: binding_def nd)
  with one(2) synced_unregister [OF one(1) assms(3) one(3)] show ?thesis by simp
qed

text \<open>
  The table and the heap refer to each other, a live connection is registered under its descriptor, a
  handler of connections always has a live one, and the count is that of the slots in use.
\<close>

definition in_use :: "addr option list \<Rightarrow> nat set" where
  "in_use xs = {i. i < length xs \<and> xs ! i \<noteq> None}"

definition slots_ok :: "worker \<Rightarrow> bool" where
  "slots_ok w \<longleftrightarrow> length (conn_slots w) = unat (conn_max_size w) \<and>
     (\<forall>i a. i < length (conn_slots w) \<longrightarrow> conn_slots w ! i = Some a \<longrightarrow>
        (\<exists>c. conn_heap w a = Some c \<and> unat (connection_index c) = i))"

definition heap_ok :: "worker \<Rightarrow> bool" where
  "heap_ok w \<longleftrightarrow> (\<forall>a c. conn_heap w a = Some c \<longrightarrow> a < conn_brk w \<and> state c \<noteq> CON_STATE_CONNECT \<and>
     unat (connection_index c) < length (conn_slots w) \<and> conn_slots w ! unat (connection_index c) = Some a \<and>
     binding (conn_ev w) (conn_socket_fd c) = Some (Connection_event_handle, Ctx_connection a))"

definition bindings_ok :: "worker \<Rightarrow> bool" where
  "bindings_ok w \<longleftrightarrow> (\<forall>f h x. binding (conn_ev w) f = Some (h, x) \<longrightarrow>
     (case x of
        Ctx_connection a \<Rightarrow> h = Connection_event_handle \<and> (\<exists>c. conn_heap w a = Some c \<and> conn_socket_fd c = f)
      | Ctx_worker \<Rightarrow> h \<noteq> Connection_event_handle))"

definition worker_wf :: "worker \<Rightarrow> bool" where
  "worker_wf w \<longleftrightarrow> synced (conn_ev w) \<and> slots_ok w \<and> heap_ok w \<and> bindings_ok w \<and>
     unat (cur_connection_number w) = card (in_use (conn_slots w))"

lemma worker_wfD:
  assumes "worker_wf w"
  shows "synced (conn_ev w)" "slots_ok w" "heap_ok w" "bindings_ok w"
    "unat (cur_connection_number w) = card (in_use (conn_slots w))"
  using assms by (simp_all add: worker_wf_def)

lemma heap_okD:
  assumes "heap_ok w" and "conn_heap w a = Some c"
  shows "a < conn_brk w" "state c \<noteq> CON_STATE_CONNECT" "unat (connection_index c) < length (conn_slots w)"
    "conn_slots w ! unat (connection_index c) = Some a"
    "binding (conn_ev w) (conn_socket_fd c) = Some (Connection_event_handle, Ctx_connection a)"
  using assms by (auto simp: heap_ok_def)

lemma finite_in_use [simp]: "finite (in_use xs)"
  by (simp add: in_use_def)

lemma in_use_clear [simp]: "in_use (xs[i := None]) = in_use xs - {i}"
  by (auto simp: in_use_def nth_update split: if_splits)

lemma in_use_set [simp]: "i < length xs \<Longrightarrow> in_use (xs[i := Some a]) = insert i (in_use xs)"
  by (auto simp: in_use_def nth_update)

text \<open>Updating a connection in place.\<close>

lemma worker_wf_update:
  assumes "worker_wf w" and "conn_heap w a = Some c" and "conn_ids c1 = conn_ids c" and "state c1 \<noteq> CON_STATE_CONNECT"
    and "synced t" and "binding t = binding (conn_ev w)"
  shows "worker_wf (w\<lparr>conn_heap := (conn_heap w)(a \<mapsto> c1), conn_ev := t\<rparr>)"
proof -
  note wf = worker_wfD [OF assms(1)]
  have ids: "conn_socket_fd c1 = conn_socket_fd c" "connection_index c1 = connection_index c"
    using assms(3) by (simp_all add: conn_ids_def)
  let ?w = "w\<lparr>conn_heap := (conn_heap w)(a \<mapsto> c1), conn_ev := t\<rparr>"
  have "slots_ok ?w" using wf(2) assms(2) ids by (fastforce simp: slots_ok_def)
  moreover have "heap_ok ?w" using wf(3) assms ids by (auto simp: heap_ok_def)
  moreover have "bindings_ok ?w" unfolding bindings_ok_def
  proof (intro allI impI)
    fix f h x assume b: "binding (conn_ev ?w) f = Some (h, x)"
    then have "case x of Ctx_connection a \<Rightarrow> h = Connection_event_handle \<and> (\<exists>c. conn_heap w a = Some c \<and> conn_socket_fd c = f)
      | Ctx_worker \<Rightarrow> h \<noteq> Connection_event_handle"
      using wf(4) assms(6) by (simp add: bindings_ok_def)
    then show "case x of Ctx_connection a \<Rightarrow> h = Connection_event_handle \<and> (\<exists>c. conn_heap ?w a = Some c \<and> conn_socket_fd c = f)
      | Ctx_worker \<Rightarrow> h \<noteq> Connection_event_handle"
      using assms(2) ids by (auto split: handler_context.splits)
  qed
  ultimately show ?thesis using wf(5) assms(5) by (simp add: worker_wf_def)
qed

text \<open>Removing a closed connection.\<close>

lemma worker_wf_remove:
  assumes "worker_wf w" and "conn_heap w a = Some c" and "synced t"
    and "binding t = (binding (conn_ev w))(conn_socket_fd c := None)"
  shows "worker_wf (w\<lparr>conn_ev := t, conn_slots := (conn_slots w)[unat (connection_index c) := None],
      cur_connection_number := cur_connection_number w - 1, conn_heap := (conn_heap w)(a := None)\<rparr>)"
    (is "worker_wf ?w")
proof -
  note wf = worker_wfD [OF assms(1)]
  note c = heap_okD [OF wf(3) assms(2)]
  let ?i = "unat (connection_index c)"
  have "slots_ok ?w" unfolding slots_ok_def
  proof (intro conjI allI impI)
    show "length (conn_slots ?w) = unat (conn_max_size ?w)" using wf(2) by (simp add: slots_ok_def)
  next
    fix i b assume i: "i < length (conn_slots ?w)" and b: "conn_slots ?w ! i = Some b"
    then have b': "i \<noteq> ?i" "i < length (conn_slots w)" "conn_slots w ! i = Some b" by (auto simp: nth_update split: if_splits)
    then obtain d where "conn_heap w b = Some d" "unat (connection_index d) = i"
      using wf(2) unfolding slots_ok_def by blast
    moreover from this b' have "b \<noteq> a" using assms(2) by auto
    ultimately show "\<exists>d. conn_heap ?w b = Some d \<and> unat (connection_index d) = i" by simp
  qed
  moreover have "heap_ok ?w" unfolding heap_ok_def
  proof (intro allI impI)
    fix b d assume "conn_heap ?w b = Some d"
    then have b: "b \<noteq> a" "conn_heap w b = Some d" by (auto split: if_splits)
    note d = heap_okD [OF wf(3) b(2)]
    have "unat (connection_index d) \<noteq> ?i" using d(4) c(4) b(1) by auto
    moreover have "conn_socket_fd d \<noteq> conn_socket_fd c" using d(5) c(5) b(1) by auto
    ultimately show "b < conn_brk ?w \<and> state d \<noteq> CON_STATE_CONNECT \<and> unat (connection_index d) < length (conn_slots ?w) \<and>
        conn_slots ?w ! unat (connection_index d) = Some b \<and>
        binding (conn_ev ?w) (conn_socket_fd d) = Some (Connection_event_handle, Ctx_connection b)"
      using d assms(4) by simp
  qed
  moreover have "bindings_ok ?w" unfolding bindings_ok_def
  proof (intro allI impI)
    fix f h x assume "binding (conn_ev ?w) f = Some (h, x)"
    then have f: "f \<noteq> conn_socket_fd c" "binding (conn_ev w) f = Some (h, x)" using assms(4) by (auto split: if_splits)
    then have "case x of Ctx_connection b \<Rightarrow> h = Connection_event_handle \<and> (\<exists>d. conn_heap w b = Some d \<and> conn_socket_fd d = f)
      | Ctx_worker \<Rightarrow> h \<noteq> Connection_event_handle"
      using wf(4) by (simp add: bindings_ok_def)
    then show "case x of Ctx_connection b \<Rightarrow> h = Connection_event_handle \<and> (\<exists>d. conn_heap ?w b = Some d \<and> conn_socket_fd d = f)
      | Ctx_worker \<Rightarrow> h \<noteq> Connection_event_handle"
      using assms(2) f(1) by (auto split: handler_context.splits)
  qed
  moreover have "unat (cur_connection_number ?w) = card (in_use (conn_slots ?w))"
  proof -
    have i: "?i \<in> in_use (conn_slots w)" using c(3,4) by (simp add: in_use_def)
    then have "card (in_use (conn_slots w)) = Suc (card (in_use (conn_slots w) - {?i}))"
      by (metis card_Suc_Diff1 finite_in_use)
    with wf(5) show ?thesis by (simp add: unat_pred_u32)
  qed
  ultimately show ?thesis using assms(3) by (simp add: worker_wf_def)
qed

section \<open>Every handler preserves the invariant\<close>

text \<open>
  What stays as it is during the life of a worker; the descriptors of its own, the unix socket and the timer,
  keep their handlers.
\<close>

definition own_handler :: "worker \<Rightarrow> int \<Rightarrow> event_handle \<Rightarrow> bool" where
  "own_handler w f h \<longleftrightarrow> binding (conn_ev w) f = Some (h, Ctx_worker)"

definition same_worker :: "worker \<Rightarrow> worker \<Rightarrow> bool" where
  "same_worker w w1 \<longleftrightarrow> conn_max_size w1 = conn_max_size w \<and> global_config w1 = global_config w \<and>
     length (conn_slots w1) = length (conn_slots w) \<and> worker_id w1 = worker_id w \<and>
     unix_domain_socekt_fd w1 = unix_domain_socekt_fd w \<and> own_handler w1 = own_handler w"

lemma own_handler_conn:
  assumes "binding (conn_ev w1) = (binding (conn_ev w))(f := x)" and "\<forall>h. binding (conn_ev w) f \<noteq> Some (h, Ctx_worker)"
    and "\<forall>h. x \<noteq> Some (h, Ctx_worker)"
  shows "own_handler w1 = own_handler w"
  using assms by (auto simp: own_handler_def fun_eq_iff)

lemma same_worker_refl [simp]: "same_worker w w"
  by (simp add: same_worker_def)

lemma same_worker_trans: "same_worker w w1 \<Longrightarrow> same_worker w1 w2 \<Longrightarrow> same_worker w w2"
  by (simp add: same_worker_def)

definition keeps :: "worker \<Rightarrow> worker \<Rightarrow> bool" where
  "keeps w w1 \<longleftrightarrow> worker_wf w1 \<and> same_worker w w1"

lemma keeps_refl: "worker_wf w \<Longrightarrow> keeps w w"
  by (simp add: keeps_def)

lemma keeps_wf: "keeps w w1 \<Longrightarrow> worker_wf w1"
  by (simp add: keeps_def)

lemma keeps_trans: "keeps w w1 \<Longrightarrow> keeps w1 w2 \<Longrightarrow> keeps w w2"
  unfolding keeps_def using same_worker_trans by blast

lemma keeps_update:
  assumes "worker_wf w" and "conn_heap w a = Some c" and "conn_ids c1 = conn_ids c" and "state c1 \<noteq> CON_STATE_CONNECT"
  shows "keeps w (w\<lparr>conn_heap := (conn_heap w)(a \<mapsto> c1)\<rparr>)"
proof -
  have "worker_wf (w\<lparr>conn_heap := (conn_heap w)(a \<mapsto> c1), conn_ev := conn_ev w\<rparr>)"
    by (rule worker_wf_update [OF assms worker_wfD(1) [OF assms(1)] refl])
  then show ?thesis by (simp add: keeps_def same_worker_def own_handler_def fun_eq_iff)
qed

lemma keeps_events:
  assumes "worker_wf w" and "synced t" and "binding t = binding (conn_ev w)"
  shows "keeps w (w\<lparr>conn_ev := t\<rparr>)"
proof -
  let ?w = "w\<lparr>conn_ev := t\<rparr>"
  have "slots_ok ?w = slots_ok w" by (simp add: slots_ok_def)
  moreover have "heap_ok ?w = heap_ok w" by (simp add: heap_ok_def assms(3))
  moreover have "bindings_ok ?w = bindings_ok w"
    by (simp add: bindings_ok_def assms(3) cong: handler_context.case_cong)
  ultimately show ?thesis using assms by (simp add: keeps_def worker_wf_def same_worker_def own_handler_def fun_eq_iff)
qed

lemma finish_open:
  assumes "worker_wf w" and "conn_heap w a = Some c" and "conn_ids c1 = conn_ids c" and "state c1 \<noteq> CON_STATE_CONNECT"
  shows "ensures (connection_machine_finish w a c1) (keeps w)"
proof -
  let ?w = "w\<lparr>conn_heap := (conn_heap w)(a \<mapsto> c1)\<rparr>" and ?fd = "conn_socket_fd c1"
  have k: "keeps w ?w" by (rule keeps_update [OF assms])
  then have wf: "worker_wf ?w" by (simp add: keeps_def)
  have later: "keeps w (?w\<lparr>conn_ev := t\<rparr>)" if "synced t \<and> binding t = binding (conn_ev ?w)" for t
    by (rule keeps_trans [OF k keeps_events [OF wf]]) (use that in simp_all)
  have set: "ensures (andthen (fdevents_set_events (conn_ev ?w) ?fd es) (\<lambda>t. Inr (?w\<lparr>conn_ev := t\<rparr>))) (keeps w)"
    if "es \<noteq> 0" for es
    unfolding ensures_simps
    by (rule ensuresI, rule later) (rule set_events_binding [OF worker_wfD(1) [OF wf] _ that])
  have unset: "ensures (andthen (fdevents_unset_event (conn_ev ?w) ?fd) (\<lambda>t. Inr (?w\<lparr>conn_ev := t\<rparr>))) (keeps w)"
    unfolding ensures_simps by (rule ensuresI, rule later) (rule unset_event_binding [OF worker_wfD(1) [OF wf]])
  have "ensures (andthen (chunkqueue_length (writequeue c1)) (\<lambda>len.
      if len \<noteq> 0 \<and> \<not> writeable c1
      then andthen (fdevents_set_events (conn_ev ?w) ?fd EPOLLOUT) (\<lambda>t. Inr (?w\<lparr>conn_ev := t\<rparr>))
      else andthen (fdevents_unset_event (conn_ev ?w) ?fd) (\<lambda>t. Inr (?w\<lparr>conn_ev := t\<rparr>)))) (keeps w)"
    unfolding ensures_simps(3) [of "chunkqueue_length (writequeue c1)"]
    by (rule ensures_any) (use set [of EPOLLOUT] unset in \<open>simp del: ensures_simps(3)\<close>)
  with set [of EPOLLIN] k show ?thesis
    unfolding connection_machine_finish_def if_not_P [OF assms(4)] Let_def by (simp del: ensures_simps(3))
qed

lemma finish_closed:
  assumes "worker_wf w" and "conn_heap w a = Some c" and "connection_index c1 = connection_index c"
    and "state c1 = CON_STATE_CONNECT" and "close_effect w (conn_socket_fd c) w1"
  shows "ensures (connection_machine_finish w1 a c1) (keeps w)"
proof -
  from assms(5) obtain t1 t2 where t: "fdevents_unset_event (conn_ev w) (conn_socket_fd c) = Inr t1"
      "fdevents_unregister_fd t1 (conn_socket_fd c) = Inr t2" and w1: "w1 = w\<lparr>conn_ev := t2\<rparr>"
    by (auto simp: close_effect_def)
  note wf = worker_wfD [OF assms(1)]
  let ?i = "unat (connection_index c)"
  let ?w = "w\<lparr>conn_ev := t2, conn_slots := (conn_slots w)[?i := None],
      cur_connection_number := cur_connection_number w - 1, conn_heap := (conn_heap w)(a := None)\<rparr>"
  have "synced t2 \<and> binding t2 = (binding (conn_ev w))(conn_socket_fd c := None)" by (rule close_binding [OF wf(1) t])
  note b = this
  then have "worker_wf ?w" by (intro worker_wf_remove [OF assms(1,2)]) simp_all
  moreover have "own_handler ?w = own_handler w"
    by (rule own_handler_conn [where f = "conn_socket_fd c" and x = None]) (use b heap_okD(5) [OF wf(3) assms(2)] in simp_all)
  ultimately have k: "keeps w ?w" by (simp add: keeps_def same_worker_def)
  have "connection_free (w1\<lparr>conn_slots := (conn_slots w1)[?i := None],
      cur_connection_number := cur_connection_number w1 - 1\<rparr>) a c1 = Inr w2 \<Longrightarrow> w2 = ?w" for w2
    by (auto simp: connection_free_def andthen_Inr_iff w1)
  then show ?thesis
    using k unfolding connection_machine_finish_def if_P [OF assms(4)] assms(3) by (auto simp: ensures_def)
qed

lemma connection_state_machine_keeps:
  assumes "worker_wf w"
  shows "ensures (connection_state_machine w a os) (\<lambda>(w1, os1). keeps w w1)"
proof (cases "conn_heap w a")
  case (Some c)
  have live: "state c \<noteq> CON_STATE_CONNECT" using heap_okD(2) [OF worker_wfD(3) [OF assms] Some] .
  have "ensures (connection_machine_finish w1 a c1) (keeps w)" if "moved w c w1 c1" for w1 c1
  proof (cases "state c1 = CON_STATE_CONNECT")
    case True
    with that live have "connection_index c1 = connection_index c" "close_effect w (conn_socket_fd c) w1"
      by (auto simp: moved_def)
    with finish_closed [OF assms Some _ True] show ?thesis by blast
  next
    case False
    with that live have "w1 = w" "conn_ids c1 = conn_ids c" by (auto simp: moved_def)
    with finish_open [OF assms Some _ False] show ?thesis by blast
  qed
  then have fin: "ensures (andthen (connection_machine_finish w1 a c1) (\<lambda>w2. Inr (w2, os1))) (\<lambda>(w2, os2). keeps w w2)"
    if "moved w c w1 c1" for w1 c1 and os1 :: os_env
    using that by simp
  show ?thesis unfolding connection_state_machine_def Some option.case
    by (simp only: ensures_simps(3), rule ensures_mono [OF connection_machine_loop_moved]) (use fin in auto)
qed (simp add: connection_state_machine_def)

lemma note_events_ids:
  assumes "connection_note_events es conn os = (conn1, os1)" and "state conn \<noteq> CON_STATE_CONNECT"
  shows "conn_ids conn1 = conn_ids conn \<and> state conn1 \<noteq> CON_STATE_CONNECT"
  using assms by (auto simp: connection_note_events_def Let_def split: if_splits prod.splits)

lemma connection_event_handle_keeps:
  assumes "worker_wf w"
  shows "ensures (connection_event_handle w a es os) (\<lambda>(w1, os1). keeps w w1)"
proof (cases "conn_heap w a")
  case (Some c)
  obtain c1 os1 where n: "connection_note_events es c os = (c1, os1)" by (cases "connection_note_events es c os")
  have "state c \<noteq> CON_STATE_CONNECT" using heap_okD(2) [OF worker_wfD(3) [OF assms] Some] .
  from note_events_ids [OF n this] have k: "keeps w (w\<lparr>conn_heap := (conn_heap w)(a \<mapsto> c1)\<rparr>)"
    by (intro keeps_update [OF assms Some]) simp_all
  then show ?thesis unfolding connection_event_handle_def Some option.case n Let_def prod.case
    by (intro ensures_mono [OF connection_state_machine_keeps]) (auto simp: keeps_def intro: same_worker_trans)
qed (simp add: connection_event_handle_def)

lemma find_slot_free:
  "find_slot w i = Inr j \<Longrightarrow> j < unat (conn_max_size w) \<Longrightarrow> j < length (conn_slots w) \<and> conn_slots w ! j = None"
proof (induction w i rule: find_slot.induct)
  case (1 w i)
  note r = 1(2) [unfolded find_slot.simps [of w i]]
  show ?case
  proof (cases "i < length (conn_slots w) \<and> conn_slots w ! i \<noteq> None")
    case True
    with r 1(3) show ?thesis by (intro 1(1)) (simp_all split: if_splits)
  next
    case False
    with r 1(3) show ?thesis by (simp split: if_splits)
  qed
qed

text \<open>
  A connection enters the table, the heap and the event table together: what this does to each part of the invariant, and to
  the count.
\<close>

lemma slots_ok_insert:
  assumes "slots_ok w" and fresh: "conn_heap w a = None" and i: "i < length (conn_slots w)" "unat (connection_index c) = i"
    and w': "conn_slots w' = (conn_slots w)[i := Some a]" "conn_heap w' = (conn_heap w)(a \<mapsto> c)" "conn_max_size w' = conn_max_size w"
  shows "slots_ok w'"
  unfolding slots_ok_def
proof (intro conjI allI impI)
  show "length (conn_slots w') = unat (conn_max_size w')" using assms(1) w' by (simp add: slots_ok_def)
next
  fix j b assume j: "j < length (conn_slots w')" "conn_slots w' ! j = Some b"
  show "\<exists>d. conn_heap w' b = Some d \<and> unat (connection_index d) = j"
  proof (cases "j = i")
    case True
    with j i w' show ?thesis by auto
  next
    case False
    with j w' have "j < length (conn_slots w)" "conn_slots w ! j = Some b" by (simp_all add: nth_update)
    then obtain d where "conn_heap w b = Some d" "unat (connection_index d) = j"
      using assms(1) unfolding slots_ok_def by blast
    moreover from this fresh have "b \<noteq> a" by auto
    ultimately show ?thesis using w' by simp
  qed
qed

lemma heap_ok_insert:
  assumes "heap_ok w" and i: "i < length (conn_slots w)" "conn_slots w ! i = None"
    and c: "unat (connection_index c) = i" "conn_socket_fd c = f" "state c \<noteq> CON_STATE_CONNECT"
    and free: "binding (conn_ev w) f = None"
    and w': "conn_slots w' = (conn_slots w)[i := Some (conn_brk w)]" "conn_heap w' = (conn_heap w)(conn_brk w \<mapsto> c)"
      "conn_brk w' = Suc (conn_brk w)"
      "binding (conn_ev w') = (binding (conn_ev w))(f \<mapsto> (Connection_event_handle, Ctx_connection (conn_brk w)))"
  shows "heap_ok w'"
  unfolding heap_ok_def
proof (intro allI impI)
  fix b d assume b: "conn_heap w' b = Some d"
  show "b < conn_brk w' \<and> state d \<noteq> CON_STATE_CONNECT \<and> unat (connection_index d) < length (conn_slots w') \<and>
      conn_slots w' ! unat (connection_index d) = Some b \<and>
      binding (conn_ev w') (conn_socket_fd d) = Some (Connection_event_handle, Ctx_connection b)"
  proof (cases "b = conn_brk w")
    case True
    with b i c w' show ?thesis by auto
  next
    case False
    with b w' have "conn_heap w b = Some d" by simp
    note d = heap_okD [OF assms(1) this]
    have "unat (connection_index d) \<noteq> i" "conn_socket_fd d \<noteq> f" using d(4,5) i(2) free by auto
    with d w' show ?thesis by (simp add: less_SucI)
  qed
qed

lemma bindings_ok_insert:
  assumes "bindings_ok w" and fresh: "conn_heap w a = None" and c: "conn_socket_fd c = f"
    and w': "conn_heap w' = (conn_heap w)(a \<mapsto> c)"
      "binding (conn_ev w') = (binding (conn_ev w))(f \<mapsto> (Connection_event_handle, Ctx_connection a))"
  shows "bindings_ok w'"
  unfolding bindings_ok_def
proof (intro allI impI)
  fix g h x assume g: "binding (conn_ev w') g = Some (h, x)"
  show "case x of Ctx_connection b \<Rightarrow> h = Connection_event_handle \<and> (\<exists>d. conn_heap w' b = Some d \<and> conn_socket_fd d = g)
    | Ctx_worker \<Rightarrow> h \<noteq> Connection_event_handle"
  proof (cases "g = f")
    case True
    with g w' c show ?thesis by auto
  next
    case False
    with g w'(2) have "case x of Ctx_connection b \<Rightarrow> h = Connection_event_handle \<and> (\<exists>d. conn_heap w b = Some d \<and> conn_socket_fd d = g)
        | Ctx_worker \<Rightarrow> h \<noteq> Connection_event_handle"
      using assms(1) by (simp add: bindings_ok_def)
    then show ?thesis using fresh w'(1) by (auto split: handler_context.splits)
  qed
qed

lemma count_insert:
  assumes i: "i < length slots" "slots ! i = None" and len: "length slots < 2 ^ 32" and n: "unat (n :: u32) = card (in_use slots)"
  shows "unat (n + 1) = card (in_use (slots[i := Some a]))"
proof -
  have ni: "i \<notin> in_use slots" using i(2) by (simp add: in_use_def)
  have "insert i (in_use slots) \<subseteq> {..<length slots}" using i(1) by (auto simp: in_use_def)
  then have "card (insert i (in_use slots)) \<le> card {..<length slots}" by (rule card_mono [OF finite_lessThan])
  with ni have "Suc (card (in_use slots)) \<le> length slots" by simp
  with n len have "unat (n + 1) = Suc (card (in_use slots))" by (subst unat_add_u32) simp_all
  with ni i(1) show ?thesis by simp
qed

lemma worker_wf_insert:
  assumes "worker_wf w" and i: "i < length (conn_slots w)" "conn_slots w ! i = None"
    and c: "unat (connection_index c) = i" "conn_socket_fd c = f" "state c \<noteq> CON_STATE_CONNECT"
    and b: "binding (conn_ev w) f = None" and t: "synced t" "binding t = (binding (conn_ev w))(f \<mapsto> (Connection_event_handle, Ctx_connection (conn_brk w)))"
  shows "worker_wf (w\<lparr>cur_connection_number := cur_connection_number w + 1, conn_slots := (conn_slots w)[i := Some (conn_brk w)],
      conn_brk := Suc (conn_brk w), conn_heap := (conn_heap w)(conn_brk w \<mapsto> c), conn_ev := t\<rparr>)"
    (is "worker_wf ?w")
proof -
  note wf = worker_wfD [OF assms(1)]
  have fresh: "conn_heap w (conn_brk w) = None" using wf(3) by (cases "conn_heap w (conn_brk w)") (auto simp: heap_ok_def)
  have "slots_ok ?w" by (rule slots_ok_insert [OF wf(2) fresh i(1) c(1)]) simp_all
  moreover have "heap_ok ?w" by (rule heap_ok_insert [OF wf(3) i c b]) (simp_all add: t)
  moreover have "bindings_ok ?w" by (rule bindings_ok_insert [OF wf(4) fresh c(2)]) (simp_all add: t)
  moreover have "length (conn_slots w) < 2 ^ 32" using wf(2) unat_u32_lt [of "conn_max_size w"] by (simp add: slots_ok_def)
  ultimately show ?thesis using t(1) count_insert [OF i _ wf(5)] by (simp add: worker_wf_def)
qed

lemma worker_accept_keeps:
  assumes "worker_wf w"
  shows "ensures (worker_accept memory f w os) (\<lambda>(r, w1, os1). keeps w w1)"
proof (rule ensuresI, clarify)
  fix r w' os'
  assume acc: "worker_accept memory f w os = Inr (r, w', os')"
  note wf = worker_wfD [OF assms]
  show "keeps w w'"
  proof (cases "conn_max_size w \<le> cur_connection_number w")
    case True
    with acc keeps_refl [OF assms] show ?thesis by (simp add: worker_accept_def worker_get_new_connection_def)
  next
    case False
    let ?a = "conn_brk w"
    let ?c = "\<lambda>i. ((connection_set_default memory)\<lparr>connection_index := of_nat i\<rparr>)\<lparr>conn_socket_fd := f\<rparr>"
    let ?w = "\<lambda>i t. w\<lparr>cur_connection_number := cur_connection_number w + 1, conn_slots := (conn_slots w)[i := Some ?a],
      conn_brk := Suc ?a, conn_heap := (conn_heap w)(?a \<mapsto> ?c i), conn_ev := t\<rparr>"
    from acc False obtain i t w1 os1 where i: "find_slot w 0 = Inr i" "i < unat (conn_max_size w)"
      and t: "fdevents_register_fd (conn_ev w) f Connection_event_handle (Ctx_connection ?a) = Inr t"
      and run: "connection_state_machine (?w i t) ?a os = Inr (w1, os1)" and w': "w' = w1"
      by (auto simp: worker_accept_def worker_get_new_connection_def andthen_Inr_iff Let_def split: if_splits)
    have slot: "i < length (conn_slots w)" "conn_slots w ! i = None" using find_slot_free [OF i] by simp_all
    have "i < 2 ^ 32" using i(2) unat_u32_lt [of "conn_max_size w"] by simp
    then have "worker_wf (?w i t)"
      using register_binding [OF wf(1) t]
      by (intro worker_wf_insert [OF assms slot, of _ f]) (simp_all add: unat_of_nat_u32 connection_set_default_def)
    moreover have "own_handler (?w i t) = own_handler w"
      by (rule own_handler_conn [where f = f and x = "Some (Connection_event_handle, Ctx_connection ?a)"])
        (use register_binding [OF wf(1) t] in simp_all)
    ultimately have k: "keeps w (?w i t)" by (simp add: keeps_def same_worker_def)
    moreover have "keeps (?w i t) w1"
      using ensuresD [OF connection_state_machine_keeps [OF \<open>worker_wf (?w i t)\<close>] run] by simp
    ultimately show ?thesis unfolding w' by (rule keeps_trans)
  qed
qed

lemma unix_domain_socket_handle_keeps:
  assumes "worker_wf w"
  shows "ensures (unix_domain_socket_handle memory f es w os) (\<lambda>(r, w1, os1). keeps w w1)"
proof -
  have leave: "ensures (andthen (fdevents_unset_event (conn_ev w) f) (\<lambda>t. Inr (n, w\<lparr>conn_ev := t\<rparr>, os1))) (\<lambda>(r, w1, os1). keeps w w1)"
    for n :: int and os1 :: os_env
    unfolding ensures_simps prod.case
    by (rule ensuresI, rule keeps_events [OF assms]) (use unset_event_binding [OF worker_wfD(1) [OF assms]] in blast)+
  show ?thesis
    unfolding unix_domain_socket_handle_def Let_def
    using leave worker_accept_keeps [OF assms] keeps_refl [OF assms]
    by (auto split: prod.split sum.split option.split simp del: ensures_simps(3))
qed

lemma timer_check_ids:
  "timer_check w c = (hit, c1) \<Longrightarrow> state c \<noteq> CON_STATE_CONNECT \<Longrightarrow> conn_ids c1 = conn_ids c \<and> state c1 \<noteq> CON_STATE_CONNECT"
  by (auto simp: timer_check_def split: if_splits)

lemma timer_step_keeps:
  assumes "worker_wf w"
  shows "ensures (timer_step i w os) (\<lambda>(w1, os1). keeps w w1)"
proof -
  have "keeps w w1" if c: "conn_heap w a = Some c" and chk: "timer_check w c = (hit, c1)"
    and r: "(if hit then connection_state_machine (w\<lparr>conn_heap := (conn_heap w)(a \<mapsto> c1)\<rparr>) a os
      else Inr (w\<lparr>conn_heap := (conn_heap w)(a \<mapsto> c1)\<rparr>, os)) = Inr (w1, os1)" for a c c1 hit w1 os1
  proof -
    have "state c \<noteq> CON_STATE_CONNECT" using heap_okD(2) [OF worker_wfD(3) [OF assms] c] .
    from timer_check_ids [OF chk this] have k: "keeps w (w\<lparr>conn_heap := (conn_heap w)(a \<mapsto> c1)\<rparr>)"
      by (intro keeps_update [OF assms c]) simp_all
    show ?thesis
    proof (cases hit)
      case True
      with r ensuresD [OF connection_state_machine_keeps [OF keeps_wf [OF k]]] keeps_trans [OF k] show ?thesis by fastforce
    next
      case False
      with r k show ?thesis by simp
    qed
  qed
  then show ?thesis
    using keeps_refl [OF assms]
    by (auto simp: timer_step_def Let_def intro!: ensuresI split: option.split prod.split)
qed

text \<open>
  A list of things to do, one after another, each keeping a relation to the state before it: the loop over
  the connections in the timer's handler, and the loop over the events of a batch.
\<close>

locale run_keeps =
  fixes step :: "'e \<Rightarrow> 's \<Rightarrow> fault + 's" and run :: "'e list \<Rightarrow> 's \<Rightarrow> fault + 's"
    and inv :: "'s \<Rightarrow> bool" and rel :: "'s \<Rightarrow> 's \<Rightarrow> bool"
  assumes run_Nil: "run [] s = Inr s"
    and run_Cons: "run (e # es) s = andthen (step e s) (run es)"
    and rel_refl: "inv s \<Longrightarrow> rel s s"
    and rel_trans: "rel s t \<Longrightarrow> rel t u \<Longrightarrow> rel s u"
    and rel_inv: "rel s t \<Longrightarrow> inv t"
    and step_rel: "inv s \<Longrightarrow> ensures (step e s) (rel s)"
begin

lemma run_rel: "inv s \<Longrightarrow> ensures (run es s) (rel s)"
proof (induction es arbitrary: s)
  case Nil
  then show ?case by (simp add: run_Nil rel_refl)
next
  case (Cons e es)
  have "ensures (run es t) (rel s)" if "rel s t" for t
    using Cons.IH [OF rel_inv [OF that]] rel_trans [OF that] by (rule ensures_mono)
  then show ?case using ensures_mono [OF step_rel [OF Cons.prems]] by (simp add: run_Cons)
qed

lemma run_inv: "inv s \<Longrightarrow> ensures (run es s) inv"
  by (rule ensures_mono [OF run_rel rel_inv])

lemma run_append: "run (es @ fs) s = andthen (run es s) (run fs)"
proof (induction es arbitrary: s)
  case (Cons e es)
  then show ?case by (cases "step e s") (simp_all add: run_Cons)
qed (simp add: run_Nil)

end

text \<open>The state of a worker, with the environment it runs in.\<close>

abbreviation wf_state :: "worker \<times> os_env \<Rightarrow> bool" where
  "wf_state s \<equiv> worker_wf (fst s)"

abbreviation keeps_state :: "worker \<times> os_env \<Rightarrow> worker \<times> os_env \<Rightarrow> bool" where
  "keeps_state s t \<equiv> keeps (fst s) (fst t)"

lemma keeps_pair: "(\<lambda>(w1, os1). keeps w w1) = (\<lambda>s. keeps w (fst s))"
  by auto

interpretation timer: run_keeps "\<lambda>i (w, os). timer_step i w os" "\<lambda>is (w, os). timer_loop is w os" wf_state keeps_state
proof unfold_locales
  fix s :: "worker \<times> os_env" and e
  assume "wf_state s"
  then show "ensures (case s of (w, os) \<Rightarrow> timer_step e w os) (keeps_state s)"
    using timer_step_keeps [of "fst s" e "snd s"] by (simp add: keeps_pair case_prod_beta')
qed (auto simp: keeps_refl keeps_wf intro: keeps_trans)

lemma keeps_ts:
  assumes "worker_wf w"
  shows "keeps w (w\<lparr>cur_ts := now\<rparr>)"
proof -
  let ?w = "w\<lparr>cur_ts := now\<rparr>"
  have "slots_ok ?w = slots_ok w" "heap_ok ?w = heap_ok w" "bindings_ok ?w = bindings_ok w"
    by (simp_all add: slots_ok_def heap_ok_def bindings_ok_def cong: handler_context.case_cong)
  with assms show ?thesis by (simp add: keeps_def same_worker_def worker_wf_def own_handler_def fun_eq_iff)
qed

lemma worker_timer_expire_handler_keeps:
  assumes "worker_wf w"
  shows "ensures (worker_timer_expire_handler f es w os) (\<lambda>(r, w1, os1). keeps w w1)"
proof -
  have loop: "ensures (timer_loop is (w\<lparr>cur_ts := now\<rparr>) os1) (\<lambda>(w1, os3). keeps w w1)" for "is" now os1
    using timer.run_rel [of "(w\<lparr>cur_ts := now\<rparr>, os1)" "is"] keeps_ts [OF assms, of now]
    by (auto simp: ensures_def keeps_wf intro: keeps_trans)
  show ?thesis
    unfolding worker_timer_expire_handler_def Let_def
    using loop keeps_refl [OF assms] by (auto split: prod.split)
qed

lemma worker_event_keeps:
  assumes "worker_wf w"
  shows "ensures (worker_event memory fd es w os) (\<lambda>(w1, os1). keeps w w1)"
proof -
  have "ensures (case (h, x) of
       (Connection_event_handle, Ctx_connection a) \<Rightarrow> connection_event_handle w a es os
     | (Unix_domain_socket_handle, Ctx_worker) \<Rightarrow>
         andthen (unix_domain_socket_handle memory fd es w os) (\<lambda>(r, w1, os1). Inr (w1, os1))
     | (Worker_timer_expire_handler, Ctx_worker) \<Rightarrow>
         andthen (worker_timer_expire_handler fd es w os) (\<lambda>(r, w1, os1). Inr (w1, os1))
     | _ \<Rightarrow> Inl OutOfBounds) (\<lambda>(w1, os1). keeps w w1)" for h x
    using connection_event_handle_keeps [OF assms] unix_domain_socket_handle_keeps [OF assms, of memory fd es os]
      worker_timer_expire_handler_keeps [OF assms, of fd es os]
    by (cases h; cases x) (simp_all add: case_prod_beta')
  then show ?thesis unfolding worker_event_def by (simp add: ensures_any)
qed

interpretation batch: run_keeps "\<lambda>(memory, fd, es) (w, os). worker_event memory fd es w os"
  "\<lambda>evs (w, os). worker_batch evs w os" wf_state keeps_state
proof unfold_locales
  fix s :: "worker \<times> os_env" and e :: event
  assume "wf_state s"
  moreover obtain memory fd es where "e = (memory, fd, es)" by (rule prod_cases3)
  ultimately show "ensures ((case e of (memory, fd, es) \<Rightarrow> \<lambda>(w, os). worker_event memory fd es w os) s) (keeps_state s)"
    using worker_event_keeps [of "fst s" memory fd es "snd s"] by (simp add: keeps_pair case_prod_beta')
qed (auto simp: keeps_refl keeps_wf intro: keeps_trans split: prod.splits)

lemma worker_batch_keeps:
  "worker_wf w \<Longrightarrow> ensures (worker_batch evs w os) (\<lambda>(w1, os1). keeps w w1)"
  using batch.run_rel [of "(w, os)" evs] by (simp add: keeps_pair)

lemma worker_loop_keeps:
  "worker_wf w \<Longrightarrow> ensures (worker_loop rounds w os) (\<lambda>(over, w1, os1). keeps w w1)"
proof (induction rounds w os rule: worker_loop.induct)
  case (2 down evs rounds w os)
  have "ensures (worker_loop rounds w1 os1) (\<lambda>(over, w2, os2). keeps w w2)"
    if c: "\<not> down \<or> 0 < cur_connection_number w" and e: "worker_batch evs w os = Inr (w1, os1)" for w1 os1
  proof -
    have k: "keeps w w1" using ensuresD [OF worker_batch_keeps [OF 2(2)] e] by simp
    have "ensures (worker_loop rounds w1 os1) (\<lambda>(over, w2, os2). keeps w1 w2)"
      by (rule 2(1) [OF c e [symmetric, THEN sym] _ keeps_wf [OF k]]) simp
    then show ?thesis by (rule ensures_mono) (use keeps_trans [OF k] in auto)
  qed
  then show ?case using keeps_refl [OF 2(2)] by (auto simp: ensures_def andthen_Inr_iff)
qed (simp add: keeps_refl)

section \<open>From the start\<close>

lemma in_use_replicate [simp]: "in_use (replicate n None) = {}"
  by (auto simp: in_use_def)

lemma nodeless_binding: "node_of t = (\<lambda>_. None) \<Longrightarrow> binding t = (\<lambda>_. None)"
  by (rule ext) (simp add: binding_def)

lemma worker_start_wf:
  assumes "worker_start epoll_create process_id unix_fd config limit timer_fd os = Inr (w, os1)"
  shows "worker_wf w \<and> conn_max_size w = of_nat (limit div 2) \<and> cur_connection_number w = 0 \<and> global_config w = config \<and>
    unix_domain_socekt_fd w = unix_fd \<and> timer_fd \<noteq> unix_fd \<and>
    binding (conn_ev w) = [unix_fd \<mapsto> (Unix_domain_socket_handle, Ctx_worker), timer_fd \<mapsto> (Worker_timer_expire_handler, Ctx_worker)]"
proof -
  obtain ev0 where ev0: "fdevent_initialize epoll_create (int limit) = Some (ev0 :: handler_context fdevents)"
    using assms by (auto simp: worker_start_defs split: option.splits)
  obtain ev1 ev2 ev3 ev4 where run: "fdevents_register_fd ev0 unix_fd Unix_domain_socket_handle Ctx_worker = Inr ev1"
      "fdevents_set_events ev1 unix_fd EPOLLIN = Inr ev2"
      "fdevents_register_fd ev2 timer_fd Worker_timer_expire_handler Ctx_worker = Inr ev3"
      "fdevents_set_events ev3 timer_fd EPOLLIN = Inr ev4"
    and w: "w = \<lparr>worker_id = process_id, unix_domain_socekt_fd = unix_fd, conn_slots = replicate (unat (of_nat (limit div 2) :: u32)) None,
        conn_heap = (\<lambda>a. None), conn_brk = 0, conn_max_size = of_nat (limit div 2), cur_connection_number = 0, conn_ev = ev4,
        global_config = config, cur_ts = os_time os (os_calls os)\<rparr>"
    using assms by (auto simp: worker_start_defs ev0 andthen_Inr_iff Let_def worker_connection_initialize_def sys_time_def)
  have s0: "synced ev0" "binding ev0 = (\<lambda>_. None)"
    using fdevent_initialize_ok [OF _ ev0] by (auto simp: synced_def nodeless_binding)
  note s1 = register_binding [OF s0(1) run(1)]
  note s2 = set_events_binding [OF conjunct1 [OF s1] run(2)]
  have "synced ev2" using s2 by simp
  note s3 = register_binding [OF this run(3)]
  note s4 = set_events_binding [OF conjunct1 [OF s3] run(4)]
  have b: "synced ev4" "binding ev4 = [unix_fd \<mapsto> (Unix_domain_socket_handle, Ctx_worker), timer_fd \<mapsto> (Worker_timer_expire_handler, Ctx_worker)]"
    using s0 s1 s2 s3 s4 by simp_all
  have "binding ev2 timer_fd = None" "binding ev2 unix_fd \<noteq> None" using s0 s1 s2 s3 by simp_all
  then have ne: "timer_fd \<noteq> unix_fd" by auto
  have "worker_wf w" using b unfolding w
    by (auto simp: worker_wf_def slots_ok_def heap_ok_def bindings_ok_def split: if_splits)
  with b(2) w ne show ?thesis by simp
qed

text \<open>The connections in use are those on the heap; there are never more than the table has slots.\<close>

lemma in_use_bound:
  assumes "worker_wf w"
  shows "unat (cur_connection_number w) \<le> unat (conn_max_size w)"
proof -
  have "in_use (conn_slots w) \<subseteq> {..<length (conn_slots w)}" by (auto simp: in_use_def)
  then have "card (in_use (conn_slots w)) \<le> card {..<length (conn_slots w)}" by (rule card_mono [OF finite_lessThan])
  with worker_wfD(2,5) [OF assms] show ?thesis by (simp add: slots_ok_def)
qed

lemma in_use_heap:
  assumes "worker_wf w"
  shows "bij_betw (\<lambda>i. the (conn_slots w ! i)) (in_use (conn_slots w)) (dom (conn_heap w))"
proof (rule bij_betw_byWitness [where f' = "\<lambda>a. unat (connection_index (the (conn_heap w a)))"])
  note wf = worker_wfD [OF assms]
  show "\<forall>i\<in>in_use (conn_slots w). unat (connection_index (the (conn_heap w (the (conn_slots w ! i))))) = i"
    using wf(2) by (fastforce simp: in_use_def slots_ok_def)
  show "\<forall>a\<in>dom (conn_heap w). the (conn_slots w ! unat (connection_index (the (conn_heap w a)))) = a"
    using heap_okD(4) [OF wf(3)] by fastforce
  show "(\<lambda>i. the (conn_slots w ! i)) ` in_use (conn_slots w) \<subseteq> dom (conn_heap w)"
    using wf(2) by (fastforce simp: in_use_def slots_ok_def)
  show "(\<lambda>a. unat (connection_index (the (conn_heap w a)))) ` dom (conn_heap w) \<subseteq> in_use (conn_slots w)"
    using heap_okD(3,4) [OF wf(3)] by (fastforce simp: in_use_def)
qed

lemma heap_count:
  assumes "worker_wf w"
  shows "finite (dom (conn_heap w)) \<and> unat (cur_connection_number w) = card (dom (conn_heap w))"
  using bij_betw_finite [OF in_use_heap [OF assms]] bij_betw_same_card [OF in_use_heap [OF assms]] worker_wfD(5) [OF assms]
  by simp

section \<open>A new connection\<close>

lemma find_slot_found:
  assumes "length (conn_slots w) = unat (conn_max_size w)"
  shows "i \<le> k \<Longrightarrow> k < unat (conn_max_size w) \<Longrightarrow> conn_slots w ! k = None \<Longrightarrow>
    \<exists>j. find_slot w i = Inr j \<and> j < unat (conn_max_size w)"
proof (induction "k - i" arbitrary: i)
  case 0
  then show ?case using assms by (intro exI [of _ i]) (simp add: find_slot.simps [of w i])
next
  case (Suc n)
  then have "i < k" by simp
  show ?case
  proof (cases "conn_slots w ! i = None")
    case True
    with \<open>i < k\<close> Suc.prems assms show ?thesis by (intro exI [of _ i]) (simp add: find_slot.simps [of w i])
  next
    case False
    have "n = k - Suc i" "Suc i \<le> k" using Suc.hyps(2) \<open>i < k\<close> by simp_all
    from Suc.hyps(1) [OF this Suc.prems(2,3)] False \<open>i < k\<close> Suc.prems assms show ?thesis
      by (simp add: find_slot.simps [of w i])
  qed
qed

lemma free_slot:
  assumes "worker_wf w" and "cur_connection_number w < conn_max_size w"
  obtains i where "find_slot w 0 = Inr i" "i < unat (conn_max_size w)"
proof -
  note wf = worker_wfD [OF assms(1)]
  have len: "length (conn_slots w) = unat (conn_max_size w)" using wf(2) by (simp add: slots_ok_def)
  have "card (in_use (conn_slots w)) < card {..<length (conn_slots w)}"
    using assms(2) wf(5) len by (simp add: word_less_nat_alt)
  then have "\<not> {..<length (conn_slots w)} \<subseteq> in_use (conn_slots w)"
    using card_mono [OF finite_in_use, of "{..<length (conn_slots w)}" "conn_slots w"] by fastforce
  then obtain k where "k < length (conn_slots w)" "conn_slots w ! k = None" by (auto simp: in_use_def)
  with find_slot_found [OF len, of 0 k] len that show ?thesis by auto
qed

text \<open>The machine of a connection that has nothing to read yet: it waits for a request.\<close>

lemma fresh_machine:
  assumes "conn_heap w a = Some c" and "state c = CON_STATE_REQUEST_START" and "\<not> readable c"
    and "synced (conn_ev w)" and n: "node_of (conn_ev w) (conn_socket_fd c) = Some n"
  shows "returns (connection_state_machine w a os) (\<lambda>(w1, os1). \<exists>t. synced t \<and>
    w1 = w\<lparr>conn_heap := (conn_heap w)(a \<mapsto> c\<lparr>start_ts := os_time os (os_calls os), active_read_ts := os_time os (os_calls os),
        state := CON_STATE_READ\<rparr>), conn_ev := t\<rparr> \<and>
    node_of t = (node_of (conn_ev w))(conn_socket_fd c \<mapsto> n\<lparr>events := EPOLLIN\<rparr>) \<and> max_fd t = max_fd (conn_ev w) \<and>
    trace os1 = trace os)"
proof -
  let ?ts = "os_time os (os_calls os)"
  let ?c = "c\<lparr>start_ts := ?ts, active_read_ts := ?ts, state := CON_STATE_READ\<rparr>"
  have one: "connection_machine_step w c os = Inr (w, ?c, sys_tick os)"
    by (simp add: connection_machine_step_def assms(2) state_request_start_def sys_time_def connection_set_state_def)
  have two: "\<exists>n. connection_handle_read_state (global_config w) (cur_ts w) ?c (sys_tick os) = Inr (n, ?c, sys_tick os)"
    using assms(3) by (simp add: connection_handle_read_state_def)
  then have "connection_machine_step w ?c (sys_tick os) = Inr (w, ?c, sys_tick os)"
    by (auto simp: connection_machine_step_def)
  from machine_rest [OF machine_there [OF one _ machine_here] this]
  have loop: "connection_machine_loop machine_fuel w c os = Inr (w, ?c, sys_tick os)" by (simp add: assms(2))
  obtain t where t: "fdevents_set_events (conn_ev w) (conn_socket_fd c) EPOLLIN = Inr t"
      "node_of t = (node_of (conn_ev w))(conn_socket_fd c \<mapsto> n\<lparr>events := EPOLLIN\<rparr>)" "max_fd t = max_fd (conn_ev w)"
    using set_events_ok [OF synced_wf [OF assms(4)] n, of EPOLLIN] by (auto simp: returns_iff)
  have "synced t" using set_events_binding [OF assms(4) t(1)] by simp
  with loop t show ?thesis
    by (auto simp: connection_state_machine_def assms(1) connection_machine_finish_def)
qed

lemma accept_new_bound:
  assumes "worker_wf w" and "cur_connection_number w < conn_max_size w"
    and "0 \<le> f" and "f < max_fd (conn_ev w)" and "binding (conn_ev w) f = None"
  shows "\<exists>w' os'. worker_accept memory f w os = Inr (0, w', os') \<and> worker_wf w' \<and> trace os' = trace os \<and>
    unat (cur_connection_number w') = Suc (unat (cur_connection_number w)) \<and>
    (\<exists>conn. conn_heap w' = (conn_heap w)(conn_brk w \<mapsto> conn) \<and> state conn = CON_STATE_READ \<and> conn_socket_fd conn = f \<and>
       connection_wf conn \<and> active_read_ts conn = os_time os (os_calls os)) \<and>
    interest (conn_ev w') = (interest (conn_ev w))(f \<mapsto> EPOLLIN OR EPOLLERR OR EPOLLHUP) \<and>
    binding (conn_ev w') = (binding (conn_ev w))(f \<mapsto> (Connection_event_handle, Ctx_connection (conn_brk w))) \<and>
    max_fd (conn_ev w') = max_fd (conn_ev w)"
proof -
  note wf = worker_wfD [OF assms(1)]
  let ?a = "conn_brk w"
  obtain i where i: "find_slot w 0 = Inr i" "i < unat (conn_max_size w)" by (rule free_slot [OF assms(1,2)])
  have free: "node_of (conn_ev w) f = None" using assms(5) by (simp add: binding_def)
  obtain t where t: "fdevents_register_fd (conn_ev w) f Connection_event_handle (Ctx_connection ?a) = Inr t"
      "node_of t = (node_of (conn_ev w))(f \<mapsto> \<lparr>node_fd = f, handler_ctx = Ctx_connection ?a, handler = Connection_event_handle, events = 0\<rparr>)"
      "max_fd t = max_fd (conn_ev w)"
    using register_ok [OF synced_wf [OF wf(1)] assms(3,4) free] by (auto simp: returns_iff)
  let ?c = "((connection_set_default memory)\<lparr>connection_index := of_nat i\<rparr>)\<lparr>conn_socket_fd := f\<rparr>"
  let ?w = "w\<lparr>cur_connection_number := cur_connection_number w + 1, conn_slots := (conn_slots w)[i := Some ?a],
    conn_brk := Suc ?a, conn_heap := (conn_heap w)(?a \<mapsto> ?c), conn_ev := t\<rparr>"
  have ts: "synced (conn_ev ?w)" using synced_register [OF wf(1) t(1)] by simp
  have node: "node_of (conn_ev ?w) (conn_socket_fd ?c) =
      Some \<lparr>node_fd = f, handler_ctx = Ctx_connection ?a, handler = Connection_event_handle, events = 0\<rparr>"
    using t(2) by simp
  have st: "state ?c = CON_STATE_REQUEST_START" "\<not> readable ?c" by (simp_all add: connection_set_default_def)
  obtain w' os' t' where m: "connection_state_machine ?w ?a os = Inr (w', os')" "synced t'" "trace os' = trace os"
    and w': "w' = ?w\<lparr>conn_heap := (conn_heap ?w)(?a \<mapsto> ?c\<lparr>start_ts := os_time os (os_calls os),
        active_read_ts := os_time os (os_calls os), state := CON_STATE_READ\<rparr>), conn_ev := t'\<rparr>"
    and nd: "node_of t' = (node_of t)(f \<mapsto> \<lparr>node_fd = f, handler_ctx = Ctx_connection ?a, handler = Connection_event_handle,
      events = EPOLLIN\<rparr>)" "max_fd t' = max_fd t"
    using fresh_machine [OF _ st ts node, of ?a os] by (auto simp: returns_iff)
  have acc: "worker_accept memory f w os = Inr (0, w', os')"
    using assms(2) m(1) i t(1) by (simp add: worker_accept_def worker_get_new_connection_def Let_def)
  have wf': "worker_wf w'" using ensuresD [OF worker_accept_keeps [OF assms(1)] acc] by (simp add: keeps_wf)
  have cwf: "connection_wf ?c" using connection_set_default_wf [of memory] by (simp add: connection_wf_def)
  have "interest t' = (interest (conn_ev w))(f \<mapsto> EPOLLIN OR EPOLLERR OR EPOLLHUP)"
    using wf(1) m(2) by (auto simp: synced_def interest_ok_def nd t(2))
  moreover have "unat (cur_connection_number w + 1) = Suc (unat (cur_connection_number w))"
    using assms(2) unat_u32_lt [of "conn_max_size w"] by (subst unat_add_u32) (simp_all add: word_less_nat_alt)
  moreover have "\<exists>conn. conn_heap w' = (conn_heap w)(?a \<mapsto> conn) \<and> state conn = CON_STATE_READ \<and> conn_socket_fd conn = f \<and>
       connection_wf conn \<and> active_read_ts conn = os_time os (os_calls os)"
    unfolding w'
    by (rule exI [of _ "?c\<lparr>start_ts := os_time os (os_calls os), active_read_ts := os_time os (os_calls os), state := CON_STATE_READ\<rparr>"])
      (use cwf in \<open>simp add: connection_wf_def\<close>)
  moreover have "binding t' = (binding (conn_ev w))(f \<mapsto> (Connection_event_handle, Ctx_connection ?a))"
    by (rule ext) (simp add: binding_def nd t(2))
  moreover have "max_fd t' = max_fd (conn_ev w)" using nd(2) t(3) by simp
  moreover have "conn_ev w' = t'" "cur_connection_number w' = cur_connection_number w + 1" by (simp_all add: w')
  ultimately show ?thesis
    using acc wf' m(3) by (intro exI [of _ w'] exI [of _ os']) (simp only:)
qed

lemma accept_new:
  assumes "worker_wf w" and "cur_connection_number w < conn_max_size w"
    and "0 \<le> f" and "f < max_fd (conn_ev w)" and "binding (conn_ev w) f = None"
  shows "\<exists>w' os'. worker_accept memory f w os = Inr (0, w', os') \<and> worker_wf w' \<and> trace os' = trace os \<and>
    unat (cur_connection_number w') = Suc (unat (cur_connection_number w)) \<and>
    (\<exists>conn. conn_heap w' = (conn_heap w)(conn_brk w \<mapsto> conn) \<and> state conn = CON_STATE_READ \<and> conn_socket_fd conn = f \<and>
       connection_wf conn \<and> active_read_ts conn = os_time os (os_calls os)) \<and>
    interest (conn_ev w') = (interest (conn_ev w))(f \<mapsto> EPOLLIN OR EPOLLERR OR EPOLLHUP)"
  using accept_new_bound [OF assms] by blast

section \<open>Properties\<close>

definition books_balance :: "worker \<Rightarrow> bool" where
  "books_balance w \<longleftrightarrow> unat (cur_connection_number w) = card (dom (conn_heap w)) \<and>
     (\<forall>a c. conn_heap w a = Some c \<longrightarrow> conn_slots w ! unat (connection_index c) = Some a \<and>
        binding (conn_ev w) (conn_socket_fd c) = Some (Connection_event_handle, Ctx_connection a)) \<and>
     (\<forall>f h a. binding (conn_ev w) f = Some (h, Ctx_connection a) \<longrightarrow>
        h = Connection_event_handle \<and> (\<exists>c. conn_heap w a = Some c \<and> conn_socket_fd c = f))"

text \<open>
  C5: A worker keeps its books, from its start and through any rounds of its event loop: the count of
  connections is that of the live ones, there are never more than half the descriptor limit, each is in the
  slot its index names, and every descriptor the event table has is the unix socket's, the timer's or that
  of a live connection.
\<close>

theorem worker_invariant:
  assumes "worker_start epoll_create process_id unix_fd config limit timer_fd os = Inr (w0, os0)"
    and "worker_loop rounds w0 os0 = Inr (over, w, os')"
  shows "books_balance w \<and> card (dom (conn_heap w)) \<le> limit div 2"
proof -
  note s = worker_start_wf [OF assms(1)]
  have k: "keeps w0 w" using ensuresD [OF worker_loop_keeps assms(2)] s by simp
  have wf: "worker_wf w" using k by (rule keeps_wf)
  have one: "unat (cur_connection_number w) = card (dom (conn_heap w))" using heap_count [OF wf] by simp
  have "conn_max_size w = of_nat (limit div 2)" using k s by (simp add: keeps_def same_worker_def)
  then have "unat (conn_max_size w) \<le> limit div 2" by (simp add: unat_of_nat)
  with one in_use_bound [OF wf] have "card (dom (conn_heap w)) \<le> limit div 2" by simp
  moreover have "books_balance w"
    unfolding books_balance_def
  proof (intro conjI)
    show "\<forall>a c. conn_heap w a = Some c \<longrightarrow> conn_slots w ! unat (connection_index c) = Some a \<and>
        binding (conn_ev w) (conn_socket_fd c) = Some (Connection_event_handle, Ctx_connection a)"
      using heap_okD(4,5) [OF worker_wfD(3) [OF wf]] by blast
    show "\<forall>f h a. binding (conn_ev w) f = Some (h, Ctx_connection a) \<longrightarrow>
        h = Connection_event_handle \<and> (\<exists>c. conn_heap w a = Some c \<and> conn_socket_fd c = f)"
      using worker_wfD(4) [OF wf] by (fastforce simp: bindings_ok_def)
  qed (rule one)
  ultimately show ?thesis by simp
qed

text \<open>
  C15: An event for a descriptor of the table is handled by the right handler, and that of a connection always
  finds its connection alive: the handler runs the machine of the connection whose descriptor it is.
\<close>

theorem worker_dispatch:
  assumes "worker_wf w" and "binding (conn_ev w) fd = Some (h, ctx)"
  shows "case ctx of
      Ctx_connection a \<Rightarrow> \<exists>conn. conn_heap w a = Some conn \<and> conn_socket_fd conn = fd \<and>
        worker_event memory fd es w os = (case connection_note_events es conn os of
          (conn1, os1) \<Rightarrow> connection_state_machine (w\<lparr>conn_heap := (conn_heap w)(a \<mapsto> conn1)\<rparr>) a os1)
    | Ctx_worker \<Rightarrow> worker_event memory fd es w os =
        (if h = Unix_domain_socket_handle
         then andthen (unix_domain_socket_handle memory fd es w os) (\<lambda>(r, w1, os1). Inr (w1, os1))
         else andthen (worker_timer_expire_handler fd es w os) (\<lambda>(r, w1, os1). Inr (w1, os1)))"
proof -
  note wf = worker_wfD [OF assms(1)]
  obtain n where n: "node_of (conn_ev w) fd = Some n" "handler n = h" "handler_ctx n = ctx"
    using assms(2) by (auto simp: binding_def)
  note look = lookup_ok [OF synced_wf [OF wf(1)] n(1)]
  have b: "case ctx of Ctx_connection a \<Rightarrow> h = Connection_event_handle \<and> (\<exists>c. conn_heap w a = Some c \<and> conn_socket_fd c = fd)
      | Ctx_worker \<Rightarrow> h \<noteq> Connection_event_handle" using wf(4) assms(2) by (simp add: bindings_ok_def)
  show ?thesis
  proof (cases ctx)
    case Ctx_worker
    with b show ?thesis by (cases h) (simp_all add: worker_event_def look n)
  next
    case (Ctx_connection a)
    with b obtain c where "conn_heap w a = Some c" "conn_socket_fd c = fd" "h = Connection_event_handle" by auto
    then show ?thesis
      by (simp add: Ctx_connection worker_event_def look n connection_event_handle_def)
  qed
qed

text \<open>
  C16: A client that arrives while there is room gets a connection of its own: the count goes up by one, the
  connection waits for its request and is watched for input, and no other connection is touched.
\<close>

theorem worker_accept_installs:
  assumes "worker_wf w" and "cur_connection_number w < conn_max_size w"
    and "0 \<le> f" and "f < max_fd (conn_ev w)" and "binding (conn_ev w) f = None"
  shows "\<exists>w' os'. worker_accept memory f w os = Inr (0, w', os') \<and> worker_wf w' \<and> trace os' = trace os \<and>
    unat (cur_connection_number w') = Suc (unat (cur_connection_number w)) \<and>
    (\<exists>conn. conn_heap w' = (conn_heap w)(conn_brk w \<mapsto> conn) \<and> state conn = CON_STATE_READ \<and> conn_socket_fd conn = f \<and>
       connection_wf conn \<and> active_read_ts conn = os_time os (os_calls os)) \<and>
    interest (conn_ev w') = (interest (conn_ev w))(f \<mapsto> EPOLLIN OR EPOLLERR OR EPOLLHUP)"
  by (rule accept_new [OF assms])

text \<open>
  A client that arrives while every connection is in use is turned away: its descriptor is closed and
  nothing changes.
\<close>

theorem worker_accept_full:
  assumes "worker_wf w" and "conn_max_size w \<le> cur_connection_number w"
  shows "worker_accept memory f w os = Inr (-1, w, sys_close os f) \<and> card (dom (conn_heap w)) = unat (conn_max_size w)"
  using assms heap_count [OF assms(1)] in_use_bound [OF assms(1)]
  by (simp add: worker_accept_def worker_get_new_connection_def word_le_nat_alt)

text \<open>A worker that has just started, and the descriptor of a client it is passed.\<close>

definition started_os :: os_env where
  "started_os = (sample_os (\<lambda>_ _. Inr []))\<lparr>os_recvfd := (\<lambda>_. Inr (Some 7))\<rparr>"

lemma start_returns:
  "\<exists>w os. worker_start (\<lambda>_. 5) 0 3 named_config 16 4 started_os = Inr (w, os) \<and> max_fd (conn_ev w) = 16 \<and> same_os started_os os"
  by (simp add: worker_start_defs fdevent_initialize_def fdevents_register_fd_def fdevents_set_events_def get_node_def put_node_def
      Let_def worker_connection_initialize_def sys_time_def nth_update)

text \<open>An event of the unix socket, when the next message on it has a descriptor.\<close>

lemma unix_event_accepts:
  assumes "worker_wf w" and "binding (conn_ev w) u = Some (Unix_domain_socket_handle, Ctx_worker)"
    and "os_recvfd os (os_calls os) = Inr (Some f)"
  shows "worker_event memory u EPOLLIN w os = andthen (worker_accept memory f w (sys_tick os)) (\<lambda>(r, w1, os1). Inr (w1, os1))"
proof -
  obtain n where n: "node_of (conn_ev w) u = Some n" "handler n = Unix_domain_socket_handle" "handler_ctx n = Ctx_worker"
    using assms(2) by (auto simp: binding_def)
  note look = lookup_ok [OF synced_wf [OF worker_wfD(1) [OF assms(1)]] n(1)]
  show ?thesis using assms(3) by (simp add: worker_event_def look n unix_domain_socket_handle_def sys_recvfd_def)
qed

lemma first_client:
  assumes "worker_start (\<lambda>_. 5) 0 3 named_config 16 4 started_os = Inr (w, os)" and "max_fd (conn_ev w) = 16" and "same_os started_os os"
  shows "\<exists>w' os' conn. worker_event memory 3 EPOLLIN w os = Inr (w', os') \<and> worker_wf w' \<and> unat (cur_connection_number w') = 1 \<and>
    conn_heap w' = (conn_heap w)(conn_brk w \<mapsto> conn) \<and> conn_socket_fd conn = 7 \<and> state conn = CON_STATE_READ"
proof -
  note s = worker_start_wf [OF assms(1)]
  then have wf: "worker_wf w" by simp
  have "binding (conn_ev w) 3 = Some (Unix_domain_socket_handle, Ctx_worker)" using s by simp
  moreover have "os_recvfd os (os_calls os) = Inr (Some 7)" using assms(3) by (simp add: same_os_def started_os_def)
  ultimately have "worker_event memory 3 EPOLLIN w os = andthen (worker_accept memory 7 w (sys_tick os)) (\<lambda>(r, w1, os1). Inr (w1, os1))"
    by (rule unix_event_accepts [OF wf])
  moreover have "cur_connection_number w < conn_max_size w" "binding (conn_ev w) 7 = None" using s by simp_all
  from accept_new [OF wf this(1) _ _ this(2), of memory "sys_tick os"] assms(2) s
  obtain w' os' conn where "worker_accept memory 7 w (sys_tick os) = Inr (0, w', os')" "worker_wf w'" "unat (cur_connection_number w') = 1"
      "conn_heap w' = (conn_heap w)(conn_brk w \<mapsto> conn)" "conn_socket_fd conn = 7" "state conn = CON_STATE_READ" by auto
  ultimately show ?thesis by (intro exI [of _ w'] exI [of _ os'] exI [of _ conn]) simp
qed

theorem worker_invariant_witness:
  "\<exists>w0 os0 w os. worker_start (\<lambda>_. 5) 0 3 named_config 16 4 started_os = Inr (w0, os0) \<and>
    worker_loop [(False, [(sample_connection [], 3, EPOLLIN)])] w0 os0 = Inr (False, w, os) \<and>
    unat (cur_connection_number w) = 1 \<and> books_balance w \<and> card (dom (conn_heap w)) \<le> 8"
proof -
  obtain w0 os0 where s: "worker_start (\<lambda>_. 5) 0 3 named_config 16 4 started_os = Inr (w0, os0)"
      "max_fd (conn_ev w0) = 16" "same_os started_os os0" using start_returns by blast
  obtain w os where e: "worker_event (sample_connection []) 3 EPOLLIN w0 os0 = Inr (w, os)" "unat (cur_connection_number w) = 1"
    using first_client [OF s] by blast
  then have l: "worker_loop [(False, [(sample_connection [], 3, EPOLLIN)])] w0 os0 = Inr (False, w, os)" by simp
  from worker_invariant [OF s(1) l] s(1) l e(2) show ?thesis by auto
qed

theorem worker_dispatch_witness:
  "\<exists>w. binding (conn_ev w) 3 = Some (Unix_domain_socket_handle, Ctx_worker) \<and>
    worker_event (sample_connection []) 3 EPOLLHUP w started_os =
      andthen (unix_domain_socket_handle (sample_connection []) 3 EPOLLHUP w started_os) (\<lambda>(r, w1, os1). Inr (w1, os1))"
proof -
  obtain w os where s: "worker_start (\<lambda>_. 5) 0 3 named_config 16 4 started_os = Inr (w, os)" using start_returns by blast
  note wf = worker_start_wf [OF s]
  then have "worker_wf w" "binding (conn_ev w) 3 = Some (Unix_domain_socket_handle, Ctx_worker)" by simp_all
  from worker_dispatch [OF this, of "sample_connection []" EPOLLHUP started_os] this(2) show ?thesis by auto
qed

theorem worker_accept_installs_witness:
  "\<exists>w w' os' conn. worker_accept (sample_connection []) 7 w started_os = Inr (0, w', os') \<and>
    unat (cur_connection_number w') = 1 \<and> conn_heap w' = (conn_heap w)(conn_brk w \<mapsto> conn) \<and> state conn = CON_STATE_READ"
proof -
  obtain w os where s: "worker_start (\<lambda>_. 5) 0 3 named_config 16 4 started_os = Inr (w, os)" "max_fd (conn_ev w) = 16"
    using start_returns by blast
  note wf = worker_start_wf [OF s(1)]
  then have "worker_wf w" "cur_connection_number w < conn_max_size w" "binding (conn_ev w) 7 = None" by simp_all
  from worker_accept_installs [OF this(1,2) _ _ this(3), of "sample_connection []" started_os] s(2) wf show ?thesis by auto
qed

theorem worker_accept_full_witness:
  "\<exists>w. worker_wf w \<and> conn_max_size w = 0 \<and> worker_accept (sample_connection []) 7 w started_os = Inr (-1, w, sys_close started_os 7) \<and>
    card (dom (conn_heap w)) = unat (conn_max_size w)"
proof -
  obtain ev0 where ev0: "fdevent_initialize (\<lambda>_. 5) 0 = Some (ev0 :: handler_context fdevents)" by (simp add: fdevent_initialize_def)
  let ?w = "sample_worker\<lparr>conn_slots := [], conn_heap := (\<lambda>_. None), conn_max_size := 0, cur_connection_number := 0, conn_ev := ev0\<rparr>"
  have "worker_wf ?w" using fdevent_initialize_ok [OF _ ev0]
    by (auto simp: worker_wf_def slots_ok_def heap_ok_def bindings_ok_def synced_def nodeless_binding in_use_def)
  with worker_accept_full [of ?w "sample_connection []" 7 started_os] show ?thesis by (intro exI [of _ ?w]) simp
qed

section \<open>Idle connections\<close>

lemma close_returns:
  assumes "synced t" and "node_of t f = Some n"
  obtains t1 t2 where "fdevents_unset_event t f = Inr t1" "fdevents_unregister_fd t1 f = Inr t2" "0 \<le> f" "f < max_fd t"
proof -
  obtain t1 where t1: "fdevents_unset_event t f = Inr t1" "ev_wf t1" "node_of t1 = (node_of t)(f \<mapsto> n\<lparr>events := 0\<rparr>)"
    using unset_event_ok [OF synced_wf [OF assms(1)] assms(2)] by (auto simp: returns_iff)
  have "node_of t1 f = Some (n\<lparr>events := 0\<rparr>)" using t1(3) by simp
  from unregister_ok [OF t1(2) this] obtain t2 where "fdevents_unregister_fd t1 f = Inr t2" by (auto simp: returns_iff)
  with t1(1) node_of_range [OF assms(2)] that show thesis by blast
qed

lemma live_node:
  assumes "worker_wf w" and "conn_heap w a = Some c"
  obtains n where "node_of (conn_ev w) (conn_socket_fd c) = Some n"
  using heap_okD(5) [OF worker_wfD(3) [OF assms(1)] assms(2)] by (auto simp: binding_def)

text \<open>
  The machine in the state \<open>CON_STATE_CLOSE\<close>: once the time-out is over, or the client has closed its side, the
  connection goes; else it waits.
\<close>

definition closed_by :: "worker \<Rightarrow> addr \<Rightarrow> int \<Rightarrow> os_env \<Rightarrow> worker \<Rightarrow> os_env \<Rightarrow> bool" where
  "closed_by w a fd os w1 os1 \<longleftrightarrow> conn_heap w1 = (conn_heap w)(a := None) \<and> node_of (conn_ev w1) fd = None \<and>
     trace os1 = trace os @ [Closed fd]"

definition waits_for_close :: "worker \<Rightarrow> addr \<Rightarrow> connection \<Rightarrow> os_env \<Rightarrow> worker \<Rightarrow> os_env \<Rightarrow> bool" where
  "waits_for_close w a c os w1 os1 \<longleftrightarrow> close_timeout_ts c = cur_ts w \<and> state c = CON_STATE_CLOSE \<and> connection_wf c \<and>
     conn_heap w1 = (conn_heap w)(a \<mapsto> c) \<and> trace os1 = trace os"

abbreviation close_timed_out :: "worker \<Rightarrow> connection \<Rightarrow> bool" where
  "close_timed_out w c \<equiv> MINIHTTPD_CLOSE_TIMEOUT < cur_ts w - close_timeout_ts c"

definition read_ends :: "os_env \<Rightarrow> bool" where
  "read_ends os \<longleftrightarrow> (case os_read os (os_calls os) 512 of Inl e \<Rightarrow> e \<noteq> EINTR \<and> e \<noteq> EAGAIN | Inr bs \<Rightarrow> bs = [])"

lemma closing_machine:
  assumes "worker_wf w" and c: "conn_heap w a = Some c" and run: "machine_steps k (w, c, os) (w, c0, os0)"
    and "conn_ids c0 = conn_ids c" and "state c0 = CON_STATE_CLOSE" and "connection_wf c0"
    and "close_timed_out w c0 \<or> read_ends os0"
  shows "returns (connection_state_machine w a os) (\<lambda>(w1, os1). keeps w w1 \<and> closed_by w a (conn_socket_fd c) os0 w1 os1)"
proof -
  let ?f = "conn_socket_fd c"
  have ids: "conn_socket_fd c0 = ?f" "connection_index c0 = connection_index c" using assms(4) by (simp_all add: conn_ids_def)
  note wf = worker_wfD [OF assms(1)]
  obtain n where n: "node_of (conn_ev w) ?f = Some n" by (rule live_node [OF assms(1) c])
  obtain t1 t2 where t: "fdevents_unset_event (conn_ev w) ?f = Inr t1" "fdevents_unregister_fd t1 ?f = Inr t2"
      "0 \<le> ?f" "?f < max_fd (conn_ev w)" by (rule close_returns [OF wf(1) n])
  have "binding t2 ?f = None" using close_binding [OF wf(1) t(1,2)] by simp
  then have gone: "node_of t2 ?f = None" by (simp add: binding_def)
  obtain ts where one: "connection_machine_step w c0 os0 = Inr (w\<lparr>conn_ev := t2\<rparr>,
      connection_set_state (c0\<lparr>close_timeout_ts := ts, conn_socket_fd := -1\<rparr>) CON_STATE_CONNECT, sys_close (sys_tick os0) ?f)"
  proof -
    have "state_close w c0 os0 = connection_close w (c0\<lparr>close_timeout_ts := ts\<rparr>) (sys_tick os0)"
      if "ts = (if read_ends os0 then cur_ts w - (MINIHTTPD_CLOSE_TIMEOUT + 1) else close_timeout_ts c0)" for ts
      using assms(7) that unfolding state_close_def sys_read_def prod.case Let_def read_ends_def [of os0, symmetric]
      by (cases "read_ends os0") simp_all
    from this [OF refl] t that show thesis
      by (simp add: connection_machine_step_def assms(5) connection_close_def ids)
  qed
  let ?c1 = "connection_set_state (c0\<lparr>close_timeout_ts := ts, conn_socket_fd := -1\<rparr>) CON_STATE_CONNECT"
  have two: "connection_machine_step (w\<lparr>conn_ev := t2\<rparr>) ?c1 (sys_close (sys_tick os0) ?f) = Inr (w\<lparr>conn_ev := t2\<rparr>, ?c1, sys_close (sys_tick os0) ?f)"
    by (simp add: connection_machine_step_def)
  have "machine_steps (k + 1) (w, c, os) (w\<lparr>conn_ev := t2\<rparr>, ?c1, sys_close (sys_tick os0) ?f)"
    by (rule machine_steps_append [OF run machine_there [OF one _ machine_here, unfolded One_nat_def [symmetric]]]) (simp add: assms(5))
  from machine_rest [OF this two refl]
  have loop: "connection_machine_loop machine_fuel w c os = Inr (w\<lparr>conn_ev := t2\<rparr>, ?c1, sys_close (sys_tick os0) ?f)" .
  obtain vs ws where q: "queue_rel (readqueue c0) vs" "queue_rel (writequeue c0) ws" using assms(6) by (auto simp: connection_wf_def)
  have idx: "unat (connection_index c) < length (conn_slots w)" using heap_okD(3) [OF wf(3) c] .
  obtain q1 q2 where "chunkqueue_free (readqueue c0) = Inr q1" "chunkqueue_free (writequeue c0) = Inr q2"
    using chunkqueue_free_rel [OF q(1)] chunkqueue_free_rel [OF q(2)] by (auto simp: returns_iff)
  then obtain w1 where m: "connection_state_machine w a os = Inr (w1, sys_close (sys_tick os0) ?f)"
      "conn_heap w1 = (conn_heap w)(a := None)" "conn_ev w1 = t2"
    using loop idx
    by (simp add: connection_state_machine_def c connection_machine_finish_def connection_free_def connection_set_state_def ids)
  have "keeps w w1" using ensuresD [OF connection_state_machine_keeps [OF assms(1)] m(1)] by simp
  with m gone show ?thesis by (simp add: sys_close_def closed_by_def)
qed

lemma waiting_machine:
  assumes "worker_wf w" and c: "conn_heap w a = Some c" and run: "machine_steps k (w, c, os) (w, c0, os0)"
    and "conn_ids c0 = conn_ids c" and "state c0 = CON_STATE_CLOSE" and "\<not> close_timed_out w c0" and "\<not> read_ends os0"
  shows "returns (connection_state_machine w a os) (\<lambda>(w1, os1). keeps w w1 \<and>
    conn_heap w1 = (conn_heap w)(a \<mapsto> c0) \<and> trace os1 = trace os0)"
proof -
  have ids: "conn_socket_fd c0 = conn_socket_fd c" using assms(4) by (simp_all add: conn_ids_def)
  note wf = worker_wfD [OF assms(1)]
  obtain n where n: "node_of (conn_ev w) (conn_socket_fd c) = Some n" by (rule live_node [OF assms(1) c])
  obtain t where t: "fdevents_set_events (conn_ev w) (conn_socket_fd c) EPOLLIN = Inr t"
    using set_events_ok [OF synced_wf [OF wf(1)] n, of EPOLLIN] by (auto simp: returns_iff)
  have "connection_machine_step w c0 os0 = Inr (w, c0, sys_tick os0)"
    using assms(6,7) by (simp add: connection_machine_step_def assms(5) state_close_def sys_read_def read_ends_def)
  from machine_rest [OF run this refl]
  obtain w1 where m: "connection_state_machine w a os = Inr (w1, sys_tick os0)" "conn_heap w1 = (conn_heap w)(a \<mapsto> c0)"
    using t by (simp add: connection_state_machine_def c connection_machine_finish_def ids assms(5))
  have "keeps w w1" using ensuresD [OF connection_state_machine_keeps [OF assms(1)] m(1)] by simp
  with m show ?thesis by simp
qed

text \<open>
  The state \<open>CON_STATE_ERROR\<close>: the connection is shut down, and is closed or waits for the client to close it.
\<close>

lemma error_step:
  assumes "state c = CON_STATE_ERROR" and "connection_wf c"
  obtains c1 where "connection_machine_step w c os = Inr (w, c1, sys_emit [Shut_wr (conn_socket_fd c)] (sys_tick os))"
    "connection_wf c1" "state c1 = CON_STATE_CLOSE" "conn_ids c1 = conn_ids c"
    "close_timeout_ts c1 = (if os_shutdown os (os_calls os) then cur_ts w else cur_ts w - (MINIHTTPD_CLOSE_TIMEOUT + 1))"
proof -
  let ?t = "if os_shutdown os (os_calls os) then cur_ts w else cur_ts w - (MINIHTTPD_CLOSE_TIMEOUT + 1)"
  have "connection_wf (connection_set_state (c\<lparr>keep_alive := False, close_timeout_ts := ?t\<rparr>) CON_STATE_CLOSE)"
    using assms(2) by (simp add: connection_wf_def connection_set_state_def)
  from connection_reset_wf [OF this] obtain c1 where r: "connection_reset
      (connection_set_state (c\<lparr>keep_alive := False, close_timeout_ts := ?t\<rparr>) CON_STATE_CLOSE) = Inr c1"
    and c1: "connection_wf c1" "state c1 = CON_STATE_CLOSE" "conn_socket_fd c1 = conn_socket_fd c" "close_timeout_ts c1 = ?t"
      "connection_index c1 = connection_index c"
    by (auto simp: returns_iff connection_set_state_def)
  have "connection_machine_step w c os = Inr (w, c1, sys_emit [Shut_wr (conn_socket_fd c)] (sys_tick os))"
    using r by (simp add: connection_machine_step_def assms(1) state_error_def sys_shutdown_def)
  with c1 that show thesis by (simp add: conn_ids_def)
qed

lemma shut_down_machine:
  assumes "worker_wf w" and c: "conn_heap w a = Some c" and "state c = CON_STATE_ERROR" and "connection_wf c"
  shows "returns (connection_state_machine w a os) (\<lambda>(w1, os1). keeps w w1 \<and>
    (let os0 = sys_emit [Shut_wr (conn_socket_fd c)] os
     in closed_by w a (conn_socket_fd c) os0 w1 os1 \<or> (\<exists>c1. waits_for_close w a c1 os0 w1 os1)))"
proof -
  let ?f = "conn_socket_fd c"
  let ?os = "sys_emit [Shut_wr ?f] (sys_tick os)"
  obtain c1 where step: "connection_machine_step w c os = Inr (w, c1, ?os)" and c1: "connection_wf c1" "state c1 = CON_STATE_CLOSE"
    and ids: "conn_ids c1 = conn_ids c" and ts: "close_timeout_ts c1 = (if os_shutdown os (os_calls os) then cur_ts w
      else cur_ts w - (MINIHTTPD_CLOSE_TIMEOUT + 1))" by (rule error_step [OF assms(3,4)])
  from machine_there [OF step _ machine_here] have run: "machine_steps 1 (w, c, os) (w, c1, ?os)"
    by (simp add: assms(3) c1(2))
  show ?thesis
  proof (cases "close_timed_out w c1 \<or> read_ends ?os")
    case True
    from closing_machine [OF assms(1) c run ids c1(2,1) this] show ?thesis
      by (rule returns_mono) (auto simp: closed_by_def)
  next
    case False
    then have "close_timeout_ts c1 = cur_ts w" using ts by (auto split: if_splits)
    then have waits: "waits_for_close w a c1 (sys_emit [Shut_wr ?f] os) w1 os1"
      if "conn_heap w1 = (conn_heap w)(a \<mapsto> c1)" "trace os1 = trace ?os" for w1 os1
      using that c1(1,2) by (simp add: waits_for_close_def)
    from False have "\<not> close_timed_out w c1" "\<not> read_ends ?os" by simp_all
    from waiting_machine [OF assms(1) c run ids c1(2) this] show ?thesis
      by (auto simp: returns_iff Let_def intro!: disjI2 exI [of _ c1] waits)
  qed
qed

lemma timer_closes:
  assumes "worker_wf w" and slot: "i < length (conn_slots w)" "conn_slots w ! i = Some a"
    and c: "conn_heap w a = Some c" and "connection_wf c" and "state c = CON_STATE_CLOSE" and "close_timed_out w c"
  shows "returns (timer_step i w os) (\<lambda>(w1, os1). keeps w w1 \<and> closed_by w a (conn_socket_fd c) os w1 os1)"
proof -
  have same: "w\<lparr>conn_heap := (conn_heap w)(a \<mapsto> c)\<rparr> = w" using c by (simp add: fun_upd_idem)
  have "timer_check w c = (True, c)" using assms(6,7) by (simp add: timer_check_def)
  then have "timer_step i w os = connection_state_machine w a os" using slot c by (simp add: timer_step_def same)
  with closing_machine [OF assms(1) c machine_here refl assms(6,5)] assms(7) show ?thesis by simp
qed

text \<open>
  C24: The timer shuts down a connection that has been idle for too long, reading a request or sending a
  response: what the client still sends is not read as a request; the connection is closed at once, or waits
  for the client to close its side, from now on.
\<close>

theorem idle_connection_is_shut_down:
  assumes "worker_wf w" and slot: "i < length (conn_slots w)" "conn_slots w ! i = Some a"
    and c: "conn_heap w a = Some c" and "connection_wf c"
    and idle: "state c = CON_STATE_READ \<and> int (unat (max_read_idle_ts (global_config w))) < cur_ts w - active_read_ts c \<or>
      state c = CON_STATE_WRITE \<and> active_write_ts c \<noteq> 0 \<and> int (unat (max_write_idle_ts (global_config w))) < cur_ts w - active_write_ts c"
  shows "returns (timer_step i w os) (\<lambda>(w1, os1). keeps w w1 \<and>
    (let os0 = sys_emit [Shut_wr (conn_socket_fd c)] os
     in closed_by w a (conn_socket_fd c) os0 w1 os1 \<or> (\<exists>c1. waits_for_close w a c1 os0 w1 os1)))"
proof -
  let ?c = "connection_set_state c CON_STATE_ERROR"
  let ?w = "w\<lparr>conn_heap := (conn_heap w)(a \<mapsto> ?c)\<rparr>"
  have k: "keeps w ?w" by (rule keeps_update [OF assms(1) c]) simp_all
  have wf: "worker_wf ?w" by (rule keeps_wf [OF k])
  have "connection_wf ?c" using assms(5) by (simp add: connection_wf_def connection_set_state_def)
  from shut_down_machine [OF wf _ _ this, of a os] have m: "returns (connection_state_machine ?w a os) (\<lambda>(w1, os1). keeps ?w w1 \<and>
      (let os0 = sys_emit [Shut_wr (conn_socket_fd c)] os
       in closed_by ?w a (conn_socket_fd c) os0 w1 os1 \<or> (\<exists>c1. waits_for_close ?w a c1 os0 w1 os1)))"
    by (simp add: connection_set_state_def)
  have "timer_check w c = (True, ?c)" using idle by (auto simp: timer_check_def)
  then have "timer_step i w os = connection_state_machine ?w a os" using slot c by (simp add: timer_step_def)
  with m k show ?thesis
    by (auto simp: returns_iff closed_by_def waits_for_close_def Let_def intro: keeps_trans)
qed

text \<open>
  C25: A connection that has waited for longer than the time-out for its client to close is closed by the next
  round of the timer: its descriptor is closed, and it is gone from the heap and the event table.
\<close>

theorem timed_out_connection_is_closed:
  assumes "worker_wf w" and slot: "i < length (conn_slots w)" "conn_slots w ! i = Some a"
    and c: "conn_heap w a = Some c" and "connection_wf c" and "state c = CON_STATE_CLOSE" and "close_timed_out w c"
  shows "returns (timer_step i w os) (\<lambda>(w1, os1). keeps w w1 \<and> closed_by w a (conn_socket_fd c) os w1 os1)"
  by (rule timer_closes [OF assms])

text \<open>
  C33: A connection that the timer closes may have an event of its own later in the same batch. The event finds
  no handler, and the assertion of \<open>fdevents_get_handle\<close> ends the worker with every connection it has.
\<close>

theorem stale_event_ends_worker:
  assumes "worker_wf w" and "worker_batch evs w os = Inr (w1, os1)" and "conn_heap w a = Some c"
    and "closed_by w a (conn_socket_fd c) os w1 os1"
  shows "worker_batch (evs @ [(memory, conn_socket_fd c, es)]) w os = Inl AssertFailed"
proof -
  have "worker_wf w1" using ensuresD [OF worker_batch_keeps [OF assms(1)] assms(2)] by (simp add: keeps_wf)
  then have "ev_wf (conn_ev w1)" by (simp add: worker_wf_def synced_def)
  with assms(4) have "worker_event memory (conn_socket_fd c) es w1 os1 = Inl AssertFailed"
    by (simp add: worker_event_def lookup_fault closed_by_def)
  with assms(2) batch.run_append [of evs "[(memory, conn_socket_fd c, es)]" "(w, os)"] show ?thesis by simp
qed

text \<open>A worker with its timer and one connection, in the states the properties are about.\<close>

definition idle_os :: os_env where
  "idle_os = (sample_os (\<lambda>_ _. Inl EAGAIN))\<lparr>os_time := (\<lambda>_. 100)\<rparr>"

lemma sample_worker_wf:
  assumes "conn_ids c = (7, 0)" and "state c \<noteq> CON_STATE_CONNECT"
  shows "\<exists>t. worker_wf (sample_worker\<lparr>conn_heap := [0 \<mapsto> c], conn_ev := t\<rparr>) \<and>
    node_of t 4 = Some \<lparr>node_fd = 4, handler_ctx = Ctx_worker, handler = Worker_timer_expire_handler, events = 0\<rparr>"
proof -
  obtain t0 where t0: "fdevent_initialize (\<lambda>_. 5) 16 = Some (t0 :: handler_context fdevents)" by (simp add: fdevent_initialize_def)
  have i: "ev_wf t0" "max_fd t0 = 16" "node_of t0 = (\<lambda>_. None)" "synced t0"
    using fdevent_initialize_ok [OF _ t0] by (auto simp: synced_def)
  then obtain t1 where t1: "fdevents_register_fd t0 4 Worker_timer_expire_handler Ctx_worker = Inr t1" "ev_wf t1" "max_fd t1 = 16"
      "node_of t1 = [4 \<mapsto> \<lparr>node_fd = 4, handler_ctx = Ctx_worker, handler = Worker_timer_expire_handler, events = 0\<rparr>]"
    using register_ok [OF i(1), of 4 Worker_timer_expire_handler Ctx_worker] by (auto simp: returns_iff)
  then obtain t where t: "fdevents_register_fd t1 7 Connection_event_handle (Ctx_connection 0) = Inr t"
      "node_of t = (node_of t1)(7 \<mapsto> \<lparr>node_fd = 7, handler_ctx = Ctx_connection 0, handler = Connection_event_handle, events = 0\<rparr>)"
    using register_ok [OF t1(2), of 7 Connection_event_handle "Ctx_connection 0"] by (auto simp: returns_iff)
  have s: "synced t" using synced_register [OF synced_register [OF i(4) t1(1)] t(1)] .
  have b: "binding t = [4 \<mapsto> (Worker_timer_expire_handler, Ctx_worker), 7 \<mapsto> (Connection_event_handle, Ctx_connection 0)]"
    by (rule ext) (simp add: binding_def t(2) t1(4))
  have "in_use [Some (0 :: addr)] = {0}" by (auto simp: in_use_def)
  then have "worker_wf (sample_worker\<lparr>conn_heap := [0 \<mapsto> c], conn_ev := t\<rparr>)"
    using s b assms by (auto simp: worker_wf_def slots_ok_def heap_ok_def bindings_ok_def sample_worker_def conn_ids_def split: if_splits)
  then show ?thesis using t(2) t1(4) by (intro exI [of _ t]) simp
qed

lemma sample_connection_wf: "connection_wf ((sample_connection [])\<lparr>state := st\<rparr>)"
proof -
  have "buffer_holds \<lparr>ptr = lit [], used_bytes = 1, buf_size = 1\<rparr> []" by (simp add: buffer_holds_def lit_def)
  then show ?thesis using queue_rel_init
    by (auto simp: connection_wf_def sample_connection_def request_wf_def request_initialize_def intro!: exI [of _ "[]"])
qed

theorem timed_out_connection_is_closed_witness:
  "\<exists>w w1 os1. conn_heap w 0 \<noteq> None \<and> timer_step 0 w idle_os = Inr (w1, os1) \<and> closed_by w 0 7 idle_os w1 os1"
proof -
  let ?c = "(sample_connection [])\<lparr>state := CON_STATE_CLOSE\<rparr>"
  obtain t where wf: "worker_wf (sample_worker\<lparr>conn_heap := [0 \<mapsto> ?c], conn_ev := t\<rparr>)" (is "worker_wf ?w")
    using sample_worker_wf [of ?c] by (auto simp: conn_ids_def sample_connection_def)
  from timed_out_connection_is_closed [OF wf _ _ _ sample_connection_wf, of 0 0 CON_STATE_CLOSE idle_os]
  have "returns (timer_step 0 ?w idle_os) (\<lambda>(w1, os1). keeps ?w w1 \<and> closed_by ?w 0 7 idle_os w1 os1)"
    by (simp add: sample_worker_def sample_connection_def MINIHTTPD_CLOSE_TIMEOUT_def)
  then obtain w1 os1 where "timer_step 0 ?w idle_os = Inr (w1, os1)" "closed_by ?w 0 7 idle_os w1 os1" by (auto simp: returns_iff)
  moreover have "conn_heap ?w 0 \<noteq> None" by simp
  ultimately show ?thesis by blast
qed

theorem idle_connection_is_shut_down_witness:
  "\<exists>w w1 os1. timer_step 0 w idle_os = Inr (w1, os1) \<and> (closed_by w 0 7 (sys_emit [Shut_wr 7] idle_os) w1 os1 \<or>
    (\<exists>c1. waits_for_close w 0 c1 (sys_emit [Shut_wr 7] idle_os) w1 os1))"
proof -
  let ?c = "(sample_connection [])\<lparr>state := CON_STATE_READ\<rparr>"
  obtain t where wf0: "worker_wf (sample_worker\<lparr>conn_heap := [0 \<mapsto> ?c], conn_ev := t\<rparr>)" (is "worker_wf ?w0")
    using sample_worker_wf [of ?c] by (auto simp: conn_ids_def sample_connection_def)
  let ?w = "?w0\<lparr>cur_ts := 1000000\<rparr>"
  have wf: "worker_wf ?w" by (rule keeps_wf [OF keeps_ts [OF wf0]])
  from idle_connection_is_shut_down [OF wf _ _ _ sample_connection_wf, of 0 0 CON_STATE_READ idle_os]
  have "returns (timer_step 0 ?w idle_os) (\<lambda>(w1, os1). keeps ?w w1 \<and> (let os0 = sys_emit [Shut_wr 7] idle_os
     in closed_by ?w 0 7 os0 w1 os1 \<or> (\<exists>c1. waits_for_close ?w 0 c1 os0 w1 os1)))"
    by (simp add: sample_worker_def sample_connection_def named_config_def sample_config_def server_config_init_def)
  then show ?thesis by (auto simp: returns_iff Let_def)
qed

theorem stale_event_ends_worker_witness:
  "\<exists>w w1 os1. worker_batch [(sample_connection [], 4, EPOLLIN)] w idle_os = Inr (w1, os1) \<and>
    worker_batch [(sample_connection [], 4, EPOLLIN), (sample_connection [], 7, EPOLLIN)] w idle_os = Inl AssertFailed"
proof -
  let ?c = "(sample_connection [])\<lparr>state := CON_STATE_CLOSE\<rparr>"
  obtain t where wf: "worker_wf (sample_worker\<lparr>conn_heap := [0 \<mapsto> ?c], conn_ev := t\<rparr>)" (is "worker_wf ?w")
    and n: "node_of t 4 = Some \<lparr>node_fd = 4, handler_ctx = Ctx_worker, handler = Worker_timer_expire_handler, events = 0\<rparr>"
    using sample_worker_wf [of ?c] by (auto simp: conn_ids_def sample_connection_def)
  let ?w1 = "?w\<lparr>cur_ts := 100\<rparr>" and ?os = "sys_tick (sys_tick idle_os)"
  have wf1: "worker_wf ?w1" by (rule keeps_wf [OF keeps_ts [OF wf]])
  from timer_closes [OF wf1 _ _ _ sample_connection_wf, of 0 0 CON_STATE_CLOSE ?os]
  obtain w1 os1 where s: "timer_step 0 ?w1 ?os = Inr (w1, os1)" "closed_by ?w1 0 7 ?os w1 os1"
    by (auto simp: sample_worker_def sample_connection_def MINIHTTPD_CLOSE_TIMEOUT_def returns_iff)
  have "ev_wf (conn_ev ?w)" using wf by (simp add: worker_wf_def synced_def)
  then have look: "fdevents_get_handle t 4 = Inr Worker_timer_expire_handler" "fdevents_get_context t 4 = Inr Ctx_worker"
    using lookup_ok [OF _ n] by simp_all
  have "worker_event (sample_connection []) 4 EPOLLIN ?w idle_os = Inr (w1, os1)"
    using s(1) by (simp add: worker_event_def look worker_timer_expire_handler_def sys_read_def sys_time_def idle_os_def
        sample_os_def sys_tick_def sample_worker_def)
  then have b: "worker_batch [(sample_connection [], 4, EPOLLIN)] ?w idle_os = Inr (w1, os1)" by simp
  have "closed_by ?w 0 (conn_socket_fd ?c) idle_os w1 os1" using s(2) by (simp add: closed_by_def sample_connection_def)
  moreover have "conn_heap ?w 0 = Some ?c" "conn_socket_fd ?c = 7" by (simp_all add: sample_connection_def)
  ultimately have "worker_batch ([(sample_connection [], 4, EPOLLIN)] @ [(sample_connection [], 7, EPOLLIN)]) ?w idle_os = Inl AssertFailed"
    using stale_event_ends_worker [OF wf b, of 0 ?c "sample_connection []" EPOLLIN] by (simp only:)
  with b show ?thesis unfolding append_Cons append_Nil by blast
qed

section \<open>The end of a worker\<close>

text \<open>
  What the worker does after its loop, up to \<open>exit\<close>: the table of connections is freed, the descriptors of the timer and
  the unix socket leave the event table and are closed, and the epoll descriptor and the log file are closed.
\<close>

definition worker_free_connectons :: "worker \<Rightarrow> worker" where
  "worker_free_connectons w = w\<lparr>conn_slots := []\<rparr>"

definition worker_stop :: "int \<Rightarrow> int \<Rightarrow> int \<Rightarrow> worker \<Rightarrow> os_env \<Rightarrow> fault + (worker \<times> os_env)" where
  "worker_stop timer_fd epoll_fd log_fd w os =
     andthen (fdevents_unset_event (conn_ev w) timer_fd) (\<lambda>ev1.
     andthen (fdevents_unregister_fd ev1 timer_fd) (\<lambda>ev2.
     andthen (fdevents_unset_event ev2 (unix_domain_socekt_fd w)) (\<lambda>ev3.
     andthen (fdevents_unregister_fd ev3 (unix_domain_socekt_fd w)) (\<lambda>ev4.
     Inr ((worker_free_connectons w)\<lparr>conn_ev := ev4\<rparr>,
          sys_close (sys_close (sys_close (sys_close os timer_fd) (unix_domain_socekt_fd w)) epoll_fd) log_fd)))))"

lemma no_connection_left:
  assumes "worker_wf w" and "cur_connection_number w = 0"
  shows "conn_heap w = (\<lambda>a. None)"
  using heap_count [OF assms(1)] assms(2) by auto

lemma worker_loop_over:
  "worker_loop rounds w os = Inr (over, w1, os1) \<Longrightarrow> over \<Longrightarrow> cur_connection_number w1 = 0"
  by (induction rounds w os rule: worker_loop.induct) (auto simp: andthen_Inr_iff word_gt_0 split: if_splits)

lemma only_own_descriptors:
  assumes "worker_wf w" and "cur_connection_number w = 0" and "own_handler w = own_handler w0"
    and "binding (conn_ev w0) = [f \<mapsto> (h, Ctx_worker), g \<mapsto> (k, Ctx_worker)]"
  shows "binding (conn_ev w) = binding (conn_ev w0)"
proof (rule ext)
  fix x
  have "own_handler w x = own_handler w0 x" using assms(3) by simp
  then have own: "binding (conn_ev w) x = Some (e, Ctx_worker) \<longleftrightarrow> binding (conn_ev w0) x = Some (e, Ctx_worker)" for e
    by (simp add: own_handler_def fun_eq_iff)
  have none: "binding (conn_ev w) x \<noteq> Some (e, Ctx_connection a)" for e a
    using worker_wfD(4) [OF assms(1)] no_connection_left [OF assms(1,2)] by (fastforce simp: bindings_ok_def)
  show "binding (conn_ev w) x = binding (conn_ev w0) x"
  proof (cases "binding (conn_ev w) x")
    case None
    with own [of h] own [of k] show ?thesis by (simp add: assms(4) None split: if_splits)
  next
    case (Some y)
    obtain e z where y: "y = (e, z)" by (cases y)
    show ?thesis
    proof (cases z)
      case Ctx_worker
      with Some y own [of e] show ?thesis by simp
    qed (use Some y none in auto)
  qed
qed

text \<open>
  A worker whose loop has ended has no connection left, and it takes its own two descriptors out of the event
  table without a failed assertion: at its exit no descriptor is registered and epoll watches none.
\<close>

theorem worker_stops_clean:
  assumes "worker_start epoll_create process_id unix_fd config limit timer_fd os = Inr (w0, os0)"
    and "worker_loop rounds w0 os0 = Inr (True, w, os1)"
  shows "conn_heap w = (\<lambda>a. None) \<and> (\<exists>w' os'. worker_stop timer_fd epoll_fd log_fd w os1 = Inr (w', os') \<and>
    (\<forall>f. node_of (conn_ev w') f = None \<and> interest (conn_ev w') f = None) \<and>
    trace os' = trace os1 @ [Closed timer_fd, Closed unix_fd, Closed epoll_fd, Closed log_fd])"
proof -
  note s = worker_start_wf [OF assms(1)]
  have k: "keeps w0 w" using ensuresD [OF worker_loop_keeps assms(2)] s by simp
  note wf = keeps_wf [OF k]
  have zero: "cur_connection_number w = 0" using worker_loop_over [OF assms(2)] by simp
  have same: "own_handler w = own_handler w0" "unix_domain_socekt_fd w = unix_fd" using k s by (simp_all add: keeps_def same_worker_def)
  have ne: "timer_fd \<noteq> unix_fd" using s by simp
  have b: "binding (conn_ev w) = [unix_fd \<mapsto> (Unix_domain_socket_handle, Ctx_worker), timer_fd \<mapsto> (Worker_timer_expire_handler, Ctx_worker)]"
    using only_own_descriptors [OF wf zero same(1)] s by simp
  note sy = worker_wfD(1) [OF wf]
  obtain n where "node_of (conn_ev w) timer_fd = Some n" using b by (auto simp: binding_def fun_eq_iff dest!: spec [of _ timer_fd])
  from close_returns [OF sy this] obtain t1 t2 where t: "fdevents_unset_event (conn_ev w) timer_fd = Inr t1"
      "fdevents_unregister_fd t1 timer_fd = Inr t2" by blast
  have b2: "synced t2" "binding t2 = [unix_fd \<mapsto> (Unix_domain_socket_handle, Ctx_worker)]"
    using close_binding [OF sy t] b ne by (auto simp: fun_eq_iff)
  obtain m where "node_of t2 unix_fd = Some m" using b2(2) by (auto simp: binding_def fun_eq_iff dest!: spec [of _ unix_fd])
  from close_returns [OF b2(1) this] obtain t3 t4 where u: "fdevents_unset_event t2 unix_fd = Inr t3"
      "fdevents_unregister_fd t3 unix_fd = Inr t4" by blast
  have b4: "synced t4" "binding t4 = (\<lambda>f. None)"
    using close_binding [OF b2(1) u] b2(2) by (auto simp: fun_eq_iff)
  have "binding t4 f = None" for f using b4(2) by simp
  then have "node_of t4 f = None" for f by (simp add: binding_def)
  moreover from this have "interest t4 f = None" for f using b4(1) by (simp add: synced_def interest_ok_def)
  ultimately show ?thesis
    using t u same(2) no_connection_left [OF wf zero] by (simp add: worker_stop_def sys_close_def)
qed

theorem worker_stops_clean_witness:
  "\<exists>w0 os0 w' os'. worker_start (\<lambda>_. 5) 0 3 named_config 16 4 started_os = Inr (w0, os0) \<and>
    worker_loop [(True, [])] w0 os0 = Inr (True, w0, os0) \<and> worker_stop 4 5 6 w0 os0 = Inr (w', os') \<and>
    (\<forall>f. node_of (conn_ev w') f = None \<and> interest (conn_ev w') f = None)"
proof -
  obtain w0 os0 where s: "worker_start (\<lambda>_. 5) 0 3 named_config 16 4 started_os = Inr (w0, os0)" using start_returns by blast
  then have l: "worker_loop [(True, [])] w0 os0 = Inr (True, w0, os0)" using worker_start_wf [OF s] by simp
  from worker_stops_clean [OF s l, of 5 6] s l show ?thesis by blast
qed

end
