(* ===== verification/Serve.thy ===== *)
theory Serve
  imports Worker
begin

text \<open>
  What a client sees: the state machine of \<open>src/connection.cpp\<close> run on a whole request. A reference
  definition, \<open>reply_to\<close>, says what the answer to a request is from the request, the configuration and the file
  system alone; the theorems show that the machine, with the parser, the response code and the writing code it
  calls, puts exactly this answer into the send queue, and sends exactly its bytes. The theory adds no code.
\<close>

section \<open>The reference\<close>

text \<open>A reply: the status, the content type the handler has found, and the body it has queued.\<close>

type_synonym reply = "u32 \<times> string option \<times> piece list"

definition resource :: "string \<Rightarrow> mime_table \<Rightarrow> file_system \<Rightarrow> string \<Rightarrow> reply" where
  "resource root t fs u = (let path = full_path root (url_path u) in
     case os_stat fs path of
       Inl e \<Rightarrow> (errno_status e, None, [])
     | Inr st \<Rightarrow>
         (case st_kind st of
            Regular \<Rightarrow> (200, mime_lookup (entry t) path, file_pieces path (st_size st))
          | Directory \<Rightarrow> (200, Some ''text/html'', [Mem 0 (directory_page fs path (url_path u))])
          | Other_Kind \<Rightarrow> (403, None, [])))"

text \<open>A request of HTTP 1.1 has to name a host; whether the connection stays open depends on the version.\<close>

definition reply_to :: "string \<Rightarrow> mime_table \<Rightarrow> file_system \<Rightarrow> string \<Rightarrow> http_version_t \<Rightarrow> (string \<times> string) list \<Rightarrow> bool \<times> reply" where
  "reply_to root t fs u v opts =
     (case foldl option_effect (HTTP_CONNECTION_UNSET, None, None) opts of (ka, h, g) \<Rightarrow>
        if v = HTTP_VERSION_1_1 \<and> h = None then (False, 400, None, [])
        else (if v = HTTP_VERSION_1_1 then ka \<noteq> HTTP_CONNECTION_CLOSE else ka = HTTP_CONNECTION_KEEP_ALIVE,
              resource root t fs u))"

definition reason :: "u32 \<Rightarrow> string" where
  "reason s = (case query_http_status_string s of None \<Rightarrow> [] | Some (k, msg) \<Rightarrow> msg)"

text \<open>The head and the body that are sent.\<close>

definition reply_pieces :: "http_version_t \<Rightarrow> bool \<times> reply \<Rightarrow> string \<Rightarrow> string \<Rightarrow> piece list" where
  "reply_pieces v r date name = (case r of (keep, s, ty, ws) \<Rightarrow>
     let body = body_pieces s (reason s) ws in
     Mem 0 (head_text v s (reason s) keep (of_nat (queue_bytes body + queue_sent body)) (body_type s ty) date name) # body)"

section \<open>The handler and the reference\<close>

lemma errno_statuses: "errno_status e \<in> {403, 404, 500}"
  by (cases e) (simp_all add: errno_status_def)

lemma errno_error: "is_error_status (errno_status e)"
  by (cases e) (simp_all add: errno_status_def is_error_status_def)

lemma not_error_status [simp]: "\<not> is_error_status 0" "\<not> is_error_status 200"
  by (simp_all add: is_error_status_def)

lemma resource_status: "resource root t fs u = (s, ty, ws) \<Longrightarrow> s \<in> {200, 403, 404, 500}"
  using errno_statuses by (auto simp: resource_def Let_def split: sum.splits file_kind.splits)

lemma known_status:
  "s \<in> {200, 400, 403, 404, 414, 500, 501} \<Longrightarrow> query_http_status_string s = Some (s, reason s)"
  by (auto simp: reason_def query_http_status_string_def http_status_table_def)

lemma answered_resource:
  assumes "answered root t fs u conn ws rc conn'" and "resource root t fs u = (s, ty, body)"
  shows "\<exists>rc0. handled conn rc0 s ty (ws @ body) rc conn' \<and> (rc0 = 0 \<or> is_error_status s)"
  using assms errno_error
  by (cases "os_stat fs (full_path root (url_path u))")
    (auto simp: answered_def resource_def Let_def is_error_status_def [of 403] split: file_kind.splits)

text \<open>What the theorems ask of the site: the configuration, and a file system that answers as documented.\<close>

definition site_ok :: "server_config \<Rightarrow> string \<Rightarrow> mime_table \<Rightarrow> string \<Rightarrow> file_system \<Rightarrow> bool" where
  "site_ok config root t name fs \<longleftrightarrow> config_ok config root t \<and> server_name_is config name \<and> support_http_1_1 config \<noteq> 0 \<and>
     answers_strings fs \<and> (\<forall>ts. length (os_strftime fs ts) < 128) \<and>
     (\<forall>p st. os_stat fs p = Inr st \<longrightarrow> 0 \<le> st_size st \<and> st_size st < 2 ^ 32)"

text \<open>A directory is asked for by a non-empty path, and its page fits in a buffer.\<close>

definition url_ok :: "string \<Rightarrow> file_system \<Rightarrow> string \<Rightarrow> bool" where
  "url_ok root fs u \<longleftrightarrow> length root + length u + 2000 < buffer_max \<and>
     (\<forall>st. os_stat fs (full_path root (url_path u)) = Inr st \<longrightarrow> st_kind st = Directory \<longrightarrow>
        url_path u \<noteq> [] \<and> length (directory_page fs (full_path root (url_path u)) (url_path u)) < buffer_max)"

lemma resource_type:
  assumes "config_ok config root t" and "resource root t fs u = (s, Some ty, ws)"
  shows "NUL \<notin> set ty \<and> length ty < 1024"
  using assms mime_lookup_in [of "entry t" _ ty]
  by (fastforce simp: resource_def config_ok_def Let_def split: sum.splits file_kind.splits)

section \<open>The options of a request\<close>

lemma option_effect_bound:
  assumes "\<forall>s. h = Some s \<longrightarrow> length s \<le> n" and "\<forall>s. g = Some s \<longrightarrow> length s \<le> n" and "length (snd kv) \<le> n"
    and "option_effect (ka, h, g) kv = (ka', h', g')"
  shows "(\<forall>s. h' = Some s \<longrightarrow> length s \<le> n) \<and> (\<forall>s. g' = Some s \<longrightarrow> length s \<le> n)"
  using assms by (cases kv) (auto split: if_splits)

lemma options_bound:
  assumes "foldl option_effect (HTTP_CONNECTION_UNSET, None, None) opts = (ka, h, g)"
  shows "(\<forall>s. h = Some s \<longrightarrow> length s \<le> length (concat (map render_option opts))) \<and>
    (\<forall>s. g = Some s \<longrightarrow> length s \<le> length (concat (map render_option opts)))"
  using assms
proof (induction opts arbitrary: ka h g rule: rev_induct)
  case (snoc kv opts)
  let ?n = "length (concat (map render_option (opts @ [kv])))"
  obtain ka0 h0 g0 where o: "foldl option_effect (HTTP_CONNECTION_UNSET, None, None) opts = (ka0, h0, g0)"
    by (cases "foldl option_effect (HTTP_CONNECTION_UNSET, None, None) opts") auto
  have "length (snd kv) \<le> ?n" by (simp add: render_option_def)
  moreover have "\<forall>s. h0 = Some s \<longrightarrow> length s \<le> ?n" "\<forall>s. g0 = Some s \<longrightarrow> length s \<le> ?n"
    using snoc.IH [OF o] by fastforce+
  ultimately show ?case using option_effect_bound [of h0 ?n g0 kv ka0 ka h g] snoc.prems o by simp
qed simp

lemma holds_field_bound:
  assumes "holds_field b f" and "buffer_holds b s" and "\<forall>x. f = Some x \<longrightarrow> length x \<le> n"
  shows "length s \<le> n"
proof (cases f)
  case None
  with assms(1,2) have "s = []" by (simp add: holds_field_def buffer_holds_empty)
  then show ?thesis by simp
next
  case (Some x)
  with assms(1) have "buffer_holds b x" by (simp add: holds_field_def text_buffer_holds)
  then have "s = x" using assms(2) buffer_holds_unique by blast
  with assms(3) Some show ?thesis by simp
qed

section \<open>From the request to the reply\<close>

text \<open>A connection that waits for a request, of which \<open>received\<close> has arrived.\<close>

definition awaiting :: "connection \<Rightarrow> string \<Rightarrow> bool" where
  "awaiting c received \<longleftrightarrow> state c = CON_STATE_READ \<and> connection_wf c \<and> fresh_request (connection_request c) \<and>
     (\<exists>ss. read_queue (readqueue c) ss \<and> concat ss = received) \<and> queue_rel (writequeue c) [] \<and> \<not> writeable c"

text \<open>A request as it is rendered: what \<open>arrives\<close> asks of its parts.\<close>

definition request_ok :: "string \<Rightarrow> string \<Rightarrow> http_version_t \<Rightarrow> (string \<times> string) list \<Rightarrow> bool" where
  "request_ok m u v opts \<longleftrightarrow> m \<in> {''GET'', ''POST''} \<and> plain_field u \<and> v \<in> {HTTP_VERSION_1_0, HTTP_VERSION_1_1} \<and>
     list_all plain_option opts \<and> 4 * length (render_request m u v opts) + 400 < buffer_max"

lemma render_parts:
  "length m + length u + length (concat (map render_option opts)) \<le> length (render_request m u v opts)"
  by (simp add: render_request_def request_line_def)

lemma request_end_step:
  assumes "state c = CON_STATE_REQUEST_END" and "connection_wf c" and "fresh_request (connection_request c)"
    and "text_buffer (request_content (connection_request c)) (render_request m u v opts)" and ok: "request_ok m u v opts"
    and "support_http_1_1 config \<noteq> 0" and q: "queue_rel (writequeue c) []"
    and eff: "foldl option_effect (HTTP_CONNECTION_UNSET, None, None) opts = (ka, h, g)"
  shows "returns (state_request_end config c) (\<lambda>c1. state c1 = CON_STATE_HANDLE_REQUEST \<and> connection_wf c1 \<and>
    conn_ids c1 = conn_ids c \<and> queue_rel (writequeue c1) [] \<and> writeable c1 = writeable c \<and>
    http_response_body_finished c1 = http_response_body_finished c \<and>
    text_buffer (request_url (connection_request c1)) u \<and> http_version (connection_request c1) = v \<and>
    (if v = HTTP_VERSION_1_1 \<and> h = None then http_status c1 = 400 \<and> \<not> keep_alive c1
     else http_status c1 = 0 \<and> (keep_alive c1 \<longleftrightarrow>
        (if v = HTTP_VERSION_1_1 then ka \<noteq> HTTP_CONNECTION_CLOSE else ka = HTTP_CONNECTION_KEEP_ALIVE))))"
proof -
  let ?r = "connection_request c" and ?s = "render_request m u v opts"
  let ?r1 = "?r\<lparr>http_method := buffer_reset (http_method ?r), http_version := HTTP_VERSION_UNSET,
                 http_range := buffer_reset (http_range ?r), hostname := buffer_reset (hostname ?r),
                 request_url := buffer_reset (request_url ?r)\<rparr>"
  let ?c = "c\<lparr>connection_request := ?r1, http_status := 0\<rparr>"
  have wf: "request_wf ?r" using assms(3) by (simp add: fresh_request_def)
  have wf1: "request_wf ?r1" using wf by (auto simp: request_wf_def intro: exI [of _ "[]"])
  have f1: "fresh_request (connection_request ?c)" using assms(3) wf1 by (simp add: fresh_request_def buffer_reset_def)
  have t1: "text_buffer (request_content (connection_request ?c)) ?s" using assms(4) by simp
  have small: "length ?s < buffer_max" using ok by (simp add: request_ok_def)
  have first: "?s = [] \<or> hd ?s \<notin> {CHR '' '', NUL}" using ok by (auto simp: request_ok_def render_request_def request_line_def)
  obtain rc c1 where p: "http_reuqest_parse config ?c = Inr (rc, c1)" "parsed_as m u v (ka, h, g) rc c1"
    using parse_rendered_returns [OF f1 t1 small _ _ _ _ assms(6)] ok eff by (auto simp: returns_iff request_ok_def)
  have "verdict ?s ?c (rc, c1)"
    using http_reuqest_parse_returns [of ?c ?s config, OF _ text_buffer_holds [OF t1] small first] wf1 p(1)
    by (auto simp: returns_iff buffer_is_empty_def buffer_reset_def)
  then have v: "same_but_request ?c c1" "request_wf (connection_request c1)" "rc = 0 \<longrightarrow> http_status c1 = 0"
    by (auto simp: verdict_def accepted_def line_parsed_def)
  have log: "\<exists>b. (if rc = 0 then andthen (log_parsed_request (connection_request c1)) (\<lambda>b. Inr ()) else Inr ()) = Inr b"
  proof -
    obtain bm bu bh bg where b: "buffer_holds (http_method (connection_request c1)) bm"
        "buffer_holds (request_url (connection_request c1)) bu" "buffer_holds (hostname (connection_request c1)) bh"
        "buffer_holds (http_range (connection_request c1)) bg"
      using v(2) by (auto simp: request_wf_def)
    have f: "text_buffer (http_method (connection_request c1)) m" "text_buffer (request_url (connection_request c1)) u"
        "holds_field (hostname (connection_request c1)) h" "holds_field (http_range (connection_request c1)) g"
      using p(2) by (simp_all add: parsed_as_def Let_def)
    have "bm = m" "bu = u"
      using buffer_holds_unique [OF b(1) text_buffer_holds [OF f(1)]] buffer_holds_unique [OF b(2) text_buffer_holds [OF f(2)]] .
    moreover have "length bh \<le> length (concat (map render_option opts))" "length bg \<le> length (concat (map render_option opts))"
      using holds_field_bound [OF f(3) b(3)] holds_field_bound [OF f(4) b(4)] options_bound [OF eff] by blast+
    ultimately have "length bm + length bu + length bh + length bg + 400 < buffer_max"
      using ok render_parts [of m u opts v] by (simp add: request_ok_def)
    from log_parsed_request_holds [OF b this] show ?thesis by (auto simp: returns_iff)
  qed
  have "connection_wf c1" using v assms(2) by (auto simp: same_but_request_def connection_wf_def)
  then show ?thesis using p v log q
    by (auto simp: state_request_end_def Let_def parsed_as_def same_but_request_def conn_ids_def connection_set_state_def
        connection_wf_def split: if_splits)
qed

lemma handled_type:
  assumes "handled conn rc0 s ty ws rc conn'" and "used_bytes (content_type (connection_response conn)) = 0"
    and "\<forall>t. ty = Some t \<longrightarrow> NUL \<notin> set t \<and> length t < 1024"
  shows "content_type_is conn' ty"
  using assms by (auto simp: content_type_is_def handled_def holds_field_def split: option.splits)

lemma handle_request_step:
  assumes "connection_wf c" and q: "queue_rel (writequeue c) []" and site: "site_ok config root t name (os_files os)"
    and url: "text_buffer (request_url (connection_request c)) u" "NUL \<notin> set u" and uok: "url_ok root (os_files os) u"
    and st: "is_error_status (http_status c) \<and> r = (http_status c, None, []) \<or>
      http_status c = 0 \<and> r = resource root t (os_files os) u"
  shows "returns (state_handle_request config c os) (\<lambda>c1. state c1 = CON_STATE_RESPONSE_START \<and> connection_wf c1 \<and>
    conn_ids c1 = conn_ids c \<and> writeable c1 = writeable c \<and> keep_alive c1 = keep_alive c \<and>
    http_version (connection_request c1) = http_version (connection_request c) \<and>
    (case r of (s, ty, ws) \<Rightarrow> http_status c1 = s \<and> queue_rel (writequeue c1) ws \<and> content_type_is c1 ty \<and>
       (http_response_body_finished c1 \<or> is_error_status s)))"
proof -
  let ?c = "c\<lparr>connection_response := response_initialize\<rparr>"
  have wf: "connection_wf ?c" using assms(1) by (simp add: connection_wf_def)
  have unused: "used_bytes (content_type (connection_response ?c)) = 0" by (simp add: response_initialize_def)
  show ?thesis
  proof (cases "http_status c = 0")
    case False
    with st have s: "is_error_status (http_status c)" "r = (http_status c, None, [])" by auto
    then have set: "http_status c \<noteq> 0" "http_status c \<noteq> 200" by (auto simp: is_error_status_def)
    have "content_type_is ?c None" using unused by (simp add: content_type_is_def holds_field_def)
    then have "content_type_is (connection_set_state ?c CON_STATE_RESPONSE_START) None"
      by (simp add: content_type_is_def connection_set_state_def)
    with s set wf q show ?thesis
      by (simp add: state_handle_request_def http_request_handle_def connection_set_state_def conn_ids_def connection_wf_def)
  next
    case True
    obtain s ty ws where r: "resource root t (os_files os) u = (s, ty, ws)" by (cases "resource root t (os_files os) u") auto
    have "ready_for ?c u []" using wf url q True by (simp add: ready_for_def)
    then obtain rc c1 where h: "http_request_handle config (os_files os) ?c = Inr (rc, c1)"
        "answered root t (os_files os) u ?c [] rc c1"
      using http_request_handle_answered [of config root t ?c u "[]" "os_files os"] site uok
      by (auto simp: site_ok_def url_ok_def returns_iff)
    obtain rc0 where a: "handled ?c rc0 s ty ws rc c1" "rc0 = 0 \<or> is_error_status s"
      using answered_resource [OF h(2) r] by auto
    have ty: "\<forall>x. ty = Some x \<longrightarrow> NUL \<notin> set x \<and> length x < 1024"
      using resource_type [of config root t] r site by (auto simp: site_ok_def)
    have ct: "content_type_is (connection_set_state c1 CON_STATE_RESPONSE_START) ty"
      using handled_type [OF a(1) unused ty] by (simp add: content_type_is_def connection_set_state_def)
    have "r = (s, ty, ws)" using st True r by auto
    with h(1) a ct show ?thesis
      by (auto simp: state_handle_request_def handled_def connection_set_state_def conn_ids_def connection_wf_def)
  qed
qed

lemma response_start_step:
  assumes "connection_wf c" and "http_status c = s" and "s \<in> {200, 400, 403, 404, 414, 500, 501}" and "queue_rel (writequeue c) ws"
    and "content_type_is c ty" and "http_response_body_finished c \<or> is_error_status s"
    and site: "site_ok config root t name (os_files os)"
  shows "returns (state_response_start config c os) (\<lambda>(c1, os1). os1 = sys_tick os \<and> state c1 = CON_STATE_WRITE \<and>
    connection_wf c1 \<and> conn_ids c1 = conn_ids c \<and> writeable c1 = writeable c \<and> keep_alive c1 = keep_alive c \<and>
    http_response_body_finished c1 \<and> queue_rel (writequeue c1)
      (reply_pieces (http_version (connection_request c)) (keep_alive c, s, ty, ws)
         (os_strftime (os_files os) (os_time os (os_calls os))) name))"
proof -
  have k: "query_http_status_string (response_status c) = Some (s, reason s)" "response_status c = s"
    using known_status [OF assms(3)] assms(2,3) by (auto simp: response_status_def)
  have wf: "response_wf (connection_response c)" using assms(1) by (simp add: connection_wf_def)
  have f: "http_response_body_finished c \<or> is_error_status (response_status c)" using assms(6) k(2) by simp
  have name: "server_name_is config name" and date: "NUL \<notin> set (os_strftime (os_files os) ts)" "length (os_strftime (os_files os) ts) < 128" for ts
    using site by (simp_all add: site_ok_def answers_strings_def)
  obtain c1 where c1: "connection_handle_prepare_response_head config c os = Inr (c1, sys_tick os)" "write_frame c c1"
      "http_response_body_finished c1" "response_wf (connection_response c1)"
      "queue_rel (writequeue c1) (response_pieces c (reason s) ty (os_strftime (os_files os) (os_time os (os_calls os))) name ws)"
    using connection_handle_prepare_response_head_ok [OF k(1) wf assms(5,4) f name date] by (auto simp: returns_iff)
  then have "connection_wf c1" using assms(1) by (auto simp: connection_wf_def write_frame_def)
  with c1 show ?thesis
    by (auto simp: state_response_start_def connection_set_state_def write_frame_def conn_ids_def connection_wf_def
        reply_pieces_def response_pieces_def k(2) Let_def)
qed

text \<open>The read that completes the head of a request.\<close>

lemma read_step:
  assumes a: "awaiting c received" and "readable c" and "read_answer os = Inr bs" and "bs \<noteq> []"
    and "read_fits os" and "length received + unat (read_request os) < buffer_max"
    and h: "head_of (received @ bs) = Some h"
  shows "returns (connection_handle_read_state config ts c os) (\<lambda>(n, c1, os1). state c1 = CON_STATE_REQUEST_END \<and>
    connection_wf c1 \<and> fresh_request (connection_request c1) \<and> text_buffer (request_content (connection_request c1)) h \<and>
    queue_rel (writequeue c1) [] \<and> \<not> writeable c1 \<and> conn_ids c1 = conn_ids c \<and>
    writequeue c1 = writequeue c \<and> same_os os os1 \<and> trace os1 = trace os)"
proof -
  obtain ss where ss: "read_queue (readqueue c) ss" "concat ss = received" using a by (auto simp: awaiting_def)
  obtain n c1 os1 ss' where r: "connection_handle_read_state config ts c os = Inr (n, c1, os1)"
      "read_queue (readqueue c1) ss'" "read_outcome config received c (Inr bs) n c1" "read_frame c c1"
      "same_os os os1" "trace os1 = trace os"
    using connection_handle_read_state_ok [OF ss(1) assms(2), of os config ts] assms(3,5,6) ss(2) by (auto simp: returns_iff)
  have o: "state c1 = CON_STATE_REQUEST_END" "text_buffer (request_content (connection_request c1)) h"
    using r(3) h assms(4) by (simp_all add: read_outcome_def)
  have "connection_wf c" "fresh_request (connection_request c)" using a by (simp_all add: awaiting_def)
  moreover have "request_wf (connection_request c1)"
    using calculation r(4) by (simp add: connection_wf_def read_frame_def)
  ultimately have "connection_wf c1" "fresh_request (connection_request c1)"
    using r(2,4) by (auto simp: connection_wf_def read_frame_def read_queue_def fresh_request_def)
  with r o a show ?thesis by (auto simp: awaiting_def read_frame_def conn_ids_def)
qed

lemma read_head_length:
  assumes "head_of s = Some h"
  shows "length h \<le> length s"
  using assms by (auto simp: head_of_def)

text \<open>The memory maps of the send queue stay those of their files.\<close>

lemma handle_request_maps:
  assumes "queue_rel (writequeue c) []"
  shows "ensures (state_handle_request config c os) (\<lambda>c1. maps_ok contents (writequeue c1))"
proof -
  have m: "maps_ok contents (writequeue c)" by (rule empty_queue_maps_ok [OF assms])
  have fil: "ensures (chunkqueue_append_file (writequeue c) b off len) (maps_ok contents)" for b off len
    using append_file_maps_kept [OF _ assms] maps_kept_ok [OF _ m] by (auto intro: ensuresI)
  have page: "ensures (chunkqueue_append_buffer (writequeue c) b) (maps_ok contents)" for b
    using append_buffer_maps_kept maps_kept_ok [OF _ m] by (auto intro: ensuresI)
  have "ensures (http_request_handle config fs (c\<lparr>connection_response := response_initialize\<rparr>)) (\<lambda>(rc, c1). maps_ok contents (writequeue c1))" for fs
    using m by (auto simp: http_request_handle_def Let_def handle_regular_file_def handle_directory_def response_fail_def
        split: sum.split file_kind.split option.split intro!: ensures_any ensures_mono [OF fil] ensures_mono [OF page])
  then show ?thesis
    by (simp add: state_handle_request_def connection_set_state_def case_prod_beta')
qed

lemma response_start_maps:
  assumes "maps_ok contents (writequeue c)" and "http_status c \<notin> {204, 205, 304}"
  shows "ensures (state_response_start config c os) (\<lambda>(c1, os1). maps_ok contents (writequeue c1))"
proof -
  have app: "ensures (chunkqueue_append_buffer q b) (maps_ok contents)" if "maps_ok contents q" for q b
    using append_buffer_maps_kept maps_kept_ok [OF _ that] by (auto intro: ensuresI)
  have pre: "ensures (chunkqueue_prepend_buffer q b) (maps_ok contents)" if "maps_ok contents q" for q b
    using prepend_buffer_maps_kept maps_kept_ok [OF _ that] by (auto intro: ensuresI)
  have body: "ensures (response_custom_body c') (\<lambda>c1. maps_ok contents (writequeue c1))"
    if "maps_ok contents (writequeue c')" "http_status c' \<notin> {204, 205, 304}" for c'
  proof -
    have "ensures (andthen (append_error_page (http_status c') msg buffer_init) (\<lambda>b.
        andthen (chunkqueue_append_buffer (writequeue c') b) (\<lambda>q.
        andthen (buffer_copy_string (content_type (connection_response c')) (lit ''text/html'')) (\<lambda>ct.
        Inr (c'\<lparr>writequeue := q, http_response_body_finished := True,
          connection_response := (connection_response c')\<lparr>content_type := ct\<rparr>\<rparr>)))))
      (\<lambda>c1. maps_ok contents (writequeue c1))" for msg
      unfolding ensures_simps by (rule ensures_any, rule ensures_mono [OF app [OF that(1)]], rule ensures_any) simp
    then show ?thesis using that by (auto simp: response_custom_body_def simp del: ensures_simps(3) split: option.split)
  qed
  have head: "ensures (connection_write_response_head config c' os) (\<lambda>(c1, os1). maps_ok contents (writequeue c1))"
    if "maps_ok contents (writequeue c')" for c'
  proof -
    have "ensures (andthen (append_response_head config c' msg date buffer_init) (\<lambda>b.
        andthen (chunkqueue_prepend_buffer (writequeue c') b) (\<lambda>q. Inr (c'\<lparr>writequeue := q\<rparr>, os1))))
      (\<lambda>(c1, os1). maps_ok contents (writequeue c1))" for msg date and os1 :: os_env
      unfolding ensures_simps by (rule ensures_any, rule ensures_mono [OF pre [OF that]]) simp
    then show ?thesis
      by (auto simp: connection_write_response_head_def simp del: ensures_simps(3) split: option.split prod.split)
  qed
  have "ensures (connection_handle_prepare_response_head config c os) (\<lambda>(c1, os1). maps_ok contents (writequeue c1))"
    unfolding connection_handle_prepare_response_head_def ensures_simps
  proof (rule ensures_mono [OF body])
    fix c1 :: connection assume c1: "maps_ok contents (writequeue c1)"
    have "ensures (if http_response_body_finished c1
        then andthen (chunkqueue_length (writequeue c1)) (\<lambda>len.
             Inr (c1\<lparr>connection_response := (connection_response c1)\<lparr>content_length := len\<rparr>\<rparr>))
        else Inr c1) (\<lambda>c2. maps_ok contents (writequeue c2))"
      using c1 by (auto intro!: ensures_any)
    then show "ensures (if http_response_body_finished c1
        then andthen (chunkqueue_length (writequeue c1)) (\<lambda>len.
             Inr (c1\<lparr>connection_response := (connection_response c1)\<lparr>content_length := len\<rparr>\<rparr>))
        else Inr c1) (\<lambda>c2. ensures (connection_write_response_head config c2 os) (\<lambda>(c1, os1). maps_ok contents (writequeue c1)))"
      by (rule ensures_mono) (rule head)
  qed (use assms in auto)
  then show ?thesis by (simp add: state_response_start_def connection_set_state_def case_prod_beta')
qed

text \<open>A connection with a reply to send, of which \<open>vs\<close> is left.\<close>

definition responding :: "(string \<Rightarrow> string) \<Rightarrow> connection \<Rightarrow> piece list \<Rightarrow> bool" where
  "responding contents c vs \<longleftrightarrow> state c = CON_STATE_WRITE \<and> connection_wf c \<and> queue_rel (writequeue c) vs \<and>
     maps_ok contents (writequeue c) \<and> sendable contents vs \<and> http_response_body_finished c"

lemma serve_steps:
  assumes a: "awaiting c received" and "readable c" and "read_answer os = Inr bs" and "bs \<noteq> []"
    and "read_fits os" and "length received + unat (read_request os) < buffer_max"
    and "head_of (received @ bs) = Some (render_request m u v opts)" and ok: "request_ok m u v opts"
    and site: "site_ok (global_config w) root t name (os_files os)" and uok: "url_ok root (os_files os) u"
    and send: "\<forall>ts. sendable contents (reply_pieces v (reply_to root t (os_files os) u v opts) (os_strftime (os_files os) ts) name)"
  shows "\<exists>c1 os1 ts. machine_steps 4 (w, c, os) (w, c1, os1) \<and> same_os os os1 \<and> trace os1 = trace os \<and>
    conn_ids c1 = conn_ids c \<and> \<not> writeable c1 \<and> keep_alive c1 = fst (reply_to root t (os_files os) u v opts) \<and>
    responding contents c1 (reply_pieces v (reply_to root t (os_files os) u v opts) (os_strftime (os_files os) ts) name)"
proof -
  let ?config = "global_config w" and ?fs = "os_files os"
  obtain ka h g where eff: "foldl option_effect (HTTP_CONNECTION_UNSET, None, None) opts = (ka, h, g)"
    by (cases "foldl option_effect (HTTP_CONNECTION_UNSET, None, None) opts") auto
  obtain keep s ty ws where r: "reply_to root t ?fs u v opts = (keep, s, ty, ws)"
    by (cases "reply_to root t ?fs u v opts") auto
  have st: "state c = CON_STATE_READ" using a by (simp add: awaiting_def)
  obtain n c1 os1 where one: "connection_handle_read_state ?config (cur_ts w) c os = Inr (n, c1, os1)"
      "state c1 = CON_STATE_REQUEST_END" "connection_wf c1" "fresh_request (connection_request c1)"
      "text_buffer (request_content (connection_request c1)) (render_request m u v opts)"
      "queue_rel (writequeue c1) []" "\<not> writeable c1" "conn_ids c1 = conn_ids c" "same_os os os1" "trace os1 = trace os"
    using read_step [OF assms(1-7), of ?config "cur_ts w"] by (auto simp: returns_iff)
  have site1: "site_ok ?config root t name (os_files os1)" "url_ok root (os_files os1) u" "os_files os1 = ?fs"
    using site uok one(9) by (simp_all add: same_os_def)
  have http11: "support_http_1_1 ?config \<noteq> 0" using site by (simp add: site_ok_def)
  obtain c2 where two: "state_request_end ?config c1 = Inr c2" "state c2 = CON_STATE_HANDLE_REQUEST" "connection_wf c2"
      "conn_ids c2 = conn_ids c1" "queue_rel (writequeue c2) []" "writeable c2 = writeable c1"
      "text_buffer (request_url (connection_request c2)) u" "http_version (connection_request c2) = v"
      "if v = HTTP_VERSION_1_1 \<and> h = None then http_status c2 = 400 \<and> \<not> keep_alive c2
       else http_status c2 = 0 \<and> (keep_alive c2 \<longleftrightarrow>
         (if v = HTTP_VERSION_1_1 then ka \<noteq> HTTP_CONNECTION_CLOSE else ka = HTTP_CONNECTION_KEEP_ALIVE))"
    using request_end_step [OF one(2-5) ok http11 one(6) eff] by (auto simp: returns_iff)
  have k: "keep_alive c2 = keep" and ans: "is_error_status (http_status c2) \<and> (s, ty, ws) = (http_status c2, None, []) \<or>
      http_status c2 = 0 \<and> (s, ty, ws) = resource root t (os_files os1) u" and "http_status c2 \<in> {0, 400}"
    using two(9) r by (auto simp: reply_to_def eff site1(3) is_error_status_def split: if_splits)
  have nul: "NUL \<notin> set u" using ok by (auto simp: request_ok_def plain_field_def)
  obtain c3 where three: "state_handle_request ?config c2 os1 = Inr c3" "state c3 = CON_STATE_RESPONSE_START" "connection_wf c3"
      "conn_ids c3 = conn_ids c2" "writeable c3 = writeable c2" "keep_alive c3 = keep_alive c2"
      "http_version (connection_request c3) = v" "http_status c3 = s" "queue_rel (writequeue c3) ws" "content_type_is c3 ty"
      "http_response_body_finished c3 \<or> is_error_status s"
    using handle_request_step [OF two(3,5) site1(1) two(7) nul site1(2) ans] two(8) by (auto simp: returns_iff)
  have status: "s \<in> {200, 400, 403, 404, 414, 500, 501}"
    using ans \<open>http_status c2 \<in> {0, 400}\<close> resource_status [of root t "os_files os1" u s ty ws] by auto
  let ?ts = "os_time os1 (os_calls os1)"
  have pieces: "reply_pieces (http_version (connection_request c3)) (keep_alive c3, s, ty, ws) (os_strftime (os_files os1) ?ts) name =
      reply_pieces v (reply_to root t ?fs u v opts) (os_strftime ?fs ?ts) name"
    using three(6,7) k r site1(3) by simp
  obtain c4 where four: "state_response_start ?config c3 os1 = Inr (c4, sys_tick os1)" "state c4 = CON_STATE_WRITE" "connection_wf c4"
      "conn_ids c4 = conn_ids c3" "writeable c4 = writeable c3" "keep_alive c4 = keep_alive c3" "http_response_body_finished c4"
      "queue_rel (writequeue c4) (reply_pieces v (reply_to root t ?fs u v opts) (os_strftime ?fs ?ts) name)"
    using response_start_step [OF three(3,8) status three(9,10,11) site1(1)] unfolding pieces by (auto simp: returns_iff)
  have "maps_ok contents (writequeue c3)" using ensuresD [OF handle_request_maps [OF two(5)] three(1)] .
  then have maps: "maps_ok contents (writequeue c4)"
    using ensuresD [OF response_start_maps four(1)] three(8) status by auto
  have "connection_machine_step w c os = Inr (w, c1, os1)" "connection_machine_step w c1 os1 = Inr (w, c2, os1)"
      "connection_machine_step w c2 os1 = Inr (w, c3, os1)" "connection_machine_step w c3 os1 = Inr (w, c4, sys_tick os1)"
    using one(1) two(1) three(1) four(1) by (simp_all add: connection_machine_step_def st one(2) two(2) three(2))
  moreover have "state c1 \<noteq> state c" "state c2 \<noteq> state c1" "state c3 \<noteq> state c2" "state c4 \<noteq> state c3"
    unfolding st one(2) two(2) three(2) four(2) by simp_all
  ultimately have "machine_steps (Suc (Suc (Suc (Suc 0)))) (w, c, os) (w, c4, sys_tick os1)"
    by (intro machine_there) simp_all
  moreover have "responding contents c4 (reply_pieces v (reply_to root t ?fs u v opts) (os_strftime ?fs ?ts) name)"
    using four maps send by (simp add: responding_def)
  ultimately show ?thesis
    using one(7-10) two(4,6) three(4-6) four(4-6) k r
    by (intro exI [of _ c4] exI [of _ "sys_tick os1"] exI [of _ ?ts]) (simp add: eval_nat_numeral)
qed

section \<open>The events of a connection\<close>

text \<open>The sizes of a queue that can be sent fit the 32 bits of \<open>chunkqueue_length\<close>.\<close>

lemma responding_length:
  assumes "responding contents c vs"
  shows "chunkqueue_length (writequeue c) = Inr (of_nat (queue_bytes vs + queue_sent vs))"
    and "(of_nat (queue_bytes vs + queue_sent vs) :: u32) = 0 \<longleftrightarrow> queue_bytes vs + queue_sent vs = 0"
  using assms chunkqueue_length_rel [of "writequeue c" vs]
    unat_of_nat_u32 [of "queue_bytes vs + queue_sent vs"]
  by (auto simp: responding_def sendable_def unat_eq_0_iff [symmetric] simp del: of_nat_add)

lemma reply_nonempty: "0 < queue_bytes (reply_pieces v r date name)"
  using head_text_nonempty by (auto simp: reply_pieces_def Let_def queue_bytes_def split: prod.split)

lemma awaiting_readable: "awaiting (c\<lparr>readable := k\<rparr>) received = awaiting c received"
  by (simp add: awaiting_def connection_wf_def)

text \<open>A connection that waits in \<open>CON_STATE_WRITE\<close>: what the machine leaves behind.\<close>

lemma rests_writing:
  assumes "worker_wf w" and c: "conn_heap w a = Some c" and run: "machine_steps k (w, c, os) (w, c0, os0)"
    and step: "connection_machine_step w c0 os0 = Inr (w, c1, os1)" and "conn_ids c1 = conn_ids c"
    and "state c1 = state c0" and "responding contents c1 vs"
  shows "returns (connection_state_machine w a os) (\<lambda>(w1, os2). keeps w w1 \<and> os2 = os1 \<and>
    conn_heap w1 = (conn_heap w)(a \<mapsto> c1) \<and>
    (queue_bytes vs + queue_sent vs \<noteq> 0 \<and> \<not> writeable c1 \<longrightarrow>
       interest (conn_ev w1) (conn_socket_fd c) = Some (EPOLLOUT OR EPOLLERR OR EPOLLHUP)))"
proof -
  have fd: "conn_socket_fd c1 = conn_socket_fd c" using assms(5) by (simp add: conn_ids_def)
  note wf = worker_wfD [OF assms(1)]
  obtain n where n: "node_of (conn_ev w) (conn_socket_fd c) = Some n" by (rule live_node [OF assms(1) c])
  obtain t u where t: "fdevents_set_events (conn_ev w) (conn_socket_fd c) EPOLLOUT = Inr t"
      "node_of t = (node_of (conn_ev w))(conn_socket_fd c \<mapsto> n\<lparr>events := EPOLLOUT\<rparr>)"
    and u: "fdevents_unset_event (conn_ev w) (conn_socket_fd c) = Inr u"
    using set_events_ok [OF synced_wf [OF wf(1)] n, of EPOLLOUT] unset_event_ok [OF synced_wf [OF wf(1)] n]
    by (auto simp: returns_iff)
  have "synced t" using set_events_binding [OF wf(1) t(1)] by simp
  then have i: "interest t (conn_socket_fd c) = Some (EPOLLOUT OR EPOLLERR OR EPOLLHUP)"
    by (simp add: synced_def interest_ok_def t(2))
  have st: "state c1 = CON_STATE_WRITE" using assms(7) by (simp add: responding_def)
  from machine_rest [OF run step assms(6)]
  obtain w1 where m: "connection_state_machine w a os = Inr (w1, os1)" "conn_heap w1 = (conn_heap w)(a \<mapsto> c1)"
      "queue_bytes vs + queue_sent vs \<noteq> 0 \<and> \<not> writeable c1 \<longrightarrow> conn_ev w1 = t"
    using t(1) u responding_length [OF assms(7)]
    by (cases "queue_bytes vs + queue_sent vs \<noteq> 0 \<and> \<not> writeable c1")
      (auto simp: connection_state_machine_def c connection_machine_finish_def fd st simp del: of_nat_add)
  have "keeps w w1" using ensuresD [OF connection_state_machine_keeps [OF assms(1)] m(1)] by simp
  with m i show ?thesis by simp
qed

lemma request_is_answered:
  assumes wf: "worker_wf w" and c: "conn_heap w a = Some c" and a: "awaiting c received"
    and "read_answer os = Inr bs" and "bs \<noteq> []"
    and "read_fits os" and "length received + unat (read_request os) < buffer_max"
    and "head_of (received @ bs) = Some (render_request m u v opts)" and "request_ok m u v opts"
    and "site_ok (global_config w) root t name (os_files os)" and "url_ok root (os_files os) u"
    and send: "\<forall>ts. sendable contents (reply_pieces v (reply_to root t (os_files os) u v opts) (os_strftime (os_files os) ts) name)"
  shows "returns (connection_event_handle w a EPOLLIN os) (\<lambda>(w1, os1). keeps w w1 \<and> same_os os os1 \<and> trace os1 = trace os \<and>
    interest (conn_ev w1) (conn_socket_fd c) = Some (EPOLLOUT OR EPOLLERR OR EPOLLHUP) \<and>
    (\<exists>c1 ts. conn_heap w1 = (conn_heap w)(a \<mapsto> c1) \<and> conn_ids c1 = conn_ids c \<and>
       keep_alive c1 = fst (reply_to root t (os_files os) u v opts) \<and>
       responding contents c1 (reply_pieces v (reply_to root t (os_files os) u v opts) (os_strftime (os_files os) ts) name)))"
proof -
  let ?c = "c\<lparr>readable := True\<rparr>" and ?r = "reply_to root t (os_files os) u v opts"
  let ?w = "w\<lparr>conn_heap := (conn_heap w)(a \<mapsto> ?c)\<rparr>"
  have "state c = CON_STATE_READ" using a by (simp add: awaiting_def)
  then have k: "keeps w ?w" by (intro keeps_update [OF wf c]) simp_all
  note wf1 = keeps_wf [OF k]
  have a1: "awaiting ?c received" using a by (simp only: awaiting_readable)
  obtain c1 os1 ts where s: "machine_steps 4 (?w, ?c, os) (?w, c1, os1)" "same_os os os1" "trace os1 = trace os"
      "conn_ids c1 = conn_ids ?c" "\<not> writeable c1" "keep_alive c1 = fst ?r"
    and r: "responding contents c1 (reply_pieces v ?r (os_strftime (os_files os) ts) name)"
    using serve_steps [of ?c received os bs m u v opts ?w root t name contents] a1 assms(4-12) by auto
  let ?vs = "reply_pieces v ?r (os_strftime (os_files os) ts) name"
  have ne: "queue_bytes ?vs + queue_sent ?vs \<noteq> 0" using reply_nonempty [of v ?r _ name] by simp
  have st: "state c1 = CON_STATE_WRITE" using r by (simp add: responding_def)
  have "state_write (cur_ts ?w) c1 os1 = Inr (c1, os1)"
    using responding_length [OF r] ne s(5) by (simp add: state_write_def del: of_nat_add)
  then have "connection_machine_step ?w c1 os1 = Inr (?w, c1, os1)" by (simp add: connection_machine_step_def st)
  moreover have "conn_heap ?w a = Some ?c" by simp
  ultimately have "returns (connection_state_machine ?w a os) (\<lambda>(w1, os2). keeps ?w w1 \<and> os2 = os1 \<and>
      conn_heap w1 = (conn_heap ?w)(a \<mapsto> c1) \<and> (queue_bytes ?vs + queue_sent ?vs \<noteq> 0 \<and> \<not> writeable c1 \<longrightarrow>
       interest (conn_ev w1) (conn_socket_fd ?c) = Some (EPOLLOUT OR EPOLLERR OR EPOLLHUP)))"
    by (intro rests_writing [OF wf1 _ s(1) _ s(4) refl r])
  with ne s(5)
  obtain w1 where m: "connection_state_machine ?w a os = Inr (w1, os1)" "keeps ?w w1" "conn_heap w1 = (conn_heap w)(a \<mapsto> c1)"
      "interest (conn_ev w1) (conn_socket_fd c) = Some (EPOLLOUT OR EPOLLERR OR EPOLLHUP)"
    by (auto simp: returns_iff)
  have "connection_note_events EPOLLIN c os = (?c, os)" by (simp add: connection_note_events_def)
  then have "connection_event_handle w a EPOLLIN os = Inr (w1, os1)" using m(1) c by (simp add: connection_event_handle_def)
  then show ?thesis using m(2-4) s r keeps_trans [OF k m(2)]
    by (auto intro!: exI [of _ c1] exI [of _ ts])
qed

text \<open>From \<open>CON_STATE_CLOSE\<close> on, the connection is gone or waits to go.\<close>

definition closing :: "worker \<Rightarrow> addr \<Rightarrow> int \<Rightarrow> worker \<Rightarrow> bool" where
  "closing w a fd w1 \<longleftrightarrow> conn_heap w1 = (conn_heap w)(a := None) \<and> node_of (conn_ev w1) fd = None \<or>
     (\<exists>c1. conn_heap w1 = (conn_heap w)(a \<mapsto> c1) \<and> state c1 = CON_STATE_CLOSE \<and> connection_wf c1)"

lemma close_arrives:
  assumes "worker_wf w" and c: "conn_heap w a = Some c" and run: "machine_steps k (w, c, os) (w, c0, os0)"
    and "conn_ids c0 = conn_ids c" and "state c0 = CON_STATE_CLOSE" and "connection_wf c0"
  shows "returns (connection_state_machine w a os) (\<lambda>(w1, os1). keeps w w1 \<and> closing w a (conn_socket_fd c) w1 \<and>
    sent_on fd (trace os1) = sent_on fd (trace os0))"
proof (cases "close_timed_out w c0 \<or> read_ends os0")
  case True
  from closing_machine [OF assms(1) c run assms(4-6) True] show ?thesis
    by (rule returns_mono) (auto simp: closed_by_def closing_def)
next
  case False
  then have "\<not> close_timed_out w c0" "\<not> read_ends os0" by simp_all
  from waiting_machine [OF assms(1) c run assms(4,5) this] show ?thesis
    by (rule returns_mono) (use assms(5,6) in \<open>auto simp: closing_def\<close>)
qed

text \<open>The end of a response: the connection is reset for the next request, or shut down.\<close>

lemma response_end_step:
  assumes "state c = CON_STATE_RESPONSE_END" and "connection_wf c"
  obtains c1 where "connection_machine_step w c os =
      Inr (w, c1, if keep_alive c then os else sys_emit [Shut_wr (conn_socket_fd c)] (sys_tick os))"
    "connection_wf c1" "state c1 = (if keep_alive c then CON_STATE_REQUEST_START else CON_STATE_CLOSE)" "conn_ids c1 = conn_ids c"
    "\<not> readable c1" "\<not> writeable c1" "read_queue (readqueue c1) []" "queue_rel (writequeue c1) []" "fresh_request (connection_request c1)"
proof -
  have reset: "\<exists>c1. connection_reset c0 = Inr c1 \<and> connection_wf c1 \<and> state c1 = state c0 \<and> conn_ids c1 = conn_ids c \<and>
      \<not> readable c1 \<and> \<not> writeable c1 \<and> read_queue (readqueue c1) [] \<and> queue_rel (writequeue c1) [] \<and> fresh_request (connection_request c1)"
    if wf0: "connection_wf c0" and ids0: "conn_ids c0 = conn_ids c" for c0
  proof -
    obtain c1 where c1: "connection_reset c0 = Inr c1" "connection_wf c1" "state c1 = state c0" "conn_ids c1 = conn_ids c"
        "\<not> readable c1" "\<not> writeable c1" "queue_rel (readqueue c1) []" "queue_rel (writequeue c1) []"
      using connection_reset_wf [OF wf0] ids0 by (auto simp: returns_iff conn_ids_def)
    have "connection_request c1 = request_reset (connection_request c0)"
      using c1(1) by (auto simp: connection_reset_def andthen_Inr_iff)
    with c1 show ?thesis by (auto simp: read_queue_empty fresh_request_reset)
  qed
  show thesis
  proof (cases "keep_alive c")
    case True
    have "connection_wf (connection_set_state c CON_STATE_REQUEST_START)"
      using assms(2) by (simp add: connection_wf_def connection_set_state_def)
    from reset [OF this] obtain c1 where "connection_reset (connection_set_state c CON_STATE_REQUEST_START) = Inr c1"
        "connection_wf c1" "state c1 = CON_STATE_REQUEST_START" "conn_ids c1 = conn_ids c" "\<not> readable c1" "\<not> writeable c1"
        "read_queue (readqueue c1) []" "queue_rel (writequeue c1) []" "fresh_request (connection_request c1)" by auto
    with True assms(1) that show thesis by (simp add: connection_machine_step_def state_response_end_def)
  next
    case False
    let ?t = "if os_shutdown os (os_calls os) then cur_ts w else cur_ts w - (MINIHTTPD_CLOSE_TIMEOUT + 1)"
    have "connection_wf (connection_set_state (c\<lparr>close_timeout_ts := ?t\<rparr>) CON_STATE_CLOSE)"
      using assms(2) by (simp add: connection_wf_def connection_set_state_def)
    from reset [OF this] obtain c1 where "connection_reset (connection_set_state (c\<lparr>close_timeout_ts := ?t\<rparr>) CON_STATE_CLOSE) = Inr c1"
        "connection_wf c1" "state c1 = CON_STATE_CLOSE" "conn_ids c1 = conn_ids c" "\<not> readable c1" "\<not> writeable c1"
        "read_queue (readqueue c1) []" "queue_rel (writequeue c1) []" "fresh_request (connection_request c1)" by auto
    with False assms(1) that show thesis by (simp add: connection_machine_step_def state_response_end_def sys_shutdown_def)
  qed
qed

text \<open>A connection that has nothing to read: what the machine leaves behind.\<close>

lemma rests_reading:
  assumes "worker_wf w" and c: "conn_heap w a = Some c" and run: "machine_steps k (w, c, os) (w, c0, os0)"
    and "conn_ids c0 = conn_ids c" and "state c0 = CON_STATE_READ" and "\<not> readable c0"
  shows "returns (connection_state_machine w a os) (\<lambda>(w1, os1). keeps w w1 \<and> os1 = os0 \<and>
    conn_heap w1 = (conn_heap w)(a \<mapsto> c0) \<and> interest (conn_ev w1) (conn_socket_fd c) = Some (EPOLLIN OR EPOLLERR OR EPOLLHUP))"
proof -
  have fd: "conn_socket_fd c0 = conn_socket_fd c" using assms(4) by (simp add: conn_ids_def)
  note wf = worker_wfD [OF assms(1)]
  obtain n where n: "node_of (conn_ev w) (conn_socket_fd c) = Some n" by (rule live_node [OF assms(1) c])
  obtain t where t: "fdevents_set_events (conn_ev w) (conn_socket_fd c) EPOLLIN = Inr t"
      "node_of t = (node_of (conn_ev w))(conn_socket_fd c \<mapsto> n\<lparr>events := EPOLLIN\<rparr>)"
    using set_events_ok [OF synced_wf [OF wf(1)] n, of EPOLLIN] by (auto simp: returns_iff)
  have "synced t" using set_events_binding [OF wf(1) t(1)] by simp
  then have i: "interest t (conn_socket_fd c) = Some (EPOLLIN OR EPOLLERR OR EPOLLHUP)"
    by (simp add: synced_def interest_ok_def t(2))
  have "connection_machine_step w c0 os0 = Inr (w, c0, os0)"
    using assms(6) by (simp add: connection_machine_step_def assms(5) connection_handle_read_state_def)
  from machine_rest [OF run this refl]
  have m: "connection_state_machine w a os = Inr (w\<lparr>conn_heap := (conn_heap w)(a \<mapsto> c0), conn_ev := t\<rparr>, os0)"
    using t(1) by (simp add: connection_state_machine_def c connection_machine_finish_def fd assms(5))
  have "keeps w (w\<lparr>conn_heap := (conn_heap w)(a \<mapsto> c0), conn_ev := t\<rparr>)"
    using ensuresD [OF connection_state_machine_keeps [OF assms(1)] m] by simp
  with m i show ?thesis by simp
qed

text \<open>One round of sending.\<close>

lemma write_step:
  assumes r: "responding contents c vs" and "writeable c" and "writes_fit os" and "maps_files contents os"
  obtains c1 os1 ws bss where "connection_machine_step w c os = Inr (w, c1, os1)" "conn_ids c1 = conn_ids c" "same_os os os1"
    "trace os1 = trace os @ map (Sent (conn_socket_fd c)) bss" "queue_stream contents vs = concat bss @ queue_stream contents ws"
    "connection_wf c1" "keep_alive c1 = keep_alive c"
    "responding contents c1 ws \<and> \<not> writeable c1 \<or> state c1 = CON_STATE_ERROR \<or> state c1 = CON_STATE_RESPONSE_END \<and> ws = []"
proof -
  have st: "state c = CON_STATE_WRITE" and q: "queue_rel (writequeue c) vs" "maps_ok contents (writequeue c)" "sendable contents vs"
    and fin: "http_response_body_finished c" and wf: "connection_wf c" using r by (simp_all add: responding_def)
  show thesis
  proof (cases "queue_bytes vs + queue_sent vs = 0")
    case True
    then have "state_write (cur_ts w) c os = Inr (connection_set_state c CON_STATE_RESPONSE_END, os)"
      using responding_length [OF r] fin by (simp add: state_write_def del: of_nat_add)
    moreover have "length (queue_stream contents vs) = 0" using True sendable_stream(1) [OF q(3)] by simp
    moreover have "connection_wf (connection_set_state c CON_STATE_RESPONSE_END)"
      using wf by (simp add: connection_wf_def connection_set_state_def)
    moreover have "keep_alive (connection_set_state c CON_STATE_RESPONSE_END) = keep_alive c" by (simp add: connection_set_state_def)
    ultimately show thesis
      using that [of "connection_set_state c CON_STATE_RESPONSE_END" os "[]" "[]"]
      by (simp add: connection_machine_step_def st queue_stream_def)
  next
    case False
    obtain n c1 os1 ws bss where s: "connection_handle_write_state (cur_ts w) c os = Inr (n, c1, os1)"
      and c1: "queue_rel (writequeue c1) ws" "maps_ok contents (writequeue c1)" "sendable contents ws"
      and os1: "same_os os os1" "trace os1 = trace os @ map (Sent (conn_socket_fd c)) bss"
        "queue_stream contents vs = concat bss @ queue_stream contents ws"
      and out: "write_outcome (cur_ts w) c c1 ws"
      using connection_handle_write_state_ok [OF q assms(3,4,2), of "cur_ts w"] by (auto simp: returns_iff)
    have step: "connection_machine_step w c os = Inr (w, c1, os1)"
      using s False responding_length [OF r] assms(2) by (simp add: connection_machine_step_def st state_write_def del: of_nat_add)
    have "connection_wf c1" using wf out c1(1) by (auto simp: write_outcome_def connection_wf_def)
    moreover have "responding contents c1 ws \<and> \<not> writeable c1 \<or> state c1 = CON_STATE_ERROR \<or> state c1 = CON_STATE_RESPONSE_END \<and> ws = []"
      using out c1 st fin calculation by (auto simp: write_outcome_def responding_def)
    moreover have "conn_ids c1 = conn_ids c" "keep_alive c1 = keep_alive c" using out by (auto simp: write_outcome_def)
    ultimately show thesis using that step os1 by blast
  qed
qed

lemma sent_on_map [simp]: "sent_on fd (map (Sent fd) bss) = concat bss"
  by (induction bss) simp_all

text \<open>How a round of sending ends: \<open>ws\<close> is left to send.\<close>

definition send_result ::
  "(string \<Rightarrow> string) \<Rightarrow> worker \<Rightarrow> addr \<Rightarrow> connection \<Rightarrow> os_env \<Rightarrow> piece list \<Rightarrow> worker \<Rightarrow> os_env \<Rightarrow> bool" where
  "send_result contents w a c os ws w1 os1 \<longleftrightarrow>
     (\<exists>c1. conn_heap w1 = (conn_heap w)(a \<mapsto> c1) \<and> conn_ids c1 = conn_ids c \<and> keep_alive c1 = keep_alive c \<and>
        responding contents c1 ws \<and> same_os os os1 \<and>
        (queue_bytes ws + queue_sent ws \<noteq> 0 \<longrightarrow> interest (conn_ev w1) (conn_socket_fd c) = Some (EPOLLOUT OR EPOLLERR OR EPOLLHUP))) \<or>
     ws = [] \<and> keep_alive c \<and> (\<exists>c1. conn_heap w1 = (conn_heap w)(a \<mapsto> c1) \<and> conn_ids c1 = conn_ids c \<and> awaiting c1 [] \<and>
        interest (conn_ev w1) (conn_socket_fd c) = Some (EPOLLIN OR EPOLLERR OR EPOLLHUP)) \<or>
     closing w a (conn_socket_fd c) w1"

lemma ended_response:
  assumes "worker_wf w" and c: "conn_heap w a = Some c" and run: "machine_steps k (w, c, os) (w, c0, os0)"
    and ids: "conn_ids c0 = conn_ids c" and "state c0 = CON_STATE_RESPONSE_END" and "connection_wf c0" and ka: "keep_alive c0 = keep_alive c"
  shows "returns (connection_state_machine w a os) (\<lambda>(w1, os1). keeps w w1 \<and> send_result contents w a c os2 [] w1 os1 \<and>
    sent_on (conn_socket_fd c) (trace os1) = sent_on (conn_socket_fd c) (trace os0))"
proof -
  obtain c1 where s: "connection_machine_step w c0 os0 =
      Inr (w, c1, if keep_alive c0 then os0 else sys_emit [Shut_wr (conn_socket_fd c0)] (sys_tick os0))"
    and c1: "connection_wf c1" "state c1 = (if keep_alive c0 then CON_STATE_REQUEST_START else CON_STATE_CLOSE)" "conn_ids c1 = conn_ids c0"
      "\<not> readable c1" "\<not> writeable c1" "read_queue (readqueue c1) []" "queue_rel (writequeue c1) []" "fresh_request (connection_request c1)"
    by (rule response_end_step [OF assms(5,6)])
  have ids1: "conn_ids c1 = conn_ids c" using c1(3) ids by simp
  show ?thesis
  proof (cases "keep_alive c0")
    case False
    have "machine_steps (k + 1) (w, c, os) (w, c1, sys_emit [Shut_wr (conn_socket_fd c0)] (sys_tick os0))"
      using s c1(2) False assms(5)
      by (intro machine_steps_append [OF run] machine_there [where n = 0, folded One_nat_def]) simp_all
    from close_arrives [OF assms(1) c this ids1 _ c1(1), of "conn_socket_fd c"] False c1(2) show ?thesis
      by (auto simp: returns_iff send_result_def)
  next
    case True
    let ?ts = "os_time os0 (os_calls os0)"
    let ?c2 = "connection_set_state (c1\<lparr>start_ts := ?ts, active_read_ts := ?ts\<rparr>) CON_STATE_READ"
    have one: "connection_machine_step w c0 os0 = Inr (w, c1, os0)" "connection_machine_step w c1 os0 = Inr (w, ?c2, sys_tick os0)"
      using s True c1(2) by (simp_all add: connection_machine_step_def state_request_start_def sys_time_def)
    have "machine_steps (k + Suc (Suc 0)) (w, c, os) (w, ?c2, sys_tick os0)"
      by (intro machine_steps_append [OF run] machine_there [OF one(1)] machine_there [OF one(2)]) (use True c1(2) assms(5) in simp_all)
    from rests_reading [OF assms(1) c this] ids1 c1(4)
    have m: "returns (connection_state_machine w a os) (\<lambda>(w1, os1). keeps w w1 \<and> os1 = sys_tick os0 \<and>
        conn_heap w1 = (conn_heap w)(a \<mapsto> ?c2) \<and> interest (conn_ev w1) (conn_socket_fd c) = Some (EPOLLIN OR EPOLLERR OR EPOLLHUP))"
      by (simp add: connection_set_state_def conn_ids_def)
    have "awaiting ?c2 []" using c1 by (auto simp: awaiting_def connection_set_state_def connection_wf_def intro!: exI [of _ "[]"])
    moreover have "conn_ids ?c2 = conn_ids c" using ids1 by (simp add: conn_ids_def connection_set_state_def)
    ultimately have "send_result contents w a c os2 [] w1 os1" if "conn_heap w1 = (conn_heap w)(a \<mapsto> ?c2)"
        "interest (conn_ev w1) (conn_socket_fd c) = Some (EPOLLIN OR EPOLLERR OR EPOLLHUP)" for w1 os1
      unfolding send_result_def using that True ka by (intro disjI2 disjI1 conjI exI [of _ ?c2]) simp_all
    with m show ?thesis by (auto simp: returns_iff)
  qed
qed

lemma response_is_sent:
  assumes wf: "worker_wf w" and c: "conn_heap w a = Some c" and r: "responding contents c vs"
    and "writes_fit os" and "maps_files contents os"
  shows "returns (connection_event_handle w a EPOLLOUT os) (\<lambda>(w1, os1). keeps w w1 \<and>
    (\<exists>bs ws. queue_stream contents vs = bs @ queue_stream contents ws \<and>
       sent_on (conn_socket_fd c) (trace os1) = sent_on (conn_socket_fd c) (trace os) @ bs \<and> send_result contents w a c os ws w1 os1))"
proof -
  let ?c = "c\<lparr>writeable := True\<rparr>"
  let ?w = "w\<lparr>conn_heap := (conn_heap w)(a \<mapsto> ?c)\<rparr>" and ?f = "conn_socket_fd c"
  have st: "state c = CON_STATE_WRITE" using r by (simp add: responding_def)
  then have k: "keeps w ?w" by (intro keeps_update [OF wf c]) simp_all
  note wf1 = keeps_wf [OF k]
  have c': "conn_heap ?w a = Some ?c" by simp
  have r1: "responding contents ?c vs" "writeable ?c" using r by (simp_all add: responding_def connection_wf_def)
  obtain c1 os1 ws bss where s: "connection_machine_step ?w ?c os = Inr (?w, c1, os1)" "conn_ids c1 = conn_ids ?c" "same_os os os1"
      "trace os1 = trace os @ map (Sent (conn_socket_fd ?c)) bss" "queue_stream contents vs = concat bss @ queue_stream contents ws"
      "connection_wf c1" "keep_alive c1 = keep_alive ?c"
    and out: "responding contents c1 ws \<and> \<not> writeable c1 \<or> state c1 = CON_STATE_ERROR \<or> state c1 = CON_STATE_RESPONSE_END \<and> ws = []"
    by (rule write_step [OF r1 assms(4,5)])
  have step: "machine_steps 1 (?w, ?c, os) (?w, c1, os1)" if "state c1 \<noteq> CON_STATE_WRITE"
    using machine_there [OF s(1) _ machine_here] st that by simp
  have sent: "sent_on ?f (trace os1) = sent_on ?f (trace os) @ concat bss" using s(4) by simp
  have m: "returns (connection_state_machine ?w a os) (\<lambda>(w1, os2). keeps ?w w1 \<and> send_result contents ?w a ?c os ws w1 os2 \<and>
      sent_on ?f (trace os2) = sent_on ?f (trace os1))"
    using out
  proof (elim disjE conjE)
    assume o: "responding contents c1 ws" "\<not> writeable c1"
    then have "state c1 = state ?c" using st by (simp add: responding_def)
    from rests_writing [OF wf1 c' machine_here s(1,2) this o(1)] o s(2,3,7) show ?thesis
      by (auto simp: returns_iff send_result_def)
  next
    assume e: "state c1 = CON_STATE_ERROR"
    obtain c2 where c2: "connection_machine_step ?w c1 os1 = Inr (?w, c2, sys_emit [Shut_wr (conn_socket_fd c1)] (sys_tick os1))"
        "connection_wf c2" "state c2 = CON_STATE_CLOSE" "conn_ids c2 = conn_ids c1" by (rule error_step [OF e s(6)])
    have "machine_steps (1 + Suc 0) (?w, ?c, os) (?w, c2, sys_emit [Shut_wr (conn_socket_fd c1)] (sys_tick os1))"
      by (intro machine_steps_append [OF step] machine_there [OF c2(1)]) (simp_all add: e c2(3))
    from close_arrives [OF wf1 c' this _ c2(3,2), of ?f] c2(4) s(2) show ?thesis
      by (auto simp: returns_iff send_result_def)
  next
    assume e: "state c1 = CON_STATE_RESPONSE_END" "ws = []"
    from ended_response [OF wf1 c' step s(2) e(1) s(6,7)] e show ?thesis by simp
  qed
  have same: "send_result contents ?w a ?c os ws w1 os2 = send_result contents w a c os ws w1 os2" for w1 os2
    by (simp add: send_result_def closing_def)
  have "connection_note_events EPOLLOUT c os = (?c, os)" by (simp add: connection_note_events_def)
  then have "connection_event_handle w a EPOLLOUT os = connection_state_machine ?w a os" by (simp add: connection_event_handle_def c)
  then have "returns (connection_event_handle w a EPOLLOUT os) (\<lambda>(w1, os2). keeps ?w w1 \<and> send_result contents ?w a ?c os ws w1 os2 \<and>
      sent_on ?f (trace os2) = sent_on ?f (trace os1))" using m by simp
  then show ?thesis
  proof (rule returns_mono)
    fix x assume "case x of (w1, os2) \<Rightarrow> keeps ?w w1 \<and> send_result contents ?w a ?c os ws w1 os2 \<and>
      sent_on ?f (trace os2) = sent_on ?f (trace os1)"
    then have "keeps w (fst x)" "send_result contents w a c os ws (fst x) (snd x)" "sent_on ?f (trace (snd x)) = sent_on ?f (trace os) @ concat bss"
      using keeps_trans [OF k] same sent by (auto split: prod.splits)
    then show "case x of (w1, os1) \<Rightarrow> keeps w w1 \<and> (\<exists>bs ws. queue_stream contents vs = bs @ queue_stream contents ws \<and>
       sent_on ?f (trace os1) = sent_on ?f (trace os) @ bs \<and> send_result contents w a c os ws w1 os1)"
      using s(5) by (simp only: case_prod_beta') blast
  qed
qed

section \<open>Rounds of sending\<close>

text \<open>Up to \<open>n\<close> times the socket becomes writable while there is something to send.\<close>

fun send_rounds :: "nat \<Rightarrow> worker \<Rightarrow> addr \<Rightarrow> os_env \<Rightarrow> fault + (worker \<times> os_env)" where
  "send_rounds 0 w a os = Inr (w, os)"
| "send_rounds (Suc n) w a os =
     (case conn_heap w a of
        None \<Rightarrow> Inr (w, os)
      | Some c \<Rightarrow>
          if state c = CON_STATE_WRITE
          then andthen (connection_event_handle w a EPOLLOUT os) (\<lambda>(w1, os1). send_rounds n w1 a os1)
          else Inr (w, os))"

text \<open>Where the connection \<open>ids\<close> is afterwards: still sending \<open>ws\<close>, ready for the next request, or closing.\<close>

definition reply_state :: "(string \<Rightarrow> string) \<Rightarrow> worker \<Rightarrow> addr \<Rightarrow> bool \<Rightarrow> piece list \<Rightarrow> bool" where
  "reply_state contents w a keep ws \<longleftrightarrow> (case conn_heap w a of
     None \<Rightarrow> True
   | Some c \<Rightarrow> state c = CON_STATE_CLOSE \<or> responding contents c ws \<and> keep_alive c = keep \<or> ws = [] \<and> keep \<and> awaiting c [])"

lemma send_result_state:
  assumes "send_result contents w a c os ws w1 os1"
  shows "reply_state contents w1 a (keep_alive c) ws"
  using assms by (auto simp: send_result_def reply_state_def closing_def)

lemma rounds_over: "conn_heap w a = Some c \<Longrightarrow> state c \<noteq> CON_STATE_WRITE \<Longrightarrow> send_rounds n w a os = Inr (w, os)"
  "conn_heap w a = None \<Longrightarrow> send_rounds n w a os = Inr (w, os)"
  by (cases n; simp)+

lemma rounds_sent:
  assumes "worker_wf w" and "conn_heap w a = Some c" and "responding contents c vs"
    and "writes_fit os" and "maps_files contents os"
  shows "returns (send_rounds n w a os) (\<lambda>(w1, os1). keeps w w1 \<and> (\<exists>bs ws. queue_stream contents vs = bs @ queue_stream contents ws \<and>
    sent_on (conn_socket_fd c) (trace os1) = sent_on (conn_socket_fd c) (trace os) @ bs \<and> reply_state contents w1 a (keep_alive c) ws))"
  using assms
proof (induction n arbitrary: w c vs os)
  case 0
  then show ?case by (auto simp: keeps_refl reply_state_def intro!: exI [of _ vs])
next
  case (Suc n)
  let ?f = "conn_socket_fd c"
  have st: "state c = CON_STATE_WRITE" using Suc.prems(3) by (simp add: responding_def)
  obtain w1 os1 bs ws where r: "connection_event_handle w a EPOLLOUT os = Inr (w1, os1)" "keeps w w1"
      "queue_stream contents vs = bs @ queue_stream contents ws" "sent_on ?f (trace os1) = sent_on ?f (trace os) @ bs"
      "send_result contents w a c os ws w1 os1"
    using response_is_sent [OF Suc.prems] by (auto simp: returns_iff)
  have eq: "send_rounds (Suc n) w a os = send_rounds n w1 a os1" using r(1) Suc.prems(2) st by simp
  show ?case
  proof (cases "\<exists>c1. conn_heap w1 a = Some c1 \<and> state c1 = CON_STATE_WRITE")
    case False
    then have "send_rounds n w1 a os1 = Inr (w1, os1)" using rounds_over by (cases "conn_heap w1 a") auto
    with eq r send_result_state [OF r(5)] show ?thesis by auto
  next
    case True
    then obtain c1 where c1: "conn_heap w1 a = Some c1" "responding contents c1 ws" "conn_ids c1 = conn_ids c"
        "keep_alive c1 = keep_alive c" "same_os os os1"
      using r(5) by (auto simp: send_result_def closing_def awaiting_def)
    have os1: "writes_fit os1" "maps_files contents os1" using Suc.prems(4,5) same_os_facts [OF c1(5)] by simp_all
    have fd: "conn_socket_fd c1 = ?f" using c1(3) by (simp add: conn_ids_def)
    from Suc.IH [OF keeps_wf [OF r(2)] c1(1,2) os1] show ?thesis
      unfolding eq fd c1(4)
      by (rule returns_mono) (use r(3,4) keeps_trans [OF r(2)] in \<open>force simp flip: append_assoc\<close>)
  qed
qed

section \<open>Properties\<close>

text \<open>What a reply looks like on the wire.\<close>

definition reply_text :: "(string \<Rightarrow> string) \<Rightarrow> http_version_t \<Rightarrow> bool \<times> reply \<Rightarrow> string \<Rightarrow> string \<Rightarrow> string" where
  "reply_text contents v r date name = queue_stream contents (reply_pieces v r date name)"

text \<open>
  C7: A request is answered by what the reference says. When the bytes that complete a request arrive on a waiting
  connection, the machine reads, parses and handles it, and queues the reply: the head with the status, the length and
  the type of the answer, then the file, the directory page or the error page. Nothing is sent yet; the socket is
  watched until it is writable.
\<close>

theorem request_is_answered_as_specified:
  assumes "worker_wf w" and "conn_heap w a = Some c" and "awaiting c received"
    and "read_answer os = Inr bs" and "bs \<noteq> []"
    and "read_fits os" and "length received + unat (read_request os) < buffer_max"
    and "head_of (received @ bs) = Some (render_request m u v opts)" and "request_ok m u v opts"
    and "site_ok (global_config w) root t name (os_files os)" and "url_ok root (os_files os) u"
    and "\<forall>ts. sendable contents (reply_pieces v (reply_to root t (os_files os) u v opts) (os_strftime (os_files os) ts) name)"
  shows "\<exists>w1 os1 c1 ts. connection_event_handle w a EPOLLIN os = Inr (w1, os1) \<and> worker_wf w1 \<and> trace os1 = trace os \<and>
    interest (conn_ev w1) (conn_socket_fd c) = Some (EPOLLOUT OR EPOLLERR OR EPOLLHUP) \<and>
    conn_heap w1 = (conn_heap w)(a \<mapsto> c1) \<and> keep_alive c1 = fst (reply_to root t (os_files os) u v opts) \<and>
    responding contents c1 (reply_pieces v (reply_to root t (os_files os) u v opts) (os_strftime (os_files os) ts) name)"
  using request_is_answered [OF assms] by (auto simp: returns_iff keeps_def)

text \<open>
  C1: The client receives the reply and nothing else. After the request, in however many rounds the socket takes
  bytes and however few at a time, what has been sent is a prefix of the reply the reference gives, and the
  rest is still queued, unless the connection is being closed; a connection that waits for the next
  request has sent the whole reply.
\<close>

theorem client_receives_reply:
  assumes "worker_wf w" and "conn_heap w a = Some c" and "awaiting c received"
    and "read_answer os = Inr bs" and "bs \<noteq> []"
    and "read_fits os" and "length received + unat (read_request os) < buffer_max"
    and "head_of (received @ bs) = Some (render_request m u v opts)" and "request_ok m u v opts"
    and "site_ok (global_config w) root t name (os_files os)" and "url_ok root (os_files os) u"
    and "\<forall>ts. sendable contents (reply_pieces v (reply_to root t (os_files os) u v opts) (os_strftime (os_files os) ts) name)"
    and "writes_fit os" and "maps_files contents os"
  shows "\<exists>w1 os1 out ws ts. andthen (connection_event_handle w a EPOLLIN os) (\<lambda>(w1, os1). send_rounds n w1 a os1) = Inr (w1, os1) \<and>
    worker_wf w1 \<and> sent_on (conn_socket_fd c) (trace os1) = sent_on (conn_socket_fd c) (trace os) @ out \<and>
    reply_text contents v (reply_to root t (os_files os) u v opts) (os_strftime (os_files os) ts) name = out @ queue_stream contents ws \<and>
    reply_state contents w1 a (fst (reply_to root t (os_files os) u v opts)) ws"
proof -
  obtain w1 os1 c1 ts where r: "connection_event_handle w a EPOLLIN os = Inr (w1, os1)" "keeps w w1" "same_os os os1" "trace os1 = trace os"
      "conn_heap w1 a = Some c1" "conn_ids c1 = conn_ids c" "keep_alive c1 = fst (reply_to root t (os_files os) u v opts)"
      "responding contents c1 (reply_pieces v (reply_to root t (os_files os) u v opts) (os_strftime (os_files os) ts) name)"
    using request_is_answered [OF assms(1-12)] by (auto simp: returns_iff)
  have os1: "writes_fit os1" "maps_files contents os1" using assms(13,14) same_os_facts [OF r(3)] by simp_all
  have fd: "conn_socket_fd c1 = conn_socket_fd c" using r(6) by (simp add: conn_ids_def)
  from rounds_sent [OF keeps_wf [OF r(2)] r(5,8) os1, of n] r show ?thesis
    by (fastforce simp: returns_iff reply_text_def fd keeps_def)
qed

text \<open>A small site, and a client that asks for a file of it.\<close>

definition sample_table :: mime_table where
  "sample_table = \<lparr>entry = [(''.gif'', ''image/gif'')], used_entry = 1, entry_sizes = 1024\<rparr>"

definition sample_request :: string where
  "sample_request = render_request ''GET'' ''/a.gif'' HTTP_VERSION_1_0 []"

definition client_os :: os_env where
  "client_os = sample_file_os\<lparr>os_read := \<lambda>_ _. Inr sample_request\<rparr>"

definition waiting_connection :: connection where
  "waiting_connection = (sample_connection [])\<lparr>state := CON_STATE_READ\<rparr>"

lemma client_os_ok: "writes_fit client_os" "maps_files (\<lambda>_. ''abcdef'') client_os" "os_files client_os = sample_fs"
  using sample_file_os_ok(1,2)
  by (simp_all add: client_os_def sample_file_os_def sample_os_def writes_fit_def maps_files_def)

lemma sample_site: "site_ok named_config ''/w'' sample_table ''minihttpd'' sample_fs"
  using sample_config_ok named_config_name
  by (auto simp: site_ok_def named_config_def config_ok_def sample_table_def sample_config_def answers_strings_def sample_fs_def
      split: if_splits)

lemma sample_request_text: "sample_request = ''GET /a.gif HTTP/1.0'' @ target_string" "length sample_request = 23"
  by (simp_all add: sample_request_def render_request_def request_line_def version_text_def CRLF_def target_string_def)

lemma sample_request_head: "head_of ([] @ sample_request) = Some (render_request ''GET'' ''/a.gif'' HTTP_VERSION_1_0 [])"
  unfolding sample_request_def [symmetric] sample_request_text(1) by code_simp

lemma sample_request_ok: "request_ok ''GET'' ''/a.gif'' HTTP_VERSION_1_0 []" "url_ok ''/w'' sample_fs ''/a.gif''"
  using sample_request_text(2)
  by (simp_all add: request_ok_def sample_request_def plain_field_def url_ok_def sample_fs_def full_path_def url_path_def)

lemma sample_reply: "reply_to ''/w'' sample_table sample_fs ''/a.gif'' HTTP_VERSION_1_0 [] =
    (False, 200, Some ''image/gif'', [File 0 ''/w/a.gif'' 0 5])"
  by code_simp

lemma sample_reply_sendable:
  "sendable (\<lambda>_. ''abcdef'') (reply_pieces HTTP_VERSION_1_0 (reply_to ''/w'' sample_table sample_fs ''/a.gif'' HTTP_VERSION_1_0 [])
     (os_strftime sample_fs ts) ''minihttpd'')"
proof -
  have "reason 200 = ''OK''" by code_simp
  then have "length (head_text HTTP_VERSION_1_0 200 (reason 200) False n (Some ''image/gif'') (os_strftime sample_fs ts) ''minihttpd'') < 4000" for n
    using length_head_text [of "reason 200" "Some ''image/gif''" "''minihttpd''" HTTP_VERSION_1_0 200 False n "os_strftime sample_fs ts"]
    by (simp add: sample_fs_def)
  from this [of 5] show ?thesis
    by (simp add: sample_reply reply_pieces_def body_pieces_def body_type_def is_error_status_def sendable_def file_window_size_def
        queue_bytes_def queue_sent_def)
qed

lemma waiting_connection_awaits: "awaiting waiting_connection []"
  using sample_connection_wf [of CON_STATE_READ] sample_connection_fresh [of "[]"] queue_rel_init
  by (auto simp: awaiting_def waiting_connection_def sample_connection_def read_queue_empty intro!: exI [of _ "[]"])

lemma sample_waiting_worker:
  "\<exists>t. worker_wf (sample_worker\<lparr>conn_heap := [0 \<mapsto> waiting_connection], conn_ev := t\<rparr>)"
  using sample_worker_wf [of waiting_connection] by (auto simp: conn_ids_def waiting_connection_def sample_connection_def)

lemma client_read: "read_answer client_os = Inr sample_request" "unat (read_request client_os) = 1024"
  by (simp_all add: read_answer_def read_request_def client_os_def sample_file_os_def sample_os_def)

lemma client_read_fits: "read_fits client_os"
  using client_read sample_request_text(2) by (simp add: read_fits_def)

theorem client_receives_reply_witness:
  "\<exists>w w1 os1 out ws ts. andthen (connection_event_handle w 0 EPOLLIN client_os) (\<lambda>(w1, os1). send_rounds 3 w1 0 os1) = Inr (w1, os1) \<and>
    sent_on 7 (trace os1) = out \<and>
    reply_text (\<lambda>_. ''abcdef'') HTTP_VERSION_1_0 (False, 200, Some ''image/gif'', [File 0 ''/w/a.gif'' 0 5])
      (os_strftime sample_fs ts) ''minihttpd'' = out @ queue_stream (\<lambda>_. ''abcdef'') ws \<and>
    reply_state (\<lambda>_. ''abcdef'') w1 0 False ws"
proof -
  obtain t where wf: "worker_wf (sample_worker\<lparr>conn_heap := [0 \<mapsto> waiting_connection], conn_ev := t\<rparr>)" (is "worker_wf ?w")
    using sample_waiting_worker by blast
  have c: "conn_heap ?w 0 = Some waiting_connection" "global_config ?w = named_config" "conn_socket_fd waiting_connection = 7"
    by (simp_all add: sample_worker_def waiting_connection_def sample_connection_def)
  have "trace client_os = []" by (simp add: client_os_def sample_file_os_def sample_os_def)
  with client_receives_reply [OF wf c(1) waiting_connection_awaits client_read(1) _ _ _ sample_request_head sample_request_ok(1),
      of "''/w''" sample_table "''minihttpd''" "\<lambda>_. ''abcdef''" 3]
  show ?thesis
    using client_read(2) client_read_fits sample_request_text(2) sample_site sample_request_ok(2) sample_reply_sendable client_os_ok
    by (fastforce simp: c(2,3) sample_reply)
qed

theorem request_is_answered_as_specified_witness:
  "\<exists>w w1 os1 c1 ts. connection_event_handle w 0 EPOLLIN client_os = Inr (w1, os1) \<and> conn_heap w1 0 = Some c1 \<and>
    responding (\<lambda>_. ''abcdef'') c1 (reply_pieces HTTP_VERSION_1_0 (False, 200, Some ''image/gif'', [File 0 ''/w/a.gif'' 0 5])
      (os_strftime sample_fs ts) ''minihttpd'')"
proof -
  obtain t where wf: "worker_wf (sample_worker\<lparr>conn_heap := [0 \<mapsto> waiting_connection], conn_ev := t\<rparr>)" (is "worker_wf ?w")
    using sample_waiting_worker by blast
  have c: "conn_heap ?w 0 = Some waiting_connection" "global_config ?w = named_config"
    by (simp_all add: sample_worker_def)
  from request_is_answered_as_specified [OF wf c(1) waiting_connection_awaits client_read(1) _ _ _ sample_request_head sample_request_ok(1),
      of "''/w''" sample_table "''minihttpd''" "\<lambda>_. ''abcdef''"]
  show ?thesis
    using client_read(2) client_read_fits sample_request_text(2) sample_site sample_request_ok(2) sample_reply_sendable client_os_ok(3)
    by (fastforce simp: c(2) sample_reply)
qed

end
