(* ===== verification/Sound.thy ===== *)
theory Sound
  imports Serve
begin

text \<open>
  A worker does not fault. The theory adds no code: it gives every state of the machine of a connection an invariant
  (\<open>sound\<close>), and shows, as for the type system of a language, that a step from a sound state returns (progress) and
  ends in a sound state (preservation). This is lifted to the loop of the machine, the handlers and the
  events of a worker, from its start on. What has to be asked of the site, the kernel and the clients is stated
  once, in \<open>site_env\<close> and \<open>event_ok\<close>: sizes for which no counter wraps, and no inputs of the kinds for which other
  theorems of the development exhibit a fault.
\<close>

section \<open>What is asked of the environment\<close>

text \<open>
  The reads: requests below 256 MiB, and \<open>read_fits\<close> at every call. The files: \<open>contents\<close> is what they contain, below
  1 GiB; no directory has 250000 entries.
\<close>

definition kernel_reads :: "os_env \<Rightarrow> bool" where
  "kernel_reads os \<longleftrightarrow> (\<forall>k. read_fits (os\<lparr>os_calls := k\<rparr>) \<and> unat (read_request (os\<lparr>os_calls := k\<rparr>)) < 2 ^ 28)"

definition files_ok :: "(string \<Rightarrow> string) \<Rightarrow> file_system \<Rightarrow> bool" where
  "files_ok contents fs \<longleftrightarrow>
     (\<forall>p st. os_stat fs p = Inr st \<longrightarrow> st_kind st = Regular \<longrightarrow> nat (st_size st) \<le> length (contents p) \<and> st_size st < 2 ^ 30) \<and>
     (\<forall>p. length (directory_names fs p) < 250000)"

definition site_env :: "(string \<Rightarrow> string) \<Rightarrow> string \<Rightarrow> mime_table \<Rightarrow> string \<Rightarrow> server_config \<Rightarrow> os_env \<Rightarrow> bool" where
  "site_env contents root t name config os \<longleftrightarrow> site_ok config root t name (os_files os) \<and> files_ok contents (os_files os) \<and>
     writes_fit os \<and> maps_files contents os \<and> kernel_reads os \<and>
     length root < 2 ^ 20 \<and> unat (max_http_head_size config) < 2 ^ 20"

lemma kernel_reads_same: "same_os os os' \<Longrightarrow> kernel_reads os' = kernel_reads os"
  by (simp add: kernel_reads_def same_os_def read_fits_def read_answer_def read_request_def)

lemma site_env_same: "same_os os os' \<Longrightarrow> site_env contents root t name config os' = site_env contents root t name config os"
  using kernel_reads_same [of os os'] same_os_facts [of os os'] by (simp add: site_env_def)

lemma kernel_readsD:
  assumes "kernel_reads os"
  shows "read_fits os" "unat (read_request os) < 2 ^ 28"
  using assms [unfolded kernel_reads_def, rule_format, of "os_calls os"] by simp_all

text \<open>
  A request the code is not led astray by: it starts with neither a space nor a NUL, and the target in its
  first line, if there is one, is not empty before its query.
\<close>

definition sane_request :: "string \<Rightarrow> bool" where
  "sane_request h \<longleftrightarrow> hd h \<notin> {CHR '' '', NUL} \<and> (CHR '' '' \<in> set h \<longrightarrow> url_path (request_target h) \<noteq> [])"

text \<open>More than a head can have: the limit of the configuration, and what the last read adds.\<close>

abbreviation head_max :: nat where "head_max \<equiv> 2 ^ 28 + 2 ^ 20"

text \<open>The request a connection is about to read, if it is about to read one, is of this kind.\<close>

definition input_ok :: "connection \<Rightarrow> os_env \<Rightarrow> bool" where
  "input_ok c os \<longleftrightarrow> (\<forall>ss bs h. state c = CON_STATE_READ \<longrightarrow> readable c \<longrightarrow> read_queue (readqueue c) ss \<longrightarrow>
     read_answer os = Inr bs \<longrightarrow> head_of (concat ss @ bs) = Some h \<longrightarrow> sane_request h)"

section \<open>The invariant of a connection, by its state\<close>

definition small_pieces :: "(string \<Rightarrow> string) \<Rightarrow> piece list \<Rightarrow> bool" where
  "small_pieces contents vs \<longleftrightarrow> (\<forall>p \<in> set vs. piece_ok contents p) \<and> queue_bytes vs + queue_sent vs \<le> 2 ^ 30"

definition sound_request :: "connection \<Rightarrow> bool" where
  "sound_request c \<longleftrightarrow> http_status c \<in> {400, 414, 501} \<or>
     http_status c = 0 \<and> (\<exists>u. text_buffer (request_url (connection_request c)) u \<and> NUL \<notin> set u \<and> length u < head_max \<and> url_path u \<noteq> [])"

definition sound_answer :: "(string \<Rightarrow> string) \<Rightarrow> connection \<Rightarrow> bool" where
  "sound_answer contents c \<longleftrightarrow> http_status c \<in> {200, 400, 403, 404, 414, 500, 501} \<and> maps_ok contents (writequeue c) \<and>
     (http_response_body_finished c \<or> is_error_status (http_status c)) \<and>
     (\<exists>ty ws. queue_rel (writequeue c) ws \<and> small_pieces contents ws \<and> content_type_is c ty)"

definition sound :: "(string \<Rightarrow> string) \<Rightarrow> server_config \<Rightarrow> connection \<Rightarrow> bool" where
  "sound contents config c \<longleftrightarrow> connection_wf c \<and>
     (case state c of
        CON_STATE_REQUEST_START \<Rightarrow> fresh_request (connection_request c) \<and> queue_rel (writequeue c) [] \<and>
          read_queue (readqueue c) [] \<and> \<not> readable c
      | CON_STATE_READ \<Rightarrow> fresh_request (connection_request c) \<and> queue_rel (writequeue c) [] \<and>
          (\<exists>ss. read_queue (readqueue c) ss \<and> length (concat ss) \<le> unat (max_http_head_size config))
      | CON_STATE_REQUEST_END \<Rightarrow> fresh_request (connection_request c) \<and> queue_rel (writequeue c) [] \<and>
          (\<exists>h. text_buffer (request_content (connection_request c)) h \<and> length h < head_max \<and> sane_request h)
      | CON_STATE_HANDLE_REQUEST \<Rightarrow> queue_rel (writequeue c) [] \<and> sound_request c
      | CON_STATE_RESPONSE_START \<Rightarrow> sound_answer contents c
      | CON_STATE_WRITE \<Rightarrow> (\<exists>vs. responding contents c vs)
      | _ \<Rightarrow> True)"

lemma sound_wf: "sound contents config c \<Longrightarrow> connection_wf c"
  by (simp add: sound_def)

text \<open>The states in which the machine comes to rest, and what a step leaves behind.\<close>

definition resting :: "connection_state_t \<Rightarrow> bool" where
  "resting st \<longleftrightarrow> st \<in> {CON_STATE_READ, CON_STATE_WRITE, CON_STATE_CLOSE, CON_STATE_CONNECT}"

definition steps_to :: "(string \<Rightarrow> string) \<Rightarrow> server_config \<Rightarrow> connection \<Rightarrow> os_env \<Rightarrow> connection \<Rightarrow> os_env \<Rightarrow> bool" where
  "steps_to contents config c os c1 os1 \<longleftrightarrow> sound contents config c1 \<and> same_os os os1 \<and>
     (if state c1 = state c then resting (state c) else state c1 = CON_STATE_READ \<longrightarrow> \<not> readable c1)"

section \<open>Sizes\<close>

lemma length_snprintf_line: "length line < 1024 \<Longrightarrow> length (snprintf_line line s) < 1024"
  by (simp add: snprintf_line_def)

lemma length_directory_line: "length (directory_line name date sizes) < 1024"
  unfolding directory_line_def by (intro length_snprintf_line) simp

lemma length_entry_text: "length (entry_text fs dir u d) \<le> 1023"
proof -
  have "length (directory_line (link_text u d) date sizes) \<le> 1023" for date sizes
    using length_directory_line [of "link_text u d" date sizes] by linarith
  then show ?thesis by (simp add: entry_text_def split: sum.split)
qed

lemma length_concat_bound: "\<forall>x \<in> set xs. length (f x) \<le> k \<Longrightarrow> length (concat (map f xs)) \<le> k * length xs"
  by (induction xs) auto

lemma length_directory_page: "length (directory_page fs dir u) \<le> 2 * length u + 200 + 1023 * length (directory_names fs dir)"
proof -
  have "length (concat (map (entry_text fs dir u) (directory_names fs dir))) \<le> 1023 * length (directory_names fs dir)"
    by (rule length_concat_bound) (simp add: length_entry_text)
  then show ?thesis using length_slash_end [of u] by (simp add: directory_page_def CRLF_def)
qed

lemma small_page:
  assumes "files_ok contents fs" and "length u < head_max"
  shows "length (directory_page fs dir u) < 2 ^ 30"
proof -
  have "length (directory_names fs dir) < 250000" using assms(1) by (simp add: files_ok_def)
  moreover have "head_max = 269484032" "(2 :: nat) ^ 30 = 1073741824" by simp_all
  ultimately show ?thesis using length_directory_page [of fs dir u] assms(2) by linarith
qed

lemma piece_sizes:
  "queue_bytes (Mem 0 s # vs) + queue_sent (Mem 0 s # vs) = length s + (queue_bytes vs + queue_sent vs)"
  "queue_bytes (vs @ [Mem 0 s]) + queue_sent (vs @ [Mem 0 s]) = length s + (queue_bytes vs + queue_sent vs)"
  "queue_bytes [] + queue_sent [] = 0"
  by (simp_all add: queue_bytes_def queue_sent_def)

lemma small_resource:
  assumes site: "site_env contents root t name config os" and r: "resource root t (os_files os) u = (s, ty, ws)"
    and u: "NUL \<notin> set u" "length u < head_max"
  shows "small_pieces contents ws"
proof -
  let ?fs = "os_files os" and ?path = "full_path root (url_path u)"
  have files: "files_ok contents ?fs" and root: "NUL \<notin> set root"
    and pos: "\<forall>p st. os_stat ?fs p = Inr st \<longrightarrow> 0 \<le> st_size st"
    using site by (simp_all add: site_env_def site_ok_def config_ok_def)
  have nul: "NUL \<notin> set ?path" by (rule NUL_full_path [OF root NUL_url_path [OF u(1)]])
  have len: "length (url_path u) < head_max" using length_url_path [of u] u(2) by linarith
  have regular: "small_pieces contents (file_pieces ?path (st_size st))" if "os_stat ?fs ?path = Inr st" "st_kind st = Regular" for st
  proof -
    have st: "0 \<le> st_size st" "nat (st_size st) \<le> length (contents ?path)" "st_size st < 2 ^ 30"
      using files pos that by (auto simp: files_ok_def)
    then have "nat (st_size st) + file_window_size < 2 ^ 32" by (simp add: file_window_size_def)
    with st nul show ?thesis
      by (auto simp: small_pieces_def file_pieces_def queue_bytes_def queue_sent_def full_path_def)
  qed
  have page: "small_pieces contents [Mem 0 (directory_page ?fs ?path (url_path u))]"
    using small_page [OF files len, of ?path] by (simp add: small_pieces_def queue_bytes_def queue_sent_def)
  have "small_pieces contents []" by (simp add: small_pieces_def queue_bytes_def queue_sent_def)
  with r regular page show ?thesis
    by (auto simp: resource_def Let_def split: sum.splits file_kind.splits)
qed

lemma small_reply:
  assumes "small_pieces contents ws" and "query_http_status_string s = Some (k, reason s)" and "s \<notin> {204, 205, 304}"
    and "\<forall>x. ty = Some x \<longrightarrow> length x < 1024" and "length name < 1024" and "length date < 128"
  shows "sendable contents (reply_pieces v (keep, s, ty, ws) date name)"
proof -
  have msg: "length (reason s) < 64" using status_text [OF assms(2)] by simp
  let ?body = "body_pieces s (reason s) ws"
  let ?head = "head_text v s (reason s) keep (of_nat (queue_bytes ?body + queue_sent ?body)) (body_type s ty) date name"
  have body: "queue_bytes ?body + queue_sent ?body < 2 ^ 30 + 1001" "\<forall>p \<in> set ?body. piece_ok contents p"
    using assms(1,3) length_error_page [OF msg, of s] piece_sizes(2) [of ws "error_page s (reason s)"]
    by (auto simp: body_pieces_def small_pieces_def)
  have "body_type s ty = None \<or> length (the (body_type s ty)) < 1024"
    using assms(4) by (cases ty) (auto simp: body_type_def)
  from length_head_text [OF msg this assms(5), of v s keep "of_nat (queue_bytes ?body + queue_sent ?body)" date] assms(6)
  have "length ?head < 3128" by linarith
  with body(1) have "length ?head + (queue_bytes ?body + queue_sent ?body) < 2 ^ 31" by simp
  with body(2) show ?thesis
    using piece_sizes(1) [of ?head ?body] unfolding reply_pieces_def Let_def prod.case sendable_def by auto
qed

section \<open>Progress and preservation, state by state\<close>

lemma same_step: "sound contents config c1 \<Longrightarrow> same_os os os1 \<Longrightarrow> state c1 = state c \<Longrightarrow> resting (state c) \<Longrightarrow> steps_to contents config c os c1 os1"
  by (simp add: steps_to_def)

lemma next_step:
  "sound contents config c1 \<Longrightarrow> same_os os os1 \<Longrightarrow> state c1 \<noteq> state c \<Longrightarrow> state c1 \<noteq> CON_STATE_READ \<or> \<not> readable c1 \<Longrightarrow>
   steps_to contents config c os c1 os1"
  by (simp add: steps_to_def)

lemma sound_read_frame:
  assumes "connection_wf c" and "read_frame c c1" and "read_queue (readqueue c1) ss"
  shows "connection_wf c1" and "fresh_request (connection_request c) \<Longrightarrow> fresh_request (connection_request c1)"
  using assms by (auto simp: connection_wf_def read_frame_def read_queue_def fresh_request_def)

lemma sound_step_read:
  assumes s: "sound contents config c" and st: "state c = CON_STATE_READ" and site: "site_env contents root t name config os"
    and inp: "input_ok c os"
  shows "returns (connection_handle_read_state config now c os) (\<lambda>(n, c1, os1). steps_to contents config c os c1 os1)"
proof (cases "readable c")
  case False
  then show ?thesis using s by (simp add: connection_handle_read_state_def same_step st resting_def)
next
  case True
  obtain ss where c: "connection_wf c" "fresh_request (connection_request c)" "queue_rel (writequeue c) []"
      "read_queue (readqueue c) ss" "length (concat ss) \<le> unat (max_http_head_size config)"
    using s by (auto simp: sound_def st)
  have k: "read_fits os" "unat (read_request os) < 2 ^ 28" "unat (max_http_head_size config) < 2 ^ 20"
    using site kernel_readsD [of os] by (simp_all add: site_env_def)
  obtain n c1 os1 ss' where r: "connection_handle_read_state config now c os = Inr (n, c1, os1)"
      "read_queue (readqueue c1) ss'" "concat ss' = concat ss @ received_bytes (read_answer os)"
      "read_outcome config (concat ss) c (read_answer os) n c1" "read_frame c c1" "same_os os os1"
    using connection_handle_read_state_ok [OF c(4) True _ k(1), of config now] k(2,3) c(5) by (fastforce simp: returns_iff)
  note f = sound_read_frame [OF c(1) r(5,2)]
  have q: "queue_rel (writequeue c1) []" using c(3) r(5) by (simp add: read_frame_def)
  have "steps_to contents config c os c1 os1"
  proof (cases "read_answer os")
    case (Inl e)
    have "concat ss' = concat ss" using r(3) Inl by (simp add: received_bytes_def)
    then have "sound contents config c1" using r(2,4) f c q Inl by (auto simp: read_outcome_def sound_def st split: if_splits)
    then show ?thesis using r(4,6) Inl by (auto simp: read_outcome_def st steps_to_def resting_def split: if_splits)
  next
    case (Inr bs)
    then have ss': "concat ss' = concat ss @ bs" using r(3) by (simp add: received_bytes_def)
    have len: "length (concat ss @ bs) < head_max"
      using k c(5) Inr by (simp add: read_fits_def)
    show ?thesis
    proof (cases "bs = []")
      case True
      then show ?thesis using r(4,6) Inr f(1) by (simp add: read_outcome_def st steps_to_def sound_def)
    next
      case False
      show ?thesis
      proof (cases "head_of (concat ss @ bs)")
        case (Some h)
        have "sane_request h" using inp c(4) st True Inr Some by (auto simp: input_ok_def)
        moreover have "length h < head_max" using read_head_length [OF Some] len by linarith
        ultimately show ?thesis using r(4,6) Inr f c(2) q Some False
          by (auto simp: read_outcome_def st steps_to_def sound_def)
      next
        case None
        then have "sound contents config c1 \<and> state c1 \<in> {CON_STATE_READ, CON_STATE_HANDLE_REQUEST}"
          using r(2,4) Inr f c(2) q False ss' by (auto simp: read_outcome_def st sound_def sound_request_def split: if_splits)
        with r(6) show ?thesis by (auto simp: steps_to_def st resting_def)
      qed
    qed
  qed
  with r(1) show ?thesis by simp
qed

lemma sound_step_request_end:
  assumes s: "sound contents config c" and st: "state c = CON_STATE_REQUEST_END"
  shows "returns (state_request_end config c) (\<lambda>c1. steps_to contents config c os c1 os)"
proof -
  let ?r = "connection_request c"
  let ?r1 = "?r\<lparr>http_method := buffer_reset (http_method ?r), http_version := HTTP_VERSION_UNSET,
                 http_range := buffer_reset (http_range ?r), hostname := buffer_reset (hostname ?r),
                 request_url := buffer_reset (request_url ?r)\<rparr>"
  let ?c = "c\<lparr>connection_request := ?r1, http_status := 0\<rparr>"
  obtain h where c: "connection_wf c" "fresh_request ?r" "queue_rel (writequeue c) []" "text_buffer (request_content ?r) h"
      "length h < head_max" "sane_request h"
    using s by (auto simp: sound_def st)
  have wf: "request_wf (connection_request ?c)"
    using c(2) by (auto simp: fresh_request_def request_wf_def intro: exI [of _ "[]"])
  have pre: "buffer_holds (request_content (connection_request ?c)) h" "h = [] \<or> hd h \<notin> {CHR '' '', NUL}"
      "buffer_is_empty (request_url (connection_request ?c))"
    using text_buffer_holds [OF c(4)] c(6) by (simp_all add: sane_request_def buffer_is_empty_def buffer_reset_def)
  have small: "length h < buffer_max" using c(5) by simp
  obtain rc c1 where p: "http_reuqest_parse config ?c = Inr (rc, c1)" "verdict h ?c (rc, c1)"
    using http_reuqest_parse_returns [OF wf pre(1) small pre(2,3), of config] by (auto simp: returns_iff)
  have v: "same_but_request ?c c1" "request_wf (connection_request c1)"
      "field_within (length h) (hostname (connection_request ?c)) (hostname (connection_request c1))"
      "field_within (length h) (http_range (connection_request ?c)) (http_range (connection_request c1))"
    using p(2) by (simp_all add: verdict_def)
  have log: "returns (log_parsed_request (connection_request c1)) (\<lambda>b. True)" if "rc = 0"
  proof -
    have a: "line_parsed h ?c c1" using p(2) that by (simp add: verdict_def accepted_def)
    obtain m where m: "buffer_holds (http_method (connection_request c1)) m" "length m \<le> 4"
      using a by (auto simp: line_parsed_def Let_def)
    have u: "buffer_holds (request_url (connection_request c1)) (request_target h)"
      using a by (auto simp: line_parsed_def Let_def intro: text_buffer_holds)
    obtain x g where x: "buffer_holds (hostname (connection_request c1)) x" "buffer_holds (http_range (connection_request c1)) g"
      using v(2) by (auto simp: request_wf_def)
    have "length x \<le> length h" "length g \<le> length h"
      using field_within_holds [OF v(3) _ x(1)] field_within_holds [OF v(4) _ x(2)] by (simp_all add: buffer_reset_def)
    then have "length m + length (request_target h) + length x + length g + 400 < buffer_max"
      using m(2) request_target_length [of h] c(5) by simp
    from log_parsed_request_holds [OF m(1) u x this] show ?thesis by (rule returns_mono) simp
  qed
  have wf1: "connection_wf c1" using v c(1) by (auto simp: same_but_request_def connection_wf_def)
  have q1: "queue_rel (writequeue c1) []" using c(3) v(1) by (simp add: same_but_request_def)
  have req: "sound_request c1"
  proof (cases "rc = 0")
    case True
    then have a: "text_buffer (request_url (connection_request c1)) (request_target h)" "CHR '' '' \<in> set h" "http_status c1 = 0"
      using p(2) by (auto simp: verdict_def accepted_def line_parsed_def Let_def)
    moreover have "url_path (request_target h) \<noteq> []" using c(6) a(2) by (simp add: sane_request_def)
    moreover have "length (request_target h) < head_max" using request_target_length [of h] c(5) by linarith
    ultimately show ?thesis using request_target_plain [of h] by (auto simp: sound_request_def)
  next
    case False
    with p(2) show ?thesis by (auto simp: verdict_def refused_def sound_request_def)
  qed
  have "sound contents config (connection_set_state c1 CON_STATE_HANDLE_REQUEST)"
    using wf1 q1 req by (simp add: sound_def connection_wf_def connection_set_state_def sound_request_def)
  then have "steps_to contents config c os (connection_set_state c1 CON_STATE_HANDLE_REQUEST) os"
    by (simp add: steps_to_def st)
  moreover obtain b where "(if rc = 0 then andthen (log_parsed_request (connection_request c1)) (\<lambda>b. Inr ()) else Inr ()) = Inr b"
    using log by (cases "rc = 0") (auto simp: returns_iff)
  ultimately show ?thesis using p(1) by (simp add: state_request_end_def Let_def)
qed

lemma sound_step_handle:
  assumes s: "sound contents config c" and st: "state c = CON_STATE_HANDLE_REQUEST" and site: "site_env contents root t name config os"
  shows "returns (state_handle_request config c os) (\<lambda>c1. steps_to contents config c os c1 os)"
proof -
  have c: "connection_wf c" "queue_rel (writequeue c) []" "sound_request c" using s by (simp_all add: sound_def st)
  have ok: "site_ok config root t name (os_files os)" and root: "length root < 2 ^ 20" using site by (simp_all add: site_env_def)
  have "returns (state_handle_request config c os) (\<lambda>c1. state c1 = CON_STATE_RESPONSE_START \<and> connection_wf c1 \<and>
      http_status c1 \<in> {200, 400, 403, 404, 414, 500, 501} \<and> (http_response_body_finished c1 \<or> is_error_status (http_status c1)) \<and>
      (\<exists>ty ws. queue_rel (writequeue c1) ws \<and> small_pieces contents ws \<and> content_type_is c1 ty))"
  proof (cases "http_status c = 0")
    case True
    then obtain u where u: "text_buffer (request_url (connection_request c)) u" "NUL \<notin> set u" "length u < head_max" "url_path u \<noteq> []"
      using c(3) by (auto simp: sound_request_def)
    have "url_ok root (os_files os) u" unfolding url_ok_def
    proof (intro conjI allI impI)
      show "length root + length u + 2000 < buffer_max" using u(3) root by simp
      show "url_path u \<noteq> []" by (rule u(4))
      have "files_ok contents (os_files os)" "length (url_path u) < head_max"
        using site length_url_path [of u] u(3) by (simp_all add: site_env_def)
      from small_page [OF this, of "full_path root (url_path u)"]
      show "length (directory_page (os_files os) (full_path root (url_path u)) (url_path u)) < buffer_max" by simp
    qed
    moreover obtain s ty ws where r: "resource root t (os_files os) u = (s, ty, ws)" by (cases "resource root t (os_files os) u") auto
    ultimately show ?thesis
      using handle_request_step [OF c(1,2) ok u(1,2), of "(s, ty, ws)"] True resource_status [OF r] small_resource [OF site r u(2,3)]
      by (fastforce simp: returns_iff)
  next
    case False
    then have e: "http_status c \<in> {400, 414, 501}" using c(3) by (auto simp: sound_request_def)
    then have n: "http_status c \<noteq> 0 \<and> http_status c \<noteq> 200" and "is_error_status (http_status c)"
      by (auto simp: is_error_status_def)
    moreover have "small_pieces contents []" by (simp add: small_pieces_def queue_bytes_def queue_sent_def)
    moreover have "used_bytes (content_type response_initialize) = 0" by (simp add: response_initialize_def)
    ultimately show ?thesis using c e
      by (auto simp: state_handle_request_def http_request_handle_def connection_set_state_def connection_wf_def
          content_type_is_def holds_field_def intro!: exI [of _ None] exI [of _ "[]"])
  qed
  then obtain c1 where h: "state_handle_request config c os = Inr c1" "state c1 = CON_STATE_RESPONSE_START" "connection_wf c1"
      "http_status c1 \<in> {200, 400, 403, 404, 414, 500, 501}" "http_response_body_finished c1 \<or> is_error_status (http_status c1)"
      "\<exists>ty ws. queue_rel (writequeue c1) ws \<and> small_pieces contents ws \<and> content_type_is c1 ty"
    by (auto simp: returns_iff)
  have "maps_ok contents (writequeue c1)" using ensuresD [OF handle_request_maps [OF c(2)] h(1)] .
  with h st show ?thesis by (simp add: steps_to_def sound_def sound_answer_def)
qed

lemma sound_step_response_start:
  assumes s: "sound contents config c" and st: "state c = CON_STATE_RESPONSE_START" and site: "site_env contents root t name config os"
  shows "returns (state_response_start config c os) (\<lambda>(c1, os1). steps_to contents config c os c1 os1)"
proof -
  obtain ty ws where c: "connection_wf c" "http_status c \<in> {200, 400, 403, 404, 414, 500, 501}" "maps_ok contents (writequeue c)"
      "http_response_body_finished c \<or> is_error_status (http_status c)" "queue_rel (writequeue c) ws" "small_pieces contents ws"
      "content_type_is c ty"
    using s by (auto simp: sound_def st sound_answer_def)
  have ok: "site_ok config root t name (os_files os)" using site by (simp add: site_env_def)
  then have date: "length (os_strftime (os_files os) (os_time os (os_calls os))) < 128" "length name < 1024"
    by (simp_all add: site_ok_def server_name_is_def)
  obtain c1 where r: "state_response_start config c os = Inr (c1, sys_tick os)" "state c1 = CON_STATE_WRITE" "connection_wf c1"
      "http_response_body_finished c1" "queue_rel (writequeue c1) (reply_pieces (http_version (connection_request c))
         (keep_alive c, http_status c, ty, ws) (os_strftime (os_files os) (os_time os (os_calls os))) name)"
    using response_start_step [OF c(1) refl c(2,5,7,4) ok] by (auto simp: returns_iff)
  have "maps_ok contents (writequeue c1)" using ensuresD [OF response_start_maps [OF c(3)] r(1)] c(2) by auto
  moreover have "sendable contents (reply_pieces (http_version (connection_request c)) (keep_alive c, http_status c, ty, ws)
      (os_strftime (os_files os) (os_time os (os_calls os))) name)"
    by (rule small_reply [OF c(6) known_status [OF c(2)] _ _ date(2,1)]) (use c(2,7) in \<open>auto simp: content_type_is_def\<close>)
  ultimately have "sound contents config c1" using r by (auto simp: sound_def responding_def)
  with r(1,2) st show ?thesis by (simp add: steps_to_def)
qed

lemma sound_step_write:
  assumes s: "sound contents (global_config w) c" and st: "state c = CON_STATE_WRITE"
    and site: "site_env contents root t name (global_config w) os"
  shows "returns (connection_machine_step w c os) (\<lambda>(w1, c1, os1). steps_to contents (global_config w) c os c1 os1)"
proof -
  obtain vs where r: "responding contents c vs" using s by (auto simp: sound_def st)
  have os: "writes_fit os" "maps_files contents os" using site by (simp_all add: site_env_def)
  show ?thesis
  proof (cases "writeable c")
    case True
    obtain c1 os1 ws bss where w: "connection_machine_step w c os = Inr (w, c1, os1)" "same_os os os1" "connection_wf c1"
        "responding contents c1 ws \<and> \<not> writeable c1 \<or> state c1 = CON_STATE_ERROR \<or> state c1 = CON_STATE_RESPONSE_END \<and> ws = []"
      by (rule write_step [OF r True os])
    then show ?thesis by (auto simp: steps_to_def sound_def st resting_def responding_def)
  next
    case False
    have fin: "http_response_body_finished c" "connection_wf c" using r by (simp_all add: responding_def)
    then have "connection_wf (connection_set_state c CON_STATE_RESPONSE_END)" by (simp add: connection_wf_def connection_set_state_def)
    then have "steps_to contents (global_config w) c os (connection_set_state c CON_STATE_RESPONSE_END) os"
      by (intro next_step) (simp_all add: sound_def st)
    moreover have "steps_to contents (global_config w) c os c os" using s by (intro same_step) (simp_all add: st resting_def)
    ultimately show ?thesis using False fin(1) responding_length(1) [OF r]
      by (simp add: connection_machine_step_def st state_write_def)
  qed
qed

text \<open>A connection is attached when its descriptor is in the event table of the worker.\<close>

definition attached :: "worker \<Rightarrow> connection \<Rightarrow> bool" where
  "attached w c \<longleftrightarrow> synced (conn_ev w) \<and> (state c \<noteq> CON_STATE_CONNECT \<longrightarrow> (\<exists>n. node_of (conn_ev w) (conn_socket_fd c) = Some n))"

lemma sound_step_close:
  assumes s: "sound contents config c" and st: "state c = CON_STATE_CLOSE" and at: "attached w c"
  shows "returns (state_close w c os) (\<lambda>(w1, c1, os1). steps_to contents config c os c1 os1)"
proof -
  obtain n where "synced (conn_ev w)" "node_of (conn_ev w) (conn_socket_fd c) = Some n" using at st by (auto simp: attached_def)
  then obtain t1 t2 where t: "fdevents_unset_event (conn_ev w) (conn_socket_fd c) = Inr t1"
      "fdevents_unregister_fd t1 (conn_socket_fd c) = Inr t2" "0 \<le> conn_socket_fd c" "conn_socket_fd c < max_fd (conn_ev w)"
    by (rule close_returns)
  have wf: "connection_wf c" using s by (rule sound_wf)
  have close: "returns (connection_close w (c\<lparr>close_timeout_ts := ts\<rparr>) os1) (\<lambda>(w1, c1, os2). steps_to contents config c os c1 os2)"
    if "same_os os os1" for ts os1
    using t wf that by (simp add: connection_close_def steps_to_def sound_def st sys_close_def connection_wf_def connection_set_state_def)
  have stay: "steps_to contents config c os (c\<lparr>close_timeout_ts := ts\<rparr>) os1" if "same_os os os1" for ts os1
    using wf that st by (simp add: steps_to_def sound_def connection_wf_def resting_def)
  have same: "c\<lparr>close_timeout_ts := close_timeout_ts c\<rparr> = c" by simp
  show ?thesis
    using close [of "sys_tick os"] stay [of "sys_tick os"] close [of "sys_tick os" "close_timeout_ts c"]
      stay [of "sys_tick os" "close_timeout_ts c"]
    by (auto simp: state_close_def sys_read_def Let_def same)
qed

section \<open>Progress and preservation of the machine\<close>

lemma sound_step:
  assumes s: "sound contents (global_config w) c" and site: "site_env contents root t name (global_config w) os"
    and inp: "input_ok c os" and at: "attached w c"
  shows "returns (connection_machine_step w c os) (\<lambda>(w1, c1, os1). steps_to contents (global_config w) c os c1 os1)"
proof (cases "state c")
  case CON_STATE_REQUEST_START
  then have "steps_to contents (global_config w) c os
      (connection_set_state (c\<lparr>start_ts := ts, active_read_ts := ts\<rparr>) CON_STATE_READ) (sys_tick os)" for ts
    using s by (auto simp: steps_to_def sound_def connection_set_state_def connection_wf_def intro!: exI [of _ "[]"])
  then show ?thesis
    by (simp add: connection_machine_step_def CON_STATE_REQUEST_START state_request_start_def sys_time_def)
next
  case CON_STATE_READ
  with sound_step_read [OF s _ site inp, of "cur_ts w"] show ?thesis
    by (simp add: connection_machine_step_def case_prod_beta')
next
  case CON_STATE_REQUEST_END
  with sound_step_request_end [OF s] show ?thesis by (simp add: connection_machine_step_def)
next
  case CON_STATE_HANDLE_REQUEST
  with sound_step_handle [OF s _ site] show ?thesis by (simp add: connection_machine_step_def)
next
  case CON_STATE_RESPONSE_START
  with sound_step_response_start [OF s _ site] show ?thesis by (simp add: connection_machine_step_def case_prod_beta')
next
  case CON_STATE_WRITE
  from sound_step_write [OF s this site] show ?thesis .
next
  case CON_STATE_RESPONSE_END
  obtain c1 where "connection_machine_step w c os =
      Inr (w, c1, if keep_alive c then os else sys_emit [Shut_wr (conn_socket_fd c)] (sys_tick os))"
    "connection_wf c1" "state c1 = (if keep_alive c then CON_STATE_REQUEST_START else CON_STATE_CLOSE)"
    "\<not> readable c1" "read_queue (readqueue c1) []" "queue_rel (writequeue c1) []" "fresh_request (connection_request c1)"
    by (rule response_end_step [OF CON_STATE_RESPONSE_END sound_wf [OF s]])
  then show ?thesis by (simp add: steps_to_def CON_STATE_RESPONSE_END sound_def)
next
  case CON_STATE_ERROR
  obtain c1 where "connection_machine_step w c os = Inr (w, c1, sys_emit [Shut_wr (conn_socket_fd c)] (sys_tick os))"
    "connection_wf c1" "state c1 = CON_STATE_CLOSE" by (rule error_step [OF CON_STATE_ERROR sound_wf [OF s]])
  then show ?thesis by (simp add: steps_to_def CON_STATE_ERROR sound_def)
next
  case CON_STATE_CLOSE
  with sound_step_close [OF s _ at] show ?thesis by (simp add: connection_machine_step_def)
next
  case CON_STATE_CONNECT
  with s show ?thesis by (simp add: connection_machine_step_def steps_to_def resting_def)
qed

lemma attached_moved:
  assumes "attached w c" and "moved w c w1 c1"
  shows "attached w1 c1" and "global_config w1 = global_config w"
proof -
  have "w1 = w \<and> conn_ids c1 = conn_ids c \<and> (state c1 = CON_STATE_CONNECT \<longleftrightarrow> state c = CON_STATE_CONNECT) \<or>
      state c1 = CON_STATE_CONNECT \<and> close_effect w (conn_socket_fd c) w1"
    using assms(2) by (auto simp: moved_def)
  then have "attached w1 c1 \<and> global_config w1 = global_config w"
  proof (elim disjE conjE)
    assume "state c1 = CON_STATE_CONNECT" and e: "close_effect w (conn_socket_fd c) w1"
    from e obtain t1 t2 where "fdevents_unset_event (conn_ev w) (conn_socket_fd c) = Inr t1"
        "fdevents_unregister_fd t1 (conn_socket_fd c) = Inr t2" "w1 = w\<lparr>conn_ev := t2\<rparr>"
      by (auto simp: close_effect_def)
    with close_binding [of "conn_ev w" "conn_socket_fd c" t1 t2] assms(1) \<open>state c1 = CON_STATE_CONNECT\<close> show ?thesis
      by (simp add: attached_def)
  qed (use assms(1) in \<open>auto simp: attached_def conn_ids_def\<close>)
  then show "attached w1 c1" "global_config w1 = global_config w" by blast+
qed

lemma sound_loop:
  assumes "machine_rank c \<le> n" and "sound contents (global_config w) c" and "site_env contents root t name (global_config w) os"
    and "input_ok c os" and "attached w c"
  shows "returns (connection_machine_loop n w c os) (\<lambda>(w1, c1, os1). sound contents (global_config w) c1 \<and> resting (state c1) \<and>
    same_os os os1)"
  using assms
proof (induction n arbitrary: w c os)
  case 0
  with machine_rank_pos [of c] show ?case by simp
next
  case (Suc n)
  obtain w1 c1 os1 where step: "connection_machine_step w c os = Inr (w1, c1, os1)" "steps_to contents (global_config w) c os c1 os1"
    using sound_step [OF Suc.prems(2,3,4,5)] by (auto simp: returns_iff)
  have m: "stepped w c w1 c1" using ensuresD [OF connection_machine_step_moved step(1)] by simp
  then have mv: "moved w c w1 c1" by (simp add: stepped_def)
  note at = attached_moved [OF Suc.prems(5) mv]
  have same: "same_os os os1" and snd: "sound contents (global_config w1) c1"
    using step(2) at(2) by (simp_all add: steps_to_def)
  show ?case
  proof (cases "state c1 = state c")
    case True
    with step show ?thesis by (simp add: steps_to_def)
  next
    case False
    have "machine_rank c1 \<le> n" using m Suc.prems(1) False by (auto simp: stepped_def)
    moreover have "site_env contents root t name (global_config w1) os1"
      using Suc.prems(3) site_env_same [OF same] at(2) by simp
    moreover have "input_ok c1 os1" using step(2) False by (auto simp: steps_to_def input_ok_def)
    ultimately have "returns (connection_machine_loop n w1 c1 os1) (\<lambda>(w2, c2, os2). sound contents (global_config w1) c2 \<and>
        resting (state c2) \<and> same_os os1 os2)"
      using Suc.IH snd at(1) by blast
    with step(1) False at(2) same same_os_trans show ?thesis by (fastforce simp: returns_iff)
  qed
qed

lemma finish_returns:
  assumes wf: "worker_wf w" and c: "conn_heap w a = Some c" and m: "moved w c w1 c1" and c1: "connection_wf c1" and at: "attached w1 c1"
  shows "returns (connection_machine_finish w1 a c1) (\<lambda>w2. conn_heap w2 = (if state c1 = CON_STATE_CONNECT then (conn_heap w)(a := None)
    else (conn_heap w)(a \<mapsto> c1)))"
proof -
  obtain vs ws where q: "queue_rel (readqueue c1) vs" "queue_rel (writequeue c1) ws" using c1 by (auto simp: connection_wf_def)
  have w1: "conn_heap w1 = conn_heap w" "conn_slots w1 = conn_slots w" using m by (auto simp: moved_def close_effect_def)
  show ?thesis
  proof (cases "state c1 = CON_STATE_CONNECT")
    case True
    have "unat (connection_index c1) < length (conn_slots w1)"
      using heap_okD(3) [OF worker_wfD(3) [OF wf] c] moved_ids [OF m] w1(2) by simp
    moreover obtain q1 q2 where "chunkqueue_free (readqueue c1) = Inr q1" "chunkqueue_free (writequeue c1) = Inr q2"
      using chunkqueue_free_rel [OF q(1)] chunkqueue_free_rel [OF q(2)] by (auto simp: returns_iff)
    ultimately show ?thesis by (simp add: connection_machine_finish_def True connection_free_def w1)
  next
    case False
    with at obtain n where n: "synced (conn_ev w1)" "node_of (conn_ev w1) (conn_socket_fd c1) = Some n" by (auto simp: attached_def)
    obtain t1 t2 t3 where "fdevents_set_events (conn_ev w1) (conn_socket_fd c1) EPOLLIN = Inr t1"
        "fdevents_set_events (conn_ev w1) (conn_socket_fd c1) EPOLLOUT = Inr t2"
        "fdevents_unset_event (conn_ev w1) (conn_socket_fd c1) = Inr t3"
      using set_events_ok [OF synced_wf [OF n(1)] n(2), of EPOLLIN] set_events_ok [OF synced_wf [OF n(1)] n(2), of EPOLLOUT]
        unset_event_ok [OF synced_wf [OF n(1)] n(2)] by (auto simp: returns_iff)
    with False chunkqueue_length_rel [OF q(2)] show ?thesis
      by (auto simp: connection_machine_finish_def Let_def w1)
  qed
qed

section \<open>The handlers of a worker\<close>

definition sound_worker :: "(string \<Rightarrow> string) \<Rightarrow> worker \<Rightarrow> bool" where
  "sound_worker contents w \<longleftrightarrow> worker_wf w \<and>
     (\<forall>a c. conn_heap w a = Some c \<longrightarrow> sound contents (global_config w) c \<and> resting (state c))"

lemma sound_worker_wf: "sound_worker contents w \<Longrightarrow> worker_wf w"
  by (simp add: sound_worker_def)

lemma sound_workerD:
  "sound_worker contents w \<Longrightarrow> conn_heap w a = Some c \<Longrightarrow> sound contents (global_config w) c"
  "sound_worker contents w \<Longrightarrow> conn_heap w a = Some c \<Longrightarrow> resting (state c)"
  by (simp_all add: sound_worker_def)

text \<open>What every handler does to a sound worker.\<close>

definition handles :: "(string \<Rightarrow> string) \<Rightarrow> worker \<Rightarrow> os_env \<Rightarrow> worker \<Rightarrow> os_env \<Rightarrow> bool" where
  "handles contents w os w1 os1 \<longleftrightarrow> sound_worker contents w1 \<and> keeps w w1 \<and> same_os os os1"

lemma handles_refl: "sound_worker contents w \<Longrightarrow> same_os os os1 \<Longrightarrow> handles contents w os w os1"
  by (simp add: handles_def keeps_refl sound_worker_wf)

lemma handles_trans: "handles contents w os w1 os1 \<Longrightarrow> handles contents w1 os1 w2 os2 \<Longrightarrow> handles contents w os w2 os2"
  unfolding handles_def using keeps_trans same_os_trans by blast

lemma handles_sound: "handles contents w os w1 os1 \<Longrightarrow> sound_worker contents w1"
  by (simp add: handles_def)

lemma keeps_config: "keeps w w1 \<Longrightarrow> global_config w1 = global_config w"
  by (simp add: keeps_def same_worker_def)

lemma handles_site:
  "handles contents w os w1 os1 \<Longrightarrow> site_env contents root t name (global_config w) os \<Longrightarrow> site_env contents root t name (global_config w1) os1"
  using site_env_same [of os os1] keeps_config [of w w1] by (simp add: handles_def)

text \<open>The machine, from a sound connection; the others are as they were.\<close>

lemma machine_sound:
  assumes wf: "worker_wf w" and c: "conn_heap w a = Some c" and s: "sound contents (global_config w) c" and inp: "input_ok c os"
    and site: "site_env contents root t name (global_config w) os"
    and others: "\<forall>b d. b \<noteq> a \<longrightarrow> conn_heap w b = Some d \<longrightarrow> sound contents (global_config w) d \<and> resting (state d)"
  shows "returns (connection_state_machine w a os) (\<lambda>(w1, os1). handles contents w os w1 os1)"
proof -
  obtain n where "node_of (conn_ev w) (conn_socket_fd c) = Some n" by (rule live_node [OF wf c])
  then have at: "attached w c" using worker_wfD(1) [OF wf] by (simp add: attached_def)
  obtain w1 c1 os1 where l: "connection_machine_loop machine_fuel w c os = Inr (w1, c1, os1)" "sound contents (global_config w) c1"
      "resting (state c1)" "same_os os os1"
    using sound_loop [OF machine_rank_bound s site inp at] by (auto simp: returns_iff)
  have m: "moved w c w1 c1" using ensuresD [OF connection_machine_loop_moved l(1)] by simp
  obtain w2 where f: "connection_machine_finish w1 a c1 = Inr w2" "conn_heap w2 = (if state c1 = CON_STATE_CONNECT then (conn_heap w)(a := None)
      else (conn_heap w)(a \<mapsto> c1))"
    using finish_returns [OF wf c m sound_wf [OF l(2)] attached_moved(1) [OF at m]] by (auto simp: returns_iff)
  have r: "connection_state_machine w a os = Inr (w2, os1)" using l(1) f(1) by (simp add: connection_state_machine_def c)
  have k: "keeps w w2" using ensuresD [OF connection_state_machine_keeps [OF wf] r] by simp
  have "sound contents (global_config w2) d \<and> resting (state d)" if "conn_heap w2 b = Some d" for b d
    using that f(2) l(2,3) others keeps_config [OF k] by (auto split: if_splits)
  with k l(4) r show ?thesis by (simp add: handles_def sound_worker_def keeps_wf)
qed

text \<open>The same after the connection has been changed in place, as the events and the timer do.\<close>

lemma machine_sound_update:
  assumes w: "sound_worker contents w" and c: "conn_heap w a = Some c" and c1: "conn_ids c1 = conn_ids c" "state c1 \<noteq> CON_STATE_CONNECT"
    and s: "sound contents (global_config w) c1" and inp: "input_ok c1 os" and site: "site_env contents root t name (global_config w) os"
  shows "returns (connection_state_machine (w\<lparr>conn_heap := (conn_heap w)(a \<mapsto> c1)\<rparr>) a os) (\<lambda>(w1, os1). handles contents w os w1 os1)"
proof -
  let ?w = "w\<lparr>conn_heap := (conn_heap w)(a \<mapsto> c1)\<rparr>"
  have k: "keeps w ?w" by (rule keeps_update [OF sound_worker_wf [OF w] c c1])
  have "returns (connection_state_machine ?w a os) (\<lambda>(w1, os1). handles contents ?w os w1 os1)"
    by (rule machine_sound [OF keeps_wf [OF k]]) (use s inp site sound_workerD [OF w] in auto)
  then show ?thesis
    by (rule returns_mono) (use keeps_trans [OF k] in \<open>auto simp: handles_def\<close>)
qed

lemma responding_flags [simp]:
  "responding contents (c\<lparr>readable := k\<rparr>) = responding contents c" "responding contents (c\<lparr>writeable := k\<rparr>) = responding contents c"
  by (auto simp: responding_def connection_wf_def fun_eq_iff)

lemma sound_writeable [simp]: "sound contents config (c\<lparr>writeable := k\<rparr>) = sound contents config c"
  by (cases "state c") (simp_all add: sound_def connection_wf_def sound_request_def sound_answer_def content_type_is_def)

lemma sound_readable: "resting (state c) \<Longrightarrow> sound contents config (c\<lparr>readable := k\<rparr>) = sound contents config c"
  by (cases "state c") (simp_all add: sound_def resting_def connection_wf_def)

lemma note_events_sound:
  assumes n: "connection_note_events es c os = (c1, os1)" and s: "sound contents config c" and r: "resting (state c)"
  shows "sound contents config c1" and "same_os os os1"
proof -
  let ?c = "(if es AND EPOLLOUT \<noteq> 0 then (if es AND EPOLLIN \<noteq> 0 then c\<lparr>readable := True\<rparr> else c)\<lparr>writeable := True\<rparr>
    else if es AND EPOLLIN \<noteq> 0 then c\<lparr>readable := True\<rparr> else c)"
  have wf: "connection_wf ?c" using sound_wf [OF s] by (simp add: connection_wf_def)
  have "sound contents config ?c" using s sound_readable [OF r, of contents config True] by simp
  moreover have "sound contents config (connection_set_state ?c CON_STATE_ERROR)"
    using wf by (simp add: sound_def connection_wf_def connection_set_state_def)
  moreover have "sound contents config (?c\<lparr>close_timeout_ts := ts\<rparr>)" if "state ?c = CON_STATE_CLOSE" for ts
    using wf that by (simp add: sound_def connection_wf_def)
  ultimately show "sound contents config c1" "same_os os os1"
    using n unfolding connection_note_events_def Let_def
    by (auto simp: sys_time_def split: if_splits)
qed

lemma connection_event_sound:
  assumes w: "sound_worker contents w" and c: "conn_heap w a = Some c" and site: "site_env contents root t name (global_config w) os"
    and inp: "case connection_note_events es c os of (c1, os1) \<Rightarrow> input_ok c1 os1"
  shows "returns (connection_event_handle w a es os) (\<lambda>(w1, os1). handles contents w os w1 os1)"
proof -
  obtain c1 os1 where n: "connection_note_events es c os = (c1, os1)" by (cases "connection_note_events es c os")
  note s = note_events_sound [OF n sound_workerD [OF w c]]
  have "state c \<noteq> CON_STATE_CONNECT" using heap_okD(2) [OF worker_wfD(3) [OF sound_worker_wf [OF w]] c] .
  note ids = note_events_ids [OF n this]
  have "site_env contents root t name (global_config w) os1" using site site_env_same [OF s(2)] by simp
  from machine_sound_update [OF w c _ _ s(1) _ this] ids inp n
  have "returns (connection_state_machine (w\<lparr>conn_heap := (conn_heap w)(a \<mapsto> c1)\<rparr>) a os1) (\<lambda>(w1, os2). handles contents w os1 w1 os2)"
    by simp
  then have "returns (connection_state_machine (w\<lparr>conn_heap := (conn_heap w)(a \<mapsto> c1)\<rparr>) a os1) (\<lambda>(w1, os2). handles contents w os w1 os2)"
    by (rule returns_mono) (use same_os_trans [OF s(2)] in \<open>auto simp: handles_def\<close>)
  then show ?thesis by (simp add: connection_event_handle_def c n)
qed

text \<open>A new connection is sound before its machine runs.\<close>

lemma new_connection_sound:
  "sound contents config ((connection_set_default memory)\<lparr>connection_index := i, conn_socket_fd := f\<rparr>)"
  using connection_set_default_wf [of memory] read_queue_empty [OF queue_rel_init] queue_rel_init fresh_request_initialize
  by (simp add: sound_def connection_wf_def connection_set_default_def)

lemma worker_accept_sound:
  assumes w: "sound_worker contents w" and site: "site_env contents root t name (global_config w) os"
    and f: "0 \<le> f" "f < max_fd (conn_ev w)" "binding (conn_ev w) f = None"
  shows "returns (worker_accept memory f w os) (\<lambda>(r, w1, os1). handles contents w os w1 os1)"
proof (cases "conn_max_size w \<le> cur_connection_number w")
  case True
  then show ?thesis using handles_refl [OF w, of os "sys_close os f"]
    by (simp add: worker_accept_def worker_get_new_connection_def sys_close_def)
next
  case False
  note wf = sound_worker_wf [OF w]
  let ?a = "conn_brk w"
  have "cur_connection_number w < conn_max_size w" using False by simp
  then obtain i where i: "find_slot w 0 = Inr i" "i < unat (conn_max_size w)" by (rule free_slot [OF wf])
  have slot: "i < length (conn_slots w)" "conn_slots w ! i = None" using find_slot_free [OF i] by simp_all
  have "node_of (conn_ev w) f = None" using f(3) by (simp add: binding_def)
  then obtain t1 where t: "fdevents_register_fd (conn_ev w) f Connection_event_handle (Ctx_connection ?a) = Inr t1"
    using register_ok [OF synced_wf [OF worker_wfD(1) [OF wf]] f(1,2)] by (auto simp: returns_iff)
  let ?c = "(connection_set_default memory)\<lparr>connection_index := of_nat i, conn_socket_fd := f\<rparr>"
  let ?w = "w\<lparr>cur_connection_number := cur_connection_number w + 1, conn_slots := (conn_slots w)[i := Some ?a],
      conn_brk := Suc ?a, conn_heap := (conn_heap w)(?a \<mapsto> ?c), conn_ev := t1\<rparr>"
  have "i < 2 ^ 32" using i(2) unat_u32_lt [of "conn_max_size w"] by simp
  then have wf1: "worker_wf ?w"
    using register_binding [OF worker_wfD(1) [OF wf] t]
    by (intro worker_wf_insert [OF wf slot, of _ f]) (simp_all add: unat_of_nat_u32 connection_set_default_def)
  have "input_ok ?c os" by (simp add: input_ok_def connection_set_default_def)
  then have "returns (connection_state_machine ?w ?a os) (\<lambda>(w1, os1). handles contents ?w os w1 os1)"
    by (intro machine_sound [OF wf1]) (use new_connection_sound site sound_workerD [OF w] in auto)
  then obtain w1 os1 where m: "connection_state_machine ?w ?a os = Inr (w1, os1)" "sound_worker contents w1" "same_os os os1"
    by (auto simp: returns_iff handles_def)
  have r: "worker_accept memory f w os = Inr (0, w1, os1)"
    using False i t m(1) by (simp add: worker_accept_def worker_get_new_connection_def Let_def)
  with m ensuresD [OF worker_accept_keeps [OF wf] r] show ?thesis by (simp add: handles_def)
qed

text \<open>The socket of the master: its descriptor is registered, and what arrives on it is new to the worker.\<close>

lemma same_os_from_tick [simp]: "same_os (sys_tick os) os1 = same_os os os1"
  by (simp add: same_os_def sys_tick_def)

lemma bound_node: "binding t f = Some x \<Longrightarrow> \<exists>n. node_of t f = Some n"
  by (auto simp: binding_def)

lemma leave_sound:
  assumes w: "sound_worker contents w" and b: "binding (conn_ev w) f = Some x" and os: "same_os os os1"
  shows "returns (andthen (fdevents_unset_event (conn_ev w) f) (\<lambda>ev1. Inr (code :: int, w\<lparr>conn_ev := ev1\<rparr>, os1)))
    (\<lambda>(r, w1, os1). handles contents w os w1 os1)"
proof -
  note wf = sound_worker_wf [OF w]
  note sy = worker_wfD(1) [OF wf]
  obtain n where "node_of (conn_ev w) f = Some n" using bound_node [OF b] by blast
  from unset_event_ok [OF synced_wf [OF sy] this] obtain t where t: "fdevents_unset_event (conn_ev w) f = Inr t"
    by (auto simp: returns_iff)
  have "keeps w (w\<lparr>conn_ev := t\<rparr>)"
    by (rule keeps_events [OF wf]) (use unset_event_binding [OF sy t] in simp_all)
  with t w os show ?thesis by (auto simp: handles_def sound_worker_def keeps_wf)
qed

lemma unix_domain_socket_sound:
  assumes w: "sound_worker contents w" and site: "site_env contents root t name (global_config w) os"
    and b: "binding (conn_ev w) fd = Some x"
    and new: "\<forall>f. os_recvfd os (os_calls os) = Inr (Some f) \<longrightarrow> 0 \<le> f \<and> f < max_fd (conn_ev w) \<and> binding (conn_ev w) f = None"
  shows "returns (unix_domain_socket_handle memory fd es w os) (\<lambda>(r, w1, os1). handles contents w os w1 os1)"
proof -
  have acc: "returns (worker_accept memory f w (sys_tick os)) (\<lambda>(r, w1, os1). handles contents w os w1 os1)"
    if "os_recvfd os (os_calls os) = Inr (Some f)" for f
  proof -
    have "site_env contents root t name (global_config w) (sys_tick os)" using site site_env_same [of os "sys_tick os"] by simp
    from worker_accept_sound [OF w this, of f memory] new that show ?thesis
      by (auto simp: handles_def returns_iff)
  qed
  show ?thesis
    using leave_sound [OF w b same_os_refl] leave_sound [OF w b, of os "sys_tick os"] acc handles_refl [OF w]
    by (auto simp: unix_domain_socket_handle_def Let_def sys_recvfd_def simp del: returns_andthen
        split: sum.split option.split)
qed

text \<open>The timer.\<close>

lemma timer_step_sound:
  assumes w: "sound_worker contents w" and site: "site_env contents root t name (global_config w) os"
    and i: "i < length (conn_slots w)"
  shows "returns (timer_step i w os) (\<lambda>(w1, os1). handles contents w os w1 os1)"
proof (cases "conn_slots w ! i")
  case None
  with i handles_refl [OF w same_os_refl] show ?thesis by (simp add: timer_step_def)
next
  case (Some a)
  note wf = worker_wfD [OF sound_worker_wf [OF w]]
  obtain c where c: "conn_heap w a = Some c" using wf(2) i Some unfolding slots_ok_def by blast
  obtain hit c1 where chk: "timer_check w c = (hit, c1)" by (cases "timer_check w c")
  have live: "state c \<noteq> CON_STATE_CONNECT" using heap_okD(2) [OF wf(3) c] .
  note ids = timer_check_ids [OF chk live]
  show ?thesis
  proof (cases hit)
    case False
    then have "w\<lparr>conn_heap := (conn_heap w)(a \<mapsto> c1)\<rparr> = w" using chk c by (auto simp: timer_check_def fun_upd_idem split: if_splits)
    with False i Some c chk handles_refl [OF w same_os_refl] show ?thesis by (simp add: timer_step_def)
  next
    case True
    then have "c1 = connection_set_state c CON_STATE_ERROR \<or> c1 = c \<and> state c = CON_STATE_CLOSE"
      using chk by (auto simp: timer_check_def split: if_splits)
    then have "sound contents (global_config w) c1" "input_ok c1 os"
      using sound_workerD(1) [OF w c] sound_wf [OF sound_workerD(1) [OF w c]]
      by (auto simp: sound_def connection_wf_def connection_set_state_def input_ok_def)
    from machine_sound_update [OF w c _ _ this site] ids True i Some c chk show ?thesis by (simp add: timer_step_def)
  qed
qed

section \<open>Runs of steps that return\<close>

text \<open>
  A list of things to do, each of which returns where it is allowed, and then keeps a relation to the state before it:
  the loop of the timer over the connections, and the events of a batch.
\<close>

locale safe_run =
  fixes step :: "'e \<Rightarrow> 's \<Rightarrow> fault + 's" and run :: "'e list \<Rightarrow> 's \<Rightarrow> fault + 's"
    and inv :: "'s \<Rightarrow> bool" and rel :: "'s \<Rightarrow> 's \<Rightarrow> bool" and allowed :: "'e \<Rightarrow> 's \<Rightarrow> bool"
  assumes run_Nil: "run [] s = Inr s"
    and run_Cons: "run (e # es) s = andthen (step e s) (run es)"
    and rel_refl: "inv s \<Longrightarrow> rel s s"
    and rel_trans: "rel s t \<Longrightarrow> rel t u \<Longrightarrow> rel s u"
    and rel_inv: "inv s \<Longrightarrow> rel s t \<Longrightarrow> inv t"
    and progress: "inv s \<Longrightarrow> allowed e s \<Longrightarrow> returns (step e s) (rel s)"
begin

lemma run_returns:
  assumes "inv s" and "\<And>pre e post t. es = pre @ e # post \<Longrightarrow> run pre s = Inr t \<Longrightarrow> rel s t \<Longrightarrow> allowed e t"
  shows "returns (run es s) (rel s)"
  using assms
proof (induction es arbitrary: s)
  case Nil
  then show ?case by (simp add: run_Nil rel_refl)
next
  case (Cons e es)
  have "allowed e s" using Cons.prems(2) [of "[]" e es s] by (simp add: run_Nil rel_refl [OF Cons.prems(1)])
  then obtain t where t: "step e s = Inr t" "rel s t" using progress [OF Cons.prems(1)] by (auto simp: returns_iff)
  have "returns (run es t) (rel t)"
  proof (rule Cons.IH [OF rel_inv [OF Cons.prems(1) t(2)]])
    fix pre f post u
    assume "es = pre @ f # post" "run pre t = Inr u" "rel t u"
    with t Cons.prems(2) [of "e # pre" f post u] rel_trans show "allowed f u" by (simp add: run_Cons)
  qed
  then have "returns (run es t) (rel s)" by (rule returns_mono) (rule rel_trans [OF t(2)])
  with t(1) show ?case by (simp add: run_Cons)
qed

end

abbreviation sound_state :: "(string \<Rightarrow> string) \<Rightarrow> string \<Rightarrow> mime_table \<Rightarrow> string \<Rightarrow> worker \<times> os_env \<Rightarrow> bool" where
  "sound_state contents root t name s \<equiv> sound_worker contents (fst s) \<and> site_env contents root t name (global_config (fst s)) (snd s)"

abbreviation handles_state :: "(string \<Rightarrow> string) \<Rightarrow> worker \<times> os_env \<Rightarrow> worker \<times> os_env \<Rightarrow> bool" where
  "handles_state contents s u \<equiv> handles contents (fst s) (snd s) (fst u) (snd u)"

interpretation safe_timer: safe_run "\<lambda>i (w, os). timer_step i w os" "\<lambda>is (w, os). timer_loop is w os"
  "sound_state contents root t name" "handles_state contents" "\<lambda>i s. i < length (conn_slots (fst s))"
  for contents root t name
proof unfold_locales
  fix s :: "worker \<times> os_env" and i
  assume "sound_state contents root t name s" "i < length (conn_slots (fst s))"
  then show "returns (case s of (w, os) \<Rightarrow> timer_step i w os) (handles_state contents s)"
    using timer_step_sound [of contents "fst s" root t name "snd s" i] by (simp add: case_prod_beta')
qed (auto simp: handles_refl intro: handles_trans handles_site handles_sound)

lemma worker_timer_sound:
  assumes w: "sound_worker contents w" and site: "site_env contents root t name (global_config w) os"
  shows "returns (worker_timer_expire_handler fd es w os) (\<lambda>(r, w1, os1). handles contents w os w1 os1)"
proof -
  let ?now = "os_time (sys_tick os) (os_calls (sys_tick os))"
  let ?w = "w\<lparr>cur_ts := ?now\<rparr>" and ?os = "sys_tick (sys_tick os)"
  have k: "keeps w ?w" by (rule keeps_ts [OF sound_worker_wf [OF w]])
  have w1: "sound_worker contents ?w" using w keeps_wf [OF k] by (simp add: sound_worker_def)
  have "returns ((\<lambda>is (w, os). timer_loop is w os) [0..<unat (conn_max_size w)] (?w, ?os)) (handles_state contents (?w, ?os))"
  proof (rule safe_timer.run_returns)
    show "sound_state contents root t name (?w, ?os)" using w1 site site_env_same [of os ?os] by simp
  next
    fix pre i post u
    assume a: "[0..<unat (conn_max_size w)] = pre @ i # post" "handles_state contents (?w, ?os) u"
    have "i \<in> set [0..<unat (conn_max_size w)]" unfolding a(1) by simp
    moreover note a(2)
    moreover have "length (conn_slots w) = unat (conn_max_size w)"
      using worker_wfD(2) [OF sound_worker_wf [OF w]] by (simp add: slots_ok_def)
    ultimately show "i < length (conn_slots (fst u))" by (simp add: handles_def keeps_def same_worker_def)
  qed
  then obtain w2 os2 where l: "timer_loop [0..<unat (conn_max_size w)] ?w ?os = Inr (w2, os2)" "handles contents ?w ?os w2 os2"
    by (auto simp: returns_iff)
  moreover from l(2) have "handles contents w os w2 os2"
    using keeps_trans [OF k] by (auto simp: handles_def)
  ultimately show ?thesis
    using handles_refl [OF w] by (simp add: worker_timer_expire_handler_def sys_read_def sys_time_def)
qed

section \<open>The events of a worker\<close>

text \<open>
  What is asked of an event: its descriptor is in the table (which excludes the events of connections closed earlier
  in the same batch); what a connection is about to read, if it completes a request, completes a sane one; and
  the descriptor the master has sent is a new one.
\<close>

definition event_ok :: "worker \<Rightarrow> os_env \<Rightarrow> event \<Rightarrow> bool" where
  "event_ok w os e \<longleftrightarrow> (case e of (memory, fd, es) \<Rightarrow>
     (case binding (conn_ev w) fd of
        None \<Rightarrow> False
      | Some (h, ctx) \<Rightarrow>
          (case ctx of
             Ctx_connection a \<Rightarrow> (\<forall>c. conn_heap w a = Some c \<longrightarrow>
               (case connection_note_events es c os of (c1, os1) \<Rightarrow> input_ok c1 os1))
           | Ctx_worker \<Rightarrow> h = Unix_domain_socket_handle \<longrightarrow> (\<forall>f. os_recvfd os (os_calls os) = Inr (Some f) \<longrightarrow>
               0 \<le> f \<and> f < max_fd (conn_ev w) \<and> binding (conn_ev w) f = None))))"

lemma worker_event_sound:
  assumes w: "sound_worker contents w" and site: "site_env contents root t name (global_config w) os"
    and e: "event_ok w os (memory, fd, es)"
  shows "returns (worker_event memory fd es w os) (\<lambda>(w1, os1). handles contents w os w1 os1)"
proof -
  note wf = worker_wfD [OF sound_worker_wf [OF w]]
  obtain h ctx where b: "binding (conn_ev w) fd = Some (h, ctx)"
    using e by (auto simp: event_ok_def split: option.splits)
  then obtain n where n: "node_of (conn_ev w) fd = Some n" "handler n = h" "handler_ctx n = ctx" by (auto simp: binding_def)
  note look = lookup_ok [OF synced_wf [OF wf(1)] n(1)] n(2,3)
  have k: "case ctx of Ctx_connection a \<Rightarrow> h = Connection_event_handle \<and> (\<exists>c. conn_heap w a = Some c \<and> conn_socket_fd c = fd)
      | Ctx_worker \<Rightarrow> h \<noteq> Connection_event_handle" using wf(4) b by (simp add: bindings_ok_def)
  show ?thesis
  proof (cases ctx)
    case (Ctx_connection a)
    with k obtain c where c: "conn_heap w a = Some c" "h = Connection_event_handle" by auto
    have "case connection_note_events es c os of (c1, os1) \<Rightarrow> input_ok c1 os1"
      using e b c(1) Ctx_connection by (simp add: event_ok_def)
    from connection_event_sound [OF w c(1) site this] show ?thesis
      by (simp add: worker_event_def look c(2) Ctx_connection)
  next
    case Ctx_worker
    show ?thesis
    proof (cases "h = Unix_domain_socket_handle")
      case True
      have new: "\<forall>f. os_recvfd os (os_calls os) = Inr (Some f) \<longrightarrow> 0 \<le> f \<and> f < max_fd (conn_ev w) \<and> binding (conn_ev w) f = None"
        using e b True Ctx_worker by (simp add: event_ok_def)
      from unix_domain_socket_sound [OF w site b this, of memory es] show ?thesis
        by (simp add: worker_event_def look True Ctx_worker case_prod_beta')
    next
      case False
      with k Ctx_worker have "h = Worker_timer_expire_handler" by (cases h) auto
      with worker_timer_sound [OF w site, of fd es] show ?thesis
        by (simp add: worker_event_def look Ctx_worker case_prod_beta')
    qed
  qed
qed

interpretation safe_batch: safe_run "\<lambda>(memory, fd, es) (w, os). worker_event memory fd es w os" "\<lambda>evs (w, os). worker_batch evs w os"
  "sound_state contents root t name" "handles_state contents" "\<lambda>e s. event_ok (fst s) (snd s) e"
  for contents root t name
proof unfold_locales
  fix s :: "worker \<times> os_env" and e :: event
  assume "sound_state contents root t name s" "event_ok (fst s) (snd s) e"
  moreover obtain memory fd es where "e = (memory, fd, es)" by (rule prod_cases3)
  ultimately show "returns ((case e of (memory, fd, es) \<Rightarrow> \<lambda>(w, os). worker_event memory fd es w os) s) (handles_state contents s)"
    using worker_event_sound [of contents "fst s" root t name "snd s" memory fd es] by (simp add: case_prod_beta')
qed (auto simp: handles_refl intro: handles_trans handles_site handles_sound split: prod.splits)

text \<open>A whole batch, each of its events allowed when it is its turn.\<close>

lemma worker_batch_sound:
  assumes "sound_worker contents w" and "site_env contents root t name (global_config w) os"
    and "\<And>pre e post w1 os1. evs = pre @ e # post \<Longrightarrow> worker_batch pre w os = Inr (w1, os1) \<Longrightarrow> event_ok w1 os1 e"
  shows "returns (worker_batch evs w os) (\<lambda>(w1, os1). handles contents w os w1 os1)"
proof -
  have "returns ((\<lambda>evs (w, os). worker_batch evs w os) evs (w, os)) (handles_state contents (w, os))"
    by (rule safe_batch.run_returns [where root = root and t = t and name = name]) (use assms in auto)
  then show ?thesis by (simp add: case_prod_beta')
qed

section \<open>From the start of a worker\<close>

text \<open>The states a worker reaches by events that are allowed.\<close>

inductive reached :: "worker \<Rightarrow> os_env \<Rightarrow> worker \<Rightarrow> os_env \<Rightarrow> bool" for w os where
  at_start: "reached w os w os"
| after_event: "reached w os w1 os1 \<Longrightarrow> event_ok w1 os1 (memory, fd, es) \<Longrightarrow>
    worker_event memory fd es w1 os1 = Inr (w2, os2) \<Longrightarrow> reached w os w2 os2"

lemma reached_sound:
  assumes "reached w os w1 os1" and "sound_worker contents w" and "site_env contents root t name (global_config w) os"
  shows "handles contents w os w1 os1"
  using assms
proof (induction rule: reached.induct)
  case at_start
  then show ?case by (simp add: handles_refl)
next
  case (after_event w1 os1 memory fd es w2 os2)
  then have h: "handles contents w os w1 os1" by blast
  from worker_event_sound [OF handles_sound [OF h] handles_site [OF h after_event.prems(2)] after_event.hyps(2)] after_event.hyps(3)
  have "handles contents w1 os1 w2 os2" by simp
  with h show ?case by (rule handles_trans)
qed

lemma worker_start_sound:
  assumes "worker_start epoll_create process_id unix_fd config limit timer_fd os = Inr (w, os1)"
  shows "sound_worker contents w \<and> global_config w = config \<and> same_os os os1"
proof -
  have "conn_heap w = (\<lambda>a. None) \<and> same_os os os1"
    using assms by (auto simp: worker_start_defs andthen_Inr_iff Let_def worker_connection_initialize_def sys_time_def split: option.splits)
  with worker_start_wf [OF assms] show ?thesis by (simp add: sound_worker_def)
qed

section \<open>Properties\<close>

text \<open>
  C2: A worker does not fault on allowed inputs. Once it has started, in every state it reaches by events that are allowed, every
  event that is allowed is handled: the handler returns, having dereferenced no null pointer, read or written
  nothing outside its blocks or uninitialised, used nothing that was freed, failed no assertion and run no loop
  without end, in whatever order the events come; and every connection is left in a state from which this holds again. Allowed
  (\<open>event_ok\<close>) is an event of a descriptor that has a handler, with a request head that starts with neither a space nor a NUL and whose
  URL has a path, or a new client on a descriptor that is in range and not in use; \<open>site_env\<close> bounds the files and reads. The properties on
  faults show what happens on other inputs.
\<close>

theorem worker_never_faults:
  assumes "worker_start epoll_create process_id unix_fd config limit timer_fd os = Inr (w0, os0)"
    and "site_env contents root t name config os"
    and "reached w0 os0 w os1" and "event_ok w os1 (memory, fd, es)"
  shows "returns (worker_event memory fd es w os1) (\<lambda>(w1, os2). sound_worker contents w1 \<and> same_worker w0 w1)"
proof -
  note s = worker_start_sound [OF assms(1), of contents]
  then have site: "site_env contents root t name (global_config w0) os0" using assms(2) site_env_same [of os os0] by simp
  have h: "handles contents w0 os0 w os1" using reached_sound [OF assms(3)] s site by blast
  from worker_event_sound [OF handles_sound [OF h] handles_site [OF h site] assms(4)] show ?thesis
    by (rule returns_mono) (use h in \<open>auto simp: handles_def keeps_def intro: same_worker_trans\<close>)
qed

lemma started_site: "site_env (\<lambda>_. ''abcdef'') ''/w'' sample_table ''minihttpd'' named_config started_os"
proof -
  have "files_ok (\<lambda>_. ''abcdef'') sample_fs" by (simp add: files_ok_def sample_fs_def directory_names_def)
  moreover have "writes_fit started_os" "maps_files (\<lambda>_. ''abcdef'') started_os" "kernel_reads started_os"
    by (simp_all add: started_os_def sample_os_def writes_fit_def maps_files_def kernel_reads_def read_fits_def read_answer_def read_request_def)
  moreover have "unat (max_http_head_size named_config) < 2 ^ 20"
    by (simp add: named_config_def sample_config_def server_config_init_def)
  ultimately show ?thesis using sample_site by (simp add: site_env_def started_os_def sample_os_def)
qed

theorem worker_never_faults_witness:
  "\<exists>w w1 os os1. worker_event (sample_connection []) 7 EPOLLHUP w os = Inr (w1, os1) \<and> unat (cur_connection_number w) = 1 \<and>
    sound_worker (\<lambda>_. ''abcdef'') w1"
proof -
  let ?m = "sample_connection []"
  obtain w0 os0 where s: "worker_start (\<lambda>_. 5) 0 3 named_config 16 4 started_os = Inr (w0, os0)" "max_fd (conn_ev w0) = 16"
      "same_os started_os os0" using start_returns by blast
  obtain w os c where w: "worker_event ?m 3 EPOLLIN w0 os0 = Inr (w, os)" "worker_wf w" "unat (cur_connection_number w) = 1"
      "conn_heap w = (conn_heap w0)(conn_brk w0 \<mapsto> c)" "conn_socket_fd c = 7" "state c = CON_STATE_READ"
    using first_client [OF s] by blast
  have "binding (conn_ev w0) = [3 \<mapsto> (Unix_domain_socket_handle, Ctx_worker), 4 \<mapsto> (Worker_timer_expire_handler, Ctx_worker)]"
    using worker_start_wf [OF s(1)] by simp
  then have "event_ok w0 os0 (?m, 3, EPOLLIN)"
    using s(2,3) by (simp add: event_ok_def same_os_def started_os_def)
  then have r: "reached w0 os0 w os" using after_event [OF at_start _ w(1)] by blast
  have "conn_heap w (conn_brk w0) = Some c" using w(4) by simp
  from heap_okD(5) [OF worker_wfD(3) [OF w(2)] this] w(5)
  have b: "binding (conn_ev w) 7 = Some (Connection_event_handle, Ctx_connection (conn_brk w0))" by simp
  have "event_ok w os (?m, 7, EPOLLHUP)"
    using w(4,6) by (simp add: event_ok_def b connection_note_events_def input_ok_def)
  from worker_never_faults [OF s(1) started_site r this] w(3) show ?thesis by (auto simp: returns_iff)
qed

end
