(* ===== verification/Server.thy ===== *)
theory Server
  imports Key_Map State
begin

text \<open>
  The master process (\<open>src/server.h\<close>, \<open>src/server.cpp\<close>, and \<open>src/main.cpp\<close> without the worker): the start, the
  signals, and the loop that accepts clients and hands their descriptors to the workers. The system calls are
  parameters: a round of the loop is given what they answer, and the actions on descriptors are recorded. The
  lemmas show that clients are dealt out in turn while every worker runs, and what becomes of their descriptors.
\<close>

section \<open>The C code: data\<close>

record server_child =
  pid :: int
  unix_domain_socket_fd :: "int \<times> int"
  sent_connection_number :: u32
  worker_running :: bool

datatype backend_log_mode = LOG_MODE_SYSLOG | LOG_MODE_FILE

record server =
  config :: server_config
  listening_socket_fd :: int
  server_ts :: int
  worker_number :: u32
  child :: "server_child list"
  uid :: u32
  gid :: u32
  dont_daemonize :: bool
  log_mode :: backend_log_mode
  log_fd :: int

text \<open>\<open>memory\<close> is what the children's array holds when \<open>malloc\<close> returns it.\<close>

definition server_init :: "(nat \<Rightarrow> server_child) \<Rightarrow> int \<Rightarrow> fault + server" where
  "server_init memory now =
     andthen (set_config_default server_config_init) (\<lambda>c.
     let n = (if max_worker_number c = 0 then 1 else max_worker_number c)
     in Inr \<lparr>config = c, listening_socket_fd = 0, server_ts = now, worker_number = n,
             child = map (\<lambda>i. (memory i)\<lparr>sent_connection_number := 0, worker_running := False\<rparr>) [0..<unat n],
             uid = 0, gid = 0, dont_daemonize = False, log_mode = LOG_MODE_SYSLOG, log_fd = 0\<rparr>)"

section \<open>The C code: signals\<close>

datatype signo = SIGPIPE | SIGCHLD | SIGTERM | SIGINT | Other_signal

record signal_flags =
  signal_pipe_handled :: bool
  signal_child_handled :: bool
  server_shutdown :: bool
  graceful_shutdown :: bool

definition no_signals :: signal_flags where
  "no_signals = \<lparr>signal_pipe_handled = False, signal_child_handled = False, server_shutdown = False, graceful_shutdown = False\<rparr>"

definition signal_handler :: "signal_flags \<Rightarrow> signo \<Rightarrow> signal_flags" where
  "signal_handler f signo =
     (case signo of
        SIGPIPE \<Rightarrow> f\<lparr>signal_pipe_handled := True\<rparr>
      | SIGCHLD \<Rightarrow> f\<lparr>signal_child_handled := True\<rparr>
      | SIGTERM \<Rightarrow> f\<lparr>server_shutdown := True\<rparr>
      | SIGINT \<Rightarrow> if graceful_shutdown f then f\<lparr>server_shutdown := True\<rparr> else f\<lparr>graceful_shutdown := True\<rparr>
      | Other_signal \<Rightarrow> f)"

section \<open>The C code: options, configuration and limits\<close>

text \<open>
  What \<open>getopt\<close> finds, in order; \<open>Opt_unknown\<close> stands for every other answer. A start that ends the program gives the
  exit status and what is printed to the standard output.
\<close>

datatype opt_chr = Opt_f string | Opt_h | Opt_v | Opt_D | Opt_unknown

type_synonym exit_status = "int \<times> string"

definition help_text :: string where
  "help_text =
     ''minihttpd is a simple,high-performance webserver'' @ [LF] @
     ''usage:'' @ [LF] @
     ''-f  configuration_file     specify the configuration file you want to load for minihttpd'' @ [LF] @
     ''-D  specify the minihttpd do not run as a deamon process'' @ [LF] @
     ''-v  print the minihttpd version information'' @ [LF] @
     ''-h  show help'' @ [LF]"

definition print_help :: "fault + string" where
  "print_help = andthen (buffer_copy_string buffer_init (lit help_text)) (\<lambda>b. cstr (ptr b))"

fun parse_options :: "opt_chr list \<Rightarrow> server \<Rightarrow> fault + (exit_status + server)" where
  "parse_options [] srv = Inr (Inr srv)"
| "parse_options (opt # opts) srv =
     (case opt of
        Opt_f optarg \<Rightarrow>
          andthen (buffer_copy_string (minihttpd_global_config_filepath (config srv)) (lit optarg)) (\<lambda>b.
          parse_options opts (srv\<lparr>config := (config srv)\<lparr>minihttpd_global_config_filepath := b\<rparr>\<rparr>))
      | Opt_h \<Rightarrow> andthen print_help (\<lambda>help. Inr (Inl (0, help)))
      | Opt_v \<Rightarrow>
          andthen (cstr (ptr (service_name (config srv)))) (\<lambda>name.
          andthen (cstr (ptr (version_info (config srv)))) (\<lambda>version.
          Inr (Inl (0, name @ ''-'' @ version))))
      | Opt_D \<Rightarrow> parse_options opts (srv\<lparr>dont_daemonize := True\<rparr>)
      | Opt_unknown \<Rightarrow> andthen print_help (\<lambda>help. Inr (Inl (-1, help))))"

definition check_config :: "(string \<Rightarrow> string option) \<Rightarrow> server \<Rightarrow> fault + (exit_status + server)" where
  "check_config fopen srv =
     (if buffer_is_empty (service_root_dir (config srv)) then Inr (Inl (-1, []))
      else if buffer_is_empty (mimetype_filepath (config srv)) then Inr (Inl (-1, []))
      else andthen (cstr (ptr (mimetype_filepath (config srv)))) (\<lambda>filename.
           case mime_table_initialize fopen filename of
             None \<Rightarrow> Inr (Inl (-1, []))
           | Some t \<Rightarrow> Inr (Inr (srv\<lparr>config := (config srv)\<lparr>table := Some t\<rparr>\<rparr>))))"

record rlimit =
  rlim_cur :: nat
  rlim_max :: nat

definition new_limit :: "u32 \<Rightarrow> u32 \<Rightarrow> rlimit \<Rightarrow> rlimit" where
  "new_limit user fds l =
     (if user = 0 then l\<lparr>rlim_cur := unat fds, rlim_max := unat fds\<rparr>
      else if unat fds < rlim_cur l then l\<lparr>rlim_cur := unat fds\<rparr>
      else if unat fds \<le> rlim_max l then l\<lparr>rlim_cur := unat fds\<rparr>
      else l)"

definition set_limits ::
  "u32 \<Rightarrow> u32 \<Rightarrow> rlimit option \<Rightarrow> (rlimit \<Rightarrow> bool) \<Rightarrow> server \<Rightarrow> exit_status + (server \<times> rlimit)" where
  "set_limits user user_group getrlimit setrlimit srv =
     (let srv1 = srv\<lparr>uid := user, gid := user_group\<rparr>
      in case getrlimit of
           None \<Rightarrow> Inl (-1, [])
         | Some l \<Rightarrow>
             let l1 = new_limit user (max_fd (config srv1)) l
             in if setrlimit l1 then Inr (srv1, l1) else Inl (-1, []))"

text \<open>\<open>open_file\<close> answers as \<open>open\<close> does.\<close>

definition default_log_filepath :: string where
  "default_log_filepath = ''/var/opt/minihttpd/minihttpd.log''"

definition open_log :: "(string \<Rightarrow> int) \<Rightarrow> server \<Rightarrow> fault + (exit_status + server)" where
  "open_log open_file srv =
     (if \<not> buffer_is_empty (log_filename (config srv)) \<or> dont_daemonize srv
      then andthen (if buffer_is_empty (log_filename (config srv))
                    then buffer_copy_string (log_filename (config srv)) (lit default_log_filepath)
                    else Inr (log_filename (config srv))) (\<lambda>b.
           andthen (cstr (ptr b)) (\<lambda>path.
           let fd = open_file path;
               srv1 = srv\<lparr>config := (config srv)\<lparr>log_filename := b\<rparr>, log_fd := fd\<rparr>
           in if fd < 0 then Inr (Inl (-1, [])) else Inr (Inr (srv1\<lparr>log_mode := LOG_MODE_FILE\<rparr>))))
      else Inr (Inr srv))"

section \<open>The C code: the workers\<close>

text \<open>
  What the master does with descriptors, it closes one or passes one over the socket of a worker; and at its end, when it signals
  its process group and closes its connection to the system's log.
\<close>

datatype master_event = Close_fd int | Hand_over int int | Signal_group signo | Close_syslog

text \<open>
  Starting the workers: \<open>answers i\<close> is what \<open>socketpair\<close> and \<open>fork\<close> answer for worker \<open>i\<close>. The process that forks goes on as
  the master, keeps the first end of the pair and closes the second; the process in which \<open>fork\<close> answers 0 goes on as
  worker \<open>i\<close>, with the master's memory as it was then. When a call fails the listening socket is closed and the program ends.
\<close>

datatype spawn_end =
    Spawned server "master_event list"
  | Spawn_failed exit_status "master_event list"
  | In_worker nat server "master_event list"

text \<open>What the master does once the process of worker \<open>i\<close> is there.\<close>

definition worker_forked :: "nat \<Rightarrow> server_child \<Rightarrow> server \<Rightarrow> server \<times> master_event list" where
  [simp]: "worker_forked i c srv =
     (srv\<lparr>child := (child srv)[i := c\<lparr>worker_running := True\<rparr>]\<rparr>, [Close_fd (snd (unix_domain_socket_fd c))])"

fun spawn_loop :: "(nat \<Rightarrow> (int \<times> int) option \<times> int) \<Rightarrow> nat list \<Rightarrow> server \<Rightarrow> master_event list \<Rightarrow> fault + spawn_end" where
  "spawn_loop answers [] srv es = Inr (Spawned srv es)"
| "spawn_loop answers (i # is) srv es =
     (if i < length (child srv)
      then (case fst (answers i) of
              None \<Rightarrow> Inr (Spawn_failed (-1, []) (es @ [Close_fd (listening_socket_fd srv)]))
            | Some p \<Rightarrow>
                let forked = snd (answers i);
                    c = (child srv ! i)\<lparr>unix_domain_socket_fd := p, sent_connection_number := 0, pid := forked\<rparr>
                in if forked < 0 then Inr (Spawn_failed (-1, []) (es @ [Close_fd (listening_socket_fd srv)]))
                   else if forked = 0 then Inr (In_worker i (srv\<lparr>child := (child srv)[i := c]\<rparr>) es)
                   else let (srv1, es1) = worker_forked i c srv in spawn_loop answers is srv1 (es @ es1))
      else Inl OutOfBounds)"

definition spawn_workers :: "(nat \<Rightarrow> (int \<times> int) option \<times> int) \<Rightarrow> server \<Rightarrow> fault + spawn_end" where
  "spawn_workers answers srv = spawn_loop answers [0..<unat (worker_number srv)] srv []"

section \<open>The C code: the main loop\<close>

text \<open>A worker has ended: every entry with its process number is marked.\<close>

definition reap :: "int \<Rightarrow> server \<Rightarrow> server" where
  "reap exit_worker_pid srv = srv
     \<lparr>child := map (\<lambda>c. if pid c = exit_worker_pid then c\<lparr>worker_running := False\<rparr> else c) (child srv)\<rparr>"

fun pick_loop :: "nat list \<Rightarrow> server \<Rightarrow> u32 \<Rightarrow> u32 \<Rightarrow> fault + u32" where
  "pick_loop [] srv min_sent_connections pick_worker_index = Inr pick_worker_index"
| "pick_loop (i # is) srv min_sent_connections pick_worker_index =
     (if i < length (child srv)
      then (if sent_connection_number (child srv ! i) < min_sent_connections \<and> worker_running (child srv ! i)
            then pick_loop is srv (sent_connection_number (child srv ! i)) (of_nat i)
            else pick_loop is srv min_sent_connections pick_worker_index)
      else Inl OutOfBounds)"

definition pick_worker :: "server \<Rightarrow> fault + u32" where
  "pick_worker srv = pick_loop [0..<unat (worker_number srv)] srv 0xFFFFFFFF (worker_number srv)"

text \<open>\<open>unix_domain_socket_sendfd\<close>, given what \<open>sendmsg\<close> answers.\<close>

definition unix_domain_socket_sendfd :: "int \<Rightarrow> int \<Rightarrow> int \<Rightarrow> int" where
  "unix_domain_socket_sendfd socket_fd fd sendmsg = (if socket_fd < 0 \<or> fd < 0 then -1 else sendmsg)"

definition hand_over :: "int \<Rightarrow> (int \<Rightarrow> int) \<Rightarrow> server \<Rightarrow> fault + (server \<times> master_event list)" where
  "hand_over connection_fd sendmsg srv =
     andthen (pick_worker srv) (\<lambda>p.
     if worker_number srv \<le> p then Inr (srv, [Close_fd connection_fd])
     else if unat p < length (child srv)
     then let c = child srv ! unat p; socket_fd = fst (unix_domain_socket_fd c)
          in if unix_domain_socket_sendfd socket_fd connection_fd (sendmsg socket_fd) < 0 then Inr (srv, [Close_fd connection_fd])
             else Inr (srv\<lparr>child := (child srv)[unat p := c\<lparr>sent_connection_number := sent_connection_number c + 1\<rparr>]\<rparr>,
                       [Hand_over socket_fd connection_fd, Close_fd connection_fd])
     else Inl OutOfBounds)"

text \<open>
  A round: the signals that arrive before the loop condition is read, the process numbers \<open>waitpid\<close> answers, the signals
  that arrive between the last \<open>waitpid\<close> and the reset of its flag, what \<open>accept\<close> answers (a failure with any error
  leads to the next round), and what \<open>sendmsg\<close> answers on each socket.
\<close>

record master_round =
  signals :: "signo list"
  exits :: "int list"
  late_signals :: "signo list"
  accepted :: "int option"
  sent_message :: "int \<Rightarrow> int"

definition reap_children :: "master_round \<Rightarrow> server \<times> signal_flags \<Rightarrow> server \<times> signal_flags" where
  "reap_children r s = (case s of (srv, f) \<Rightarrow>
     if signal_child_handled f
     then (fold reap (exits r) srv, (foldl signal_handler f (late_signals r))\<lparr>signal_child_handled := False\<rparr>)
     else (srv, foldl signal_handler f (late_signals r)))"

fun master_loop ::
  "master_round list \<Rightarrow> server \<Rightarrow> signal_flags \<Rightarrow> master_event list \<Rightarrow> fault + (bool \<times> server \<times> signal_flags \<times> master_event list)" where
  "master_loop [] srv f es = Inr (False, srv, f, es)"
| "master_loop (r # rs) srv f es =
     (let f1 = foldl signal_handler f (signals r)
      in if server_shutdown f1 then Inr (True, srv, f1, es)
         else let (srv1, f2) = reap_children r (srv, f1)
              in case accepted r of
                   None \<Rightarrow> master_loop rs srv1 f2 es
                 | Some connection_fd \<Rightarrow>
                     andthen (hand_over connection_fd (sent_message r) srv1) (\<lambda>(srv2, es1).
                     master_loop rs srv2 f2 (es @ es1)))"

text \<open>After the loop: the workers are told to stop, the log and the listening socket are closed; then memory is given back (see \<open>Memory\<close>).\<close>

definition master_stop :: "server \<Rightarrow> master_event list" where
  "master_stop srv =
     Signal_group SIGTERM #
     (if log_mode srv = LOG_MODE_FILE \<and> log_fd srv \<noteq> -1 then [Close_fd (log_fd srv)]
      else if log_mode srv = LOG_MODE_SYSLOG then [Close_syslog] else []) @
     [Close_fd (listening_socket_fd srv)]"

section \<open>Which worker is picked\<close>

text \<open>The worker of an index: how many descriptors it was sent, and whether it runs.\<close>

abbreviation sent_to :: "server \<Rightarrow> nat \<Rightarrow> u32" where
  "sent_to srv i \<equiv> sent_connection_number (child srv ! i)"

abbreviation runs :: "server \<Rightarrow> nat \<Rightarrow> bool" where
  "runs srv i \<equiv> worker_running (child srv ! i)"

text \<open>\<open>p\<close> is the first of the least among the running workers of \<open>is\<close>.\<close>

definition first_least :: "server \<Rightarrow> nat list \<Rightarrow> nat \<Rightarrow> bool" where
  "first_least srv is p \<longleftrightarrow> p \<in> set is \<and> runs srv p \<and>
     (\<forall>i \<in> set is. runs srv i \<longrightarrow> sent_to srv p \<le> sent_to srv i \<and> (i < p \<longrightarrow> sent_to srv p < sent_to srv i))"

lemma pick_loop_first_least:
  "sorted is \<Longrightarrow> distinct is \<Longrightarrow> \<forall>i \<in> set is. i < length (child srv) \<Longrightarrow>
   if \<exists>i \<in> set is. runs srv i \<and> sent_to srv i < m
   then \<exists>p. pick_loop is srv m q = Inr (of_nat p) \<and> first_least srv is p \<and> sent_to srv p < m
   else pick_loop is srv m q = Inr q"
proof (induction "is" arbitrary: m q)
  case (Cons i "is")
  show ?case
  proof (cases "sent_to srv i < m \<and> runs srv i")
    case False
    then have eq: "pick_loop (i # is) srv m q = pick_loop is srv m q" using Cons.prems(3) by auto
    have same: "first_least srv is p \<and> sent_to srv p < m \<longleftrightarrow> first_least srv (i # is) p \<and> sent_to srv p < m" for p
      using False Cons.prems(1,2) by (fastforce simp: first_least_def)
    have ex: "(\<exists>j \<in> set (i # is). runs srv j \<and> sent_to srv j < m) = (\<exists>j \<in> set is. runs srv j \<and> sent_to srv j < m)"
      using False by auto
    have "sorted is" "distinct is" "\<forall>j \<in> set is. j < length (child srv)" using Cons.prems by simp_all
    from Cons.IH [OF this, of m q] show ?thesis unfolding ex eq same .
  next
    case True
    let ?m = "sent_to srv i"
    have eq: "pick_loop (i # is) srv m q = pick_loop is srv ?m (of_nat i)" using True Cons.prems(3) by simp
    have ih: "if \<exists>j \<in> set is. runs srv j \<and> sent_to srv j < ?m
      then \<exists>p. pick_loop is srv ?m (of_nat i) = Inr (of_nat p) \<and> first_least srv is p \<and> sent_to srv p < ?m
      else pick_loop is srv ?m (of_nat i) = Inr (of_nat i)"
      using Cons by simp
    show ?thesis
    proof (cases "\<exists>j \<in> set is. runs srv j \<and> sent_to srv j < ?m")
      case less: True
      with ih obtain p where p: "pick_loop is srv ?m (of_nat i) = Inr (of_nat p)" "first_least srv is p" "sent_to srv p < ?m" by auto
      then have "first_least srv (i # is) p" by (auto simp: first_least_def)
      with p eq True show ?thesis by (auto intro: order.strict_trans)
    next
      case False
      then have "first_least srv (i # is) i" using True Cons.prems(1,2) by (fastforce simp: first_least_def not_less)
      with ih False eq True show ?thesis by auto
    qed
  qed
qed simp

definition server_wf :: "server \<Rightarrow> bool" where
  "server_wf srv \<longleftrightarrow> length (child srv) = unat (worker_number srv)"

lemma pick_worker_first_least:
  assumes "server_wf srv"
  shows "if \<exists>i < length (child srv). runs srv i \<and> sent_to srv i < 0xFFFFFFFF
    then \<exists>p < length (child srv). pick_worker srv = Inr (of_nat p) \<and> first_least srv [0..<length (child srv)] p
    else pick_worker srv = Inr (worker_number srv)"
proof -
  have pw: "pick_worker srv = pick_loop [0..<length (child srv)] srv 0xFFFFFFFF (worker_number srv)"
    using assms by (simp add: pick_worker_def server_wf_def)
  have ex: "(\<exists>i \<in> set [0..<length (child srv)]. P i) = (\<exists>i < length (child srv). P i)" for P by auto
  have "sorted [0..<length (child srv)]" "distinct [0..<length (child srv)]" "\<forall>i \<in> set [0..<length (child srv)]. i < length (child srv)"
    by simp_all
  from pick_loop_first_least [OF this, of "0xFFFFFFFF" "worker_number srv"]
  have "if \<exists>i < length (child srv). runs srv i \<and> sent_to srv i < 0xFFFFFFFF
    then \<exists>p. pick_worker srv = Inr (of_nat p) \<and> first_least srv [0..<length (child srv)] p \<and> sent_to srv p < 0xFFFFFFFF
    else pick_worker srv = Inr (worker_number srv)"
    unfolding ex pw .
  then show ?thesis by (auto simp: first_least_def split: if_splits)
qed

lemma first_least_unique: "first_least srv is p \<Longrightarrow> first_least srv is q \<Longrightarrow> p = q"
  by (metis first_least_def leD linorder_neqE_nat)

lemma hand_over_to:
  assumes "server_wf srv" and "first_least srv [0..<length (child srv)] p" and "sent_to srv p < 0xFFFFFFFF"
  shows "hand_over fd r srv =
    (let c = child srv ! p; socket_fd = fst (unix_domain_socket_fd c)
     in if unix_domain_socket_sendfd socket_fd fd (r socket_fd) < 0 then Inr (srv, [Close_fd fd])
        else Inr (srv\<lparr>child := (child srv)[p := c\<lparr>sent_connection_number := sent_connection_number c + 1\<rparr>]\<rparr>,
                  [Hand_over socket_fd fd, Close_fd fd]))"
proof -
  have p: "p < length (child srv)" "runs srv p" using assms(2) by (simp_all add: first_least_def)
  have "\<exists>q < length (child srv). pick_worker srv = Inr (of_nat q) \<and> first_least srv [0..<length (child srv)] q"
    using pick_worker_first_least [OF assms(1)] p assms(3) by (simp split: if_splits)
  then have pick: "pick_worker srv = Inr (of_nat p)" using first_least_unique [OF assms(2)] by auto
  have lt: "p < 2 ^ 32" using p(1) assms(1) unat_u32_lt [of "worker_number srv"] by (simp add: server_wf_def)
  then have u: "unat (of_nat p :: u32) = p" by (rule unat_of_nat_u32)
  then have "\<not> worker_number srv \<le> of_nat p" using p(1) assms(1) by (simp add: word_le_nat_alt server_wf_def)
  with pick u p(1) show ?thesis by (simp add: hand_over_def Let_def)
qed

section \<open>Clients are dealt out in turn\<close>

text \<open>How many of the first \<open>n\<close> clients worker \<open>i\<close> of \<open>k\<close> gets when they are dealt out like cards.\<close>

definition turn_count :: "nat \<Rightarrow> nat \<Rightarrow> nat \<Rightarrow> nat" where
  "turn_count k n i = n div k + (if i < n mod k then 1 else 0)"

lemma turn_count_Suc: "i < k \<Longrightarrow> turn_count k (Suc n) i = turn_count k n i + (if i = n mod k then 1 else 0)"
  by (auto simp: turn_count_def div_Suc mod_Suc)

definition socket_of :: "server \<Rightarrow> nat \<Rightarrow> int" where
  "socket_of srv i = fst (unix_domain_socket_fd (child srv ! i))"

definition dealt :: "server \<Rightarrow> nat \<Rightarrow> bool" where
  "dealt srv n \<longleftrightarrow> server_wf srv \<and> child srv \<noteq> [] \<and>
     (\<forall>i < length (child srv). runs srv i \<and> 0 \<le> socket_of srv i \<and> unat (sent_to srv i) = turn_count (length (child srv)) n i)"

lemma dealt_first_least:
  assumes "dealt srv n"
  shows "first_least srv [0..<length (child srv)] (n mod length (child srv))"
proof -
  let ?k = "length (child srv)" and ?p = "n mod length (child srv)"
  have p: "?p < ?k" using assms by (simp add: dealt_def)
  have "sent_to srv ?p \<le> sent_to srv i \<and> (i < ?p \<longrightarrow> sent_to srv ?p < sent_to srv i)" if "i < ?k" for i
    using assms p that by (simp add: dealt_def word_le_nat_alt word_less_nat_alt turn_count_def)
  with assms p show ?thesis by (simp add: first_least_def dealt_def)
qed

lemma dealt_step:
  assumes d: "dealt srv n" and few: "n div length (child srv) < 2 ^ 32 - 1" and "0 \<le> fd" and "0 \<le> r"
  shows "\<exists>srv'. hand_over fd (\<lambda>_. r) srv = Inr (srv', [Hand_over (socket_of srv (n mod length (child srv))) fd, Close_fd fd]) \<and>
    dealt srv' (Suc n) \<and> length (child srv') = length (child srv) \<and> socket_of srv' = socket_of srv"
proof -
  let ?k = "length (child srv)" and ?p = "n mod length (child srv)"
  let ?c = "child srv ! ?p"
  let ?srv = "srv\<lparr>child := (child srv)[?p := ?c\<lparr>sent_connection_number := sent_connection_number ?c + 1\<rparr>]\<rparr>"
  have p: "?p < ?k" and wf: "server_wf srv" using d by (simp_all add: dealt_def)
  have cnt: "unat (sent_to srv ?p) = n div ?k" "0 \<le> socket_of srv ?p" using d p by (simp_all add: dealt_def turn_count_def)
  then have "sent_to srv ?p < 0xFFFFFFFF" using few by (simp add: word_less_nat_alt)
  from hand_over_to [OF wf dealt_first_least [OF d] this, of fd "\<lambda>_. r"] cnt(2) assms(3,4)
  have h: "hand_over fd (\<lambda>_. r) srv = Inr (?srv, [Hand_over (socket_of srv ?p) fd, Close_fd fd])"
    by (simp add: unix_domain_socket_sendfd_def socket_of_def Let_def)
  have inc: "unat (sent_connection_number ?c + 1) = n div ?k + 1" using cnt(1) few by (subst unat_add_u32) simp_all
  have sock: "socket_of ?srv i = socket_of srv i" for i
    using p by (cases "i = ?p") (simp_all add: socket_of_def)
  have "runs ?srv i \<and> 0 \<le> socket_of ?srv i \<and> unat (sent_to ?srv i) = turn_count ?k (Suc n) i" if i: "i < ?k" for i
  proof (cases "i = ?p")
    case True
    have "runs srv ?p" using d p by (simp add: dealt_def)
    then show ?thesis using True p inc sock [of i] cnt(2) turn_count_Suc [OF i, of n] by (simp add: turn_count_def)
  next
    case False
    then show ?thesis using d i sock [of i] turn_count_Suc [OF i, of n] by (simp add: dealt_def)
  qed
  then have "dealt ?srv (Suc n)" using d wf by (simp add: dealt_def server_wf_def)
  with h sock show ?thesis by (auto intro!: exI [of _ ?srv])
qed

text \<open>A round without signals, in which a client arrives and is sent to a worker.\<close>

definition client_round :: "(int \<Rightarrow> int) \<Rightarrow> int \<Rightarrow> master_round" where
  "client_round send fd = \<lparr>signals = [], exits = [], late_signals = [], accepted = Some fd, sent_message = send\<rparr>"

fun deal :: "server \<Rightarrow> nat \<Rightarrow> int list \<Rightarrow> master_event list" where
  "deal srv n [] = []"
| "deal srv n (fd # fds) = Hand_over (socket_of srv (n mod length (child srv))) fd # Close_fd fd # deal srv (Suc n) fds"

lemma deal_cong: "length (child srv') = length (child srv) \<Longrightarrow> socket_of srv' = socket_of srv \<Longrightarrow> deal srv' n fds = deal srv n fds"
  by (induction fds arbitrary: n) simp_all

lemma master_deals:
  assumes "dealt srv n" and "\<forall>fd \<in> set fds. 0 \<le> fd" and "0 \<le> r" and "n + length fds \<le> length (child srv) * (2 ^ 32 - 1)"
  shows "\<exists>srv'. master_loop (map (client_round (\<lambda>_. r)) fds) srv no_signals es = Inr (False, srv', no_signals, es @ deal srv n fds) \<and>
    dealt srv' (n + length fds) \<and> length (child srv') = length (child srv)"
  using assms
proof (induction fds arbitrary: srv n es)
  case (Cons fd fds)
  let ?k = "length (child srv)"
  have "0 < ?k" using Cons.prems(1) by (simp add: dealt_def)
  moreover have "n < ?k * (2 ^ 32 - 1)" using Cons.prems(4) by simp
  ultimately have "n div ?k < 2 ^ 32 - 1" by (metis less_mult_imp_div_less mult.commute)
  then obtain srv1 where s: "hand_over fd (\<lambda>_. r) srv = Inr (srv1, [Hand_over (socket_of srv (n mod ?k)) fd, Close_fd fd])"
      "dealt srv1 (Suc n)" "length (child srv1) = ?k" "socket_of srv1 = socket_of srv"
    using dealt_step [OF Cons.prems(1), of fd r] Cons.prems(2,3) by auto
  from Cons.IH [OF s(2), of "es @ [Hand_over (socket_of srv (n mod ?k)) fd, Close_fd fd]"] Cons.prems(2-4) s(3)
    deal_cong [OF s(3,4)] s(1)
  show ?case by (simp add: client_round_def no_signals_def reap_children_def)
qed simp

section \<open>What becomes of a client\<close>

text \<open>What the master does with a client: it closes the descriptor, and may have sent it to a running worker before.\<close>

definition client_done :: "int \<Rightarrow> master_event list \<Rightarrow> bool" where
  "client_done fd es \<longleftrightarrow> es = [Close_fd fd] \<or> (\<exists>s. es = [Hand_over s fd, Close_fd fd])"

lemma hand_over_cases:
  assumes "server_wf srv"
  obtains (refused) "hand_over fd r srv = Inr (srv, [Close_fd fd])"
  | (sent) p where "p < length (child srv)" "runs srv p"
      "hand_over fd r srv = Inr (srv\<lparr>child := (child srv)[p := (child srv ! p)\<lparr>sent_connection_number := sent_to srv p + 1\<rparr>]\<rparr>,
         [Hand_over (socket_of srv p) fd, Close_fd fd])"
proof (cases "\<exists>i < length (child srv). runs srv i \<and> sent_to srv i < 0xFFFFFFFF")
  case False
  with pick_worker_first_least [OF assms] have "pick_worker srv = Inr (worker_number srv)" by argo
  then show ?thesis by (intro refused) (simp add: hand_over_def)
next
  case True
  with pick_worker_first_least [OF assms] obtain p where
    p: "p < length (child srv)" "first_least srv [0..<length (child srv)] p" by auto
  then have "sent_to srv p < 0xFFFFFFFF" "runs srv p"
    using True by (auto simp: first_least_def)
  with hand_over_to [OF assms p(2), of fd r] p(1) refused sent show ?thesis
    by (simp add: Let_def socket_of_def split: if_splits)
qed

lemma server_wf_update [simp]:
  "server_wf (srv\<lparr>child := (child srv)[p := c]\<rparr>) = server_wf srv" by (simp add: server_wf_def)

lemma reap_wf [simp]: "server_wf (reap n srv) = server_wf srv"
  "length (child (reap n srv)) = length (child srv)"
  "i < length (child srv) \<Longrightarrow> socket_of (reap n srv) i = socket_of srv i"
  by (simp_all add: reap_def server_wf_def socket_of_def)

lemma fold_reap_wf [simp]: "server_wf (fold reap ns srv) = server_wf srv"
  "length (child (fold reap ns srv)) = length (child srv)"
  by (induction ns arbitrary: srv) simp_all

lemma reap_children_wf: "reap_children r (srv, f) = (srv', f') \<Longrightarrow>
   server_wf srv' = server_wf srv \<and> length (child srv') = length (child srv)"
  by (auto simp: reap_children_def split: if_splits)

section \<open>When the master stops\<close>

definition told_to_stop :: "signo list \<Rightarrow> bool" where
  "told_to_stop ss \<longleftrightarrow> SIGTERM \<in> set ss \<or> 2 \<le> count_list ss SIGINT"

definition noted :: "signo list \<Rightarrow> signal_flags \<Rightarrow> bool" where
  "noted ss f \<longleftrightarrow> server_shutdown f = told_to_stop ss \<and> (graceful_shutdown f \<longleftrightarrow> 1 \<le> count_list ss SIGINT)"

lemma noted_none: "noted [] no_signals" by (simp add: noted_def no_signals_def told_to_stop_def)

lemma noted_step: "noted ss f \<Longrightarrow> noted (ss @ [s]) (signal_handler f s)"
  by (cases s) (auto simp: noted_def signal_handler_def told_to_stop_def)

lemma noted_foldl: "noted ss f \<Longrightarrow> noted (ss @ ts) (foldl signal_handler f ts)"
proof (induction ts arbitrary: ss f)
  case (Cons t ts)
  from Cons.IH [OF noted_step [OF Cons.prems]] show ?case by simp
qed simp

lemma noted_reap: "noted ss f \<Longrightarrow> reap_children r (srv, f) = (srv', f') \<Longrightarrow> noted (ss @ late_signals r) f'"
  using noted_foldl [of ss f "late_signals r"] by (auto simp: reap_children_def noted_def split: if_splits)

text \<open>The rounds the master goes through before it is told to stop, and the clients that arrive in rounds.\<close>

fun served :: "signo list \<Rightarrow> master_round list \<Rightarrow> master_round list" where
  "served seen [] = []"
| "served seen (r # rs) =
     (if told_to_stop (seen @ signals r) then [] else r # served (seen @ signals r @ late_signals r) rs)"

definition clients :: "master_round list \<Rightarrow> int list" where
  "clients rs = List.map_filter accepted rs"

lemma clients_simps [simp]: "clients [] = []"
  "clients (r # rs) = (case accepted r of None \<Rightarrow> clients rs | Some fd \<Rightarrow> fd # clients rs)"
  by (simp_all add: clients_def map_filter_simps split: option.split)

lemma length_served: "length (served seen rs) \<le> length rs"
  by (induction seen rs rule: served.induct) auto

lemma master_loop_serves:
  assumes "server_wf srv" and "noted seen f"
  shows "\<exists>srv' f' pieces. master_loop rs srv f es = Inr (length (served seen rs) < length rs, srv', f', es @ concat pieces) \<and>
    server_wf srv' \<and> list_all2 client_done (clients (served seen rs)) pieces"
  using assms
proof (induction rs arbitrary: srv f seen es)
  case Nil
  show ?case using Nil by (auto intro!: exI [of _ "[]"])
next
  case (Cons r rs)
  let ?f = "foldl signal_handler f (signals r)"
  have n: "noted (seen @ signals r) ?f" by (rule noted_foldl [OF Cons.prems(2)])
  then have stop: "server_shutdown ?f = told_to_stop (seen @ signals r)" by (simp add: noted_def)
  show ?case
  proof (cases "told_to_stop (seen @ signals r)")
    case True
    then show ?thesis using stop Cons.prems(1) by (auto intro!: exI [of _ "[]"])
  next
    case go: False
    obtain srv1 f2 where s: "reap_children r (srv, ?f) = (srv1, f2)" by fastforce
    from noted_reap [OF n s] have n2: "noted (seen @ signals r @ late_signals r) f2" by simp
    from reap_children_wf [OF s] Cons.prems(1) have wf: "server_wf srv1" by simp
    show ?thesis
    proof (cases "accepted r")
      case None
      then show ?thesis using Cons.IH [OF wf n2, of es] go stop s by simp
    next
      case (Some fd)
      obtain srv2 es1 where h: "hand_over fd (sent_message r) srv1 = Inr (srv2, es1)" "server_wf srv2" "client_done fd es1"
        using wf by (cases rule: hand_over_cases [OF wf, of fd "sent_message r"]) (auto simp: client_done_def)
      from Cons.IH [OF h(2) n2, of "es @ es1"] obtain srv' f' pieces where
        "master_loop rs srv2 f2 (es @ es1) = Inr (length (served (seen @ signals r @ late_signals r) rs) < length rs, srv', f',
           (es @ es1) @ concat pieces)" "server_wf srv'"
        "list_all2 client_done (clients (served (seen @ signals r @ late_signals r) rs)) pieces" by blast
      then show ?thesis using Some go stop s h by (intro exI [of _ srv'] exI [of _ f'] exI [of _ "es1 # pieces"]) simp
    qed
  qed
qed

section \<open>Workers that have ended\<close>

definition sockets_differ :: "server \<Rightarrow> bool" where
  "sockets_differ srv \<longleftrightarrow> (\<forall>i < length (child srv). \<forall>j < length (child srv). socket_of srv i = socket_of srv j \<longrightarrow> i = j)"

text \<open>Nothing changes about worker \<open>i\<close>, which does not run.\<close>

definition left_alone :: "nat \<Rightarrow> server \<Rightarrow> server \<Rightarrow> bool" where
  "left_alone i srv srv' \<longleftrightarrow> server_wf srv' \<and> length (child srv') = length (child srv) \<and>
     (\<forall>j < length (child srv). socket_of srv' j = socket_of srv j) \<and> child srv' ! i = child srv ! i"

lemma left_alone_trans: "left_alone i s t \<Longrightarrow> left_alone i t u \<Longrightarrow> left_alone i s u"
  by (simp add: left_alone_def)

lemma left_alone_refl: "server_wf s \<Longrightarrow> left_alone i s s" by (simp add: left_alone_def)

lemma socket_of_update:
  "p < length (child srv) \<Longrightarrow> unix_domain_socket_fd c = unix_domain_socket_fd (child srv ! p) \<Longrightarrow>
   socket_of (srv\<lparr>child := (child srv)[p := c]\<rparr>) j = socket_of srv j"
  by (cases "j = p") (simp_all add: socket_of_def)

lemma left_alone_fold_reap:
  "server_wf srv \<Longrightarrow> i < length (child srv) \<Longrightarrow> \<not> runs srv i \<Longrightarrow> left_alone i srv (fold reap ns srv)"
proof (induction ns arbitrary: srv)
  case (Cons n ns)
  have a: "left_alone i srv (reap n srv)" using Cons.prems by (simp add: left_alone_def) (simp add: reap_def)
  then have "left_alone i (reap n srv) (fold reap ns (reap n srv))"
    using Cons.prems by (intro Cons.IH) (simp_all add: left_alone_def)
  with a show ?case by (auto intro: left_alone_trans)
qed (simp add: left_alone_refl)

lemma hand_over_leaves:
  assumes "server_wf srv" "i < length (child srv)" "\<not> runs srv i" "sockets_differ srv"
  shows "\<exists>srv' es. hand_over fd r srv = Inr (srv', es) \<and> left_alone i srv srv' \<and> (\<forall>d. Hand_over (socket_of srv i) d \<notin> set es)"
  using assms(1)
proof (cases rule: hand_over_cases [where fd = fd and r = r])
  case refused
  then show ?thesis using assms(1) by (simp add: left_alone_refl)
next
  case (sent p)
  then have "p \<noteq> i" using assms(3) by blast
  moreover from this have "socket_of srv p \<noteq> socket_of srv i" using assms(2,4) sent(1) by (auto simp: sockets_differ_def)
  ultimately show ?thesis using sent assms(1) by (simp add: left_alone_def socket_of_update)
qed

lemma reap_children_leaves:
  "server_wf srv \<Longrightarrow> i < length (child srv) \<Longrightarrow> \<not> runs srv i \<Longrightarrow> reap_children r (srv, f) = (srv', f') \<Longrightarrow> left_alone i srv srv'"
  by (auto simp: reap_children_def left_alone_refl left_alone_fold_reap split: if_splits)

lemma left_alone_keeps:
  assumes "left_alone i srv srv'" and "i < length (child srv)"
  shows "server_wf srv'" "i < length (child srv')" "runs srv' i = runs srv i" "sockets_differ srv' = sockets_differ srv"
    "socket_of srv' i = socket_of srv i"
  using assms by (simp_all add: left_alone_def sockets_differ_def)

lemma master_loop_leaves:
  assumes "server_wf srv" and "i < length (child srv)" and "\<not> runs srv i" and "sockets_differ srv"
  shows "\<exists>over srv' f' es'. master_loop rs srv f es = Inr (over, srv', f', es @ es') \<and> left_alone i srv srv' \<and>
    (\<forall>d. Hand_over (socket_of srv i) d \<notin> set es')"
  using assms
proof (induction rs arbitrary: srv f es)
  case Nil
  then show ?case by (auto intro: left_alone_refl)
next
  case (Cons r rs)
  let ?f = "foldl signal_handler f (signals r)"
  obtain srv1 f2 where s: "reap_children r (srv, ?f) = (srv1, f2)" by fastforce
  have a1: "left_alone i srv srv1" using reap_children_leaves [OF Cons.prems(1-3) s] .
  note k1 = left_alone_keeps [OF a1 Cons.prems(2)]
  have p1: "\<not> runs srv1 i" "sockets_differ srv1" using k1 Cons.prems by simp_all
  show ?case
  proof (cases "server_shutdown ?f")
    case True
    then show ?thesis using Cons.prems(1) by (auto intro: left_alone_refl)
  next
    case go: False
    show ?thesis
    proof (cases "accepted r")
      case None
      from Cons.IH [OF k1(1,2) p1, of f2 es] obtain over srv' f' es' where
        "master_loop rs srv1 f2 es = Inr (over, srv', f', es @ es')" "left_alone i srv1 srv'"
        "\<forall>d. Hand_over (socket_of srv i) d \<notin> set es'" using k1(5) by auto
      then show ?thesis using None go s left_alone_trans [OF a1] by auto
    next
      case (Some fd)
      from hand_over_leaves [OF k1(1,2) p1, of fd "sent_message r"] obtain srv2 es1 where
        h: "hand_over fd (sent_message r) srv1 = Inr (srv2, es1)" "left_alone i srv1 srv2"
          "\<forall>d. Hand_over (socket_of srv i) d \<notin> set es1" using k1(5) by auto
      note k2 = left_alone_keeps [OF h(2) k1(2)]
      have p2: "\<not> runs srv2 i" "sockets_differ srv2" using k2 p1 by simp_all
      from Cons.IH [OF k2(1,2) p2, of f2 "es @ es1"] obtain over srv' f' es' where
        "master_loop rs srv2 f2 (es @ es1) = Inr (over, srv', f', es @ es1 @ es')" "left_alone i srv2 srv'"
        "\<forall>d. Hand_over (socket_of srv i) d \<notin> set es'" using k1(5) k2(5) by auto
      then show ?thesis using Some go s h left_alone_trans [OF a1 left_alone_trans [OF h(2)]]
        by (intro exI [of _ over] exI [of _ srv'] exI [of _ f'] exI [of _ "es1 @ es'"]) auto
    qed
  qed
qed

lemma fold_reap_ends:
  "i < length (child srv) \<Longrightarrow> pid (child srv ! i) \<in> set ns \<Longrightarrow> \<not> runs (fold reap ns srv) i"
proof (induction ns arbitrary: srv)
  case (Cons n ns)
  have runs_reap: "\<not> runs srv i \<Longrightarrow> \<not> runs (fold reap ms srv) i" if "i < length (child srv)" for ms srv
    using that by (induction ms arbitrary: srv) (auto simp: reap_def)
  show ?case
  proof (cases "pid (child srv ! i) = n")
    case True
    then have "\<not> runs (reap n srv) i" using Cons.prems(1) by (simp add: reap_def)
    with runs_reap [of "reap n srv" ns] Cons.prems(1) show ?thesis by simp
  next
    case False
    then show ?thesis using Cons.IH [of "reap n srv"] Cons.prems by (simp add: reap_def)
  qed
qed simp

section \<open>Properties\<close>

text \<open>
  C17: Clients are dealt out in turn. As long as every worker runs and no message fails, the \<open>n\<close>-th client is handed
  to worker \<open>n\<close> modulo the number of workers and its descriptor closed in the master, and after any number of clients
  the counts differ by one at most: picking the least loaded worker is round robin.
\<close>

theorem master_deals_in_turn:
  assumes "server_wf srv" and "child srv \<noteq> []" and "0 \<le> r"
    and "\<forall>i < length (child srv). worker_running (child srv ! i) \<and> sent_connection_number (child srv ! i) = 0 \<and> 0 \<le> socket_of srv i"
    and "\<forall>fd \<in> set fds. 0 \<le> fd" and "length fds \<le> length (child srv) * (2 ^ 32 - 1)"
  shows "\<exists>srv'. master_loop (map (client_round (\<lambda>_. r)) fds) srv no_signals [] = Inr (False, srv', no_signals, deal srv 0 fds) \<and>
    (\<forall>i < length (child srv). unat (sent_connection_number (child srv' ! i)) = turn_count (length (child srv)) (length fds) i)"
proof -
  have "dealt srv 0" using assms(1,2,4) by (simp add: dealt_def turn_count_def)
  from master_deals [OF this assms(5,3), of "[]"] assms(6) show ?thesis by (fastforce simp: dealt_def)
qed

text \<open>A server whose two workers were just started, for the witnesses.\<close>

definition two_workers :: server where
  "two_workers = \<lparr>config = server_config_init, listening_socket_fd = 3, server_ts = 0, worker_number = 2,
     child = [\<lparr>pid = 101, unix_domain_socket_fd = (4, 5), sent_connection_number = 0, worker_running = True\<rparr>,
              \<lparr>pid = 102, unix_domain_socket_fd = (6, 7), sent_connection_number = 0, worker_running = True\<rparr>],
     uid = 1000, gid = 1000, dont_daemonize = True, log_mode = LOG_MODE_FILE, log_fd = 2\<rparr>"

lemma two_workers_fields [simp]:
  "child two_workers = [\<lparr>pid = 101, unix_domain_socket_fd = (4, 5), sent_connection_number = 0, worker_running = True\<rparr>,
     \<lparr>pid = 102, unix_domain_socket_fd = (6, 7), sent_connection_number = 0, worker_running = True\<rparr>]"
  "worker_number two_workers = 2"
  by (simp_all add: two_workers_def)

lemma all_two [simp]: "(\<forall>i < Suc (Suc 0). P i) \<longleftrightarrow> P 0 \<and> P (Suc 0)"
  by (simp add: less_Suc_eq all_conj_distrib imp_conjL [symmetric] imp_disjL)

theorem master_deals_in_turn_witness:
  "\<exists>srv'. master_loop (map (client_round (\<lambda>_. 1)) [8, 8, 8]) two_workers no_signals [] =
     Inr (False, srv', no_signals, [Hand_over 4 8, Close_fd 8, Hand_over 6 8, Close_fd 8, Hand_over 4 8, Close_fd 8]) \<and>
   unat (sent_connection_number (child srv' ! 0)) = 2 \<and> unat (sent_connection_number (child srv' ! 1)) = 1"
proof -
  let ?fds = "[8, 8, 8] :: int list"
  have "server_wf two_workers" by (simp add: server_wf_def)
  moreover have "\<forall>i < length (child two_workers). worker_running (child two_workers ! i) \<and>
      sent_connection_number (child two_workers ! i) = 0 \<and> 0 \<le> socket_of two_workers i"
    by (simp add: socket_of_def)
  ultimately obtain srv' where "master_loop (map (client_round (\<lambda>_. 1)) ?fds) two_workers no_signals [] =
      Inr (False, srv', no_signals, deal two_workers 0 ?fds)"
    and "\<forall>i < length (child two_workers). unat (sent_connection_number (child srv' ! i)) =
      turn_count (length (child two_workers)) (length ?fds) i"
    using master_deals_in_turn [of two_workers 1 ?fds] by auto
  moreover have "turn_count (length (child two_workers)) (length ?fds) 0 = 2" "turn_count (length (child two_workers)) (length ?fds) 1 = 1"
    by (simp_all add: turn_count_def mod_Suc div_Suc)
  moreover have "deal two_workers 0 ?fds = [Hand_over 4 8, Close_fd 8, Hand_over 6 8, Close_fd 8, Hand_over 4 8, Close_fd 8]"
    by (simp add: socket_of_def)
  ultimately show ?thesis by (intro exI [of _ srv']) (simp del: master_loop.simps list.map)
qed

lemma fold_reap_keeps:
  "i < length (child srv) \<Longrightarrow> sent_to (fold reap ns srv) i = sent_to srv i \<and> socket_of (fold reap ns srv) i = socket_of srv i"
proof (induction ns arbitrary: srv)
  case (Cons n ns)
  from Cons.IH [of "reap n srv"] Cons.prems show ?case by (simp) (simp add: reap_def)
qed simp

lemma fold_reap_differ: "sockets_differ (fold reap ns srv) = sockets_differ srv"
  by (simp add: sockets_differ_def fold_reap_keeps)

text \<open>The rest of a round and all that follow, once worker \<open>i\<close> is known not to run.\<close>

lemma master_loop_ended:
  assumes "server_wf srv" and "i < length (child srv)" and "\<not> runs srv i" and "sockets_differ srv"
  shows "\<exists>over srv' f' es. (case a of None \<Rightarrow> master_loop rs srv f []
      | Some fd \<Rightarrow> andthen (hand_over fd send srv) (\<lambda>(srv2, es1). master_loop rs srv2 f ([] @ es1))) = Inr (over, srv', f', es) \<and>
    left_alone i srv srv' \<and> (\<forall>d. Hand_over (socket_of srv i) d \<notin> set es)"
proof (cases a)
  case None
  with master_loop_leaves [OF assms, of rs f "[]"] show ?thesis by simp
next
  case (Some fd)
  from hand_over_leaves [OF assms, of fd send] obtain srv2 es1 where
    h: "hand_over fd send srv = Inr (srv2, es1)" "left_alone i srv srv2" "\<forall>d. Hand_over (socket_of srv i) d \<notin> set es1" by auto
  note k = left_alone_keeps [OF h(2) assms(2)]
  have "\<not> runs srv2 i" "sockets_differ srv2" using k assms(3,4) by simp_all
  from master_loop_leaves [OF k(1,2) this, of rs f es1] obtain over srv' f' es' where
    "master_loop rs srv2 f es1 = Inr (over, srv', f', es1 @ es')" "left_alone i srv2 srv'"
    "\<forall>d. Hand_over (socket_of srv i) d \<notin> set es'" using k(5) by auto
  then show ?thesis using Some h left_alone_trans [OF h(2)]
    by (intro exI [of _ over] exI [of _ srv'] exI [of _ f'] exI [of _ "es1 @ es'"]) auto
qed
text \<open>
  The master serves until it is told to stop. Whatever signals come in, whichever workers end and whichever
  messages fail, its loop ends exactly at the first round before which a SIGTERM or a second SIGINT has arrived, and
  each client that was accepted until then has its descriptor closed once, sent to at most one worker before that.
\<close>

theorem master_serves_until_told:
  assumes "server_wf srv"
  shows "\<exists>srv' f' pieces. master_loop rs srv no_signals [] = Inr (length (served [] rs) < length rs, srv', f', concat pieces) \<and>
    list_all2 client_done (clients (served [] rs)) pieces"
  using master_loop_serves [OF assms noted_none, of rs "[]"] by auto

definition stop_rounds :: "master_round list" where
  "stop_rounds = [client_round (\<lambda>_. 1) 8, (client_round (\<lambda>s. if s = 6 then -1 else 1) 9)\<lparr>signals := [SIGINT]\<rparr>,
     (client_round (\<lambda>_. 1) 8)\<lparr>signals := [SIGINT]\<rparr>, client_round (\<lambda>_. 1) 8]"

theorem master_serves_until_told_witness:
  "\<exists>srv' f' pieces. master_loop stop_rounds two_workers no_signals [] = Inr (True, srv', f', concat pieces) \<and>
    list_all2 client_done [8, 9] pieces"
proof -
  have "server_wf two_workers" by (simp add: server_wf_def)
  moreover have "length (served [] stop_rounds) < length stop_rounds" "clients (served [] stop_rounds) = [8, 9]"
    by (simp_all add: stop_rounds_def client_round_def told_to_stop_def)
  ultimately show ?thesis using master_serves_until_told [of two_workers stop_rounds] by simp
qed

text \<open>
  C18: Once the end of a worker is noticed, no client is sent to it: from the round in which \<open>waitpid\<close> gives its
  process number on, its socket gets no descriptor and its entry does not change.
\<close>

theorem dead_worker_gets_no_client:
  assumes "server_wf srv" and "sockets_differ srv" and "i < length (child srv)"
    and "signal_child_handled (foldl signal_handler f (signals r))" and "pid (child srv ! i) \<in> set (exits r)"
  shows "\<exists>over srv' f' es. master_loop (r # rs) srv f [] = Inr (over, srv', f', es) \<and>
    (\<forall>d. Hand_over (fst (unix_domain_socket_fd (child srv ! i))) d \<notin> set es) \<and>
    sent_connection_number (child srv' ! i) = sent_connection_number (child srv ! i)"
proof -
  let ?f = "foldl signal_handler f (signals r)" and ?srv = "fold reap (exits r) srv"
  let ?f2 = "(foldl signal_handler ?f (late_signals r))\<lparr>signal_child_handled := False\<rparr>"
  have wf: "server_wf ?srv" "i < length (child ?srv)" using assms(1,3) by simp_all
  have dead: "\<not> runs ?srv i" "sockets_differ ?srv" using fold_reap_ends [OF assms(3,5)] assms(2) by (simp_all add: fold_reap_differ)
  have keep: "sent_to ?srv i = sent_to srv i" "socket_of ?srv i = fst (unix_domain_socket_fd (child srv ! i))"
    using fold_reap_keeps [OF assms(3)] by (simp_all add: socket_of_def)
  have eq: "master_loop (r # rs) srv f [] = (if server_shutdown ?f then Inr (True, srv, ?f, []) else
      (case accepted r of None \<Rightarrow> master_loop rs ?srv ?f2 []
       | Some fd \<Rightarrow> andthen (hand_over fd (sent_message r) ?srv) (\<lambda>(srv2, es1). master_loop rs srv2 ?f2 ([] @ es1))))"
    using assms(4) by (simp add: reap_children_def Let_def)
  from master_loop_ended [OF wf dead, where a = "accepted r" and rs = rs and f = ?f2 and send = "sent_message r"] show ?thesis
    unfolding eq using keep by (auto simp: left_alone_def)
qed

theorem dead_worker_gets_no_client_witness:
  "\<exists>over srv' f' es. master_loop [\<lparr>signals = [SIGCHLD], exits = [101], late_signals = [], accepted = Some 8, sent_message = \<lambda>_. 1\<rparr>,
       client_round (\<lambda>_. 1) 9] two_workers no_signals [] = Inr (over, srv', f', es) \<and> (\<forall>d. Hand_over 4 d \<notin> set es) \<and>
     sent_connection_number (child srv' ! 0) = 0"
proof -
  let ?r = "\<lparr>signals = [SIGCHLD], exits = [101], late_signals = [], accepted = Some 8, sent_message = \<lambda>_. 1\<rparr>"
  have "server_wf two_workers" "sockets_differ two_workers" by (simp_all add: server_wf_def sockets_differ_def socket_of_def)
  moreover have "signal_child_handled (foldl signal_handler no_signals (signals ?r))" by (simp add: signal_handler_def)
  ultimately show ?thesis
    using dead_worker_gets_no_client [of two_workers 0 no_signals ?r "[client_round (\<lambda>_. 1) 9]"] by (simp del: master_loop.simps)
qed




section \<open>The start\<close>

lemma buffer_copy_lit:
  assumes "NUL \<notin> set s" and "length s < buffer_max"
  shows "\<exists>b. buffer_copy_string buffer_init (lit s) = Inr b \<and> points_to (ptr b) s \<and> \<not> buffer_is_empty b"
proof -
  obtain b where b: "buffer_copy_string buffer_init (lit s) = Inr b" "buffer_holds b s" "unat (used_bytes b) = Suc (length s)"
    using buffer_copy_string_holds [OF buffer_init_holds points_to_lit [OF assms(1)] assms(2)] by (auto simp: returns_iff)
  have nz: "used_bytes b \<noteq> 0" using b(3) by auto
  have "points_to (ptr b) s" by (rule buffer_holds_points_to [OF b(2) nz assms(1)])
  with b(1) nz show ?thesis by (simp add: buffer_is_empty_def word_greater_zero_iff)
qed

lemma set_config_default_ok:
  obtains c where "set_config_default server_config_init = Inr c" "max_worker_number c = 4"
    "points_to (ptr (log_filename c)) default_log_filepath" "\<not> buffer_is_empty (log_filename c)"
proof -
  have nul: "NUL \<notin> set ''minihttpd''" "NUL \<notin> set ''/var/opt/minihttpd/minihttpd''" "NUL \<notin> set ''/var/opt/minihttpd/mime_type.conf''"
     "NUL \<notin> set default_log_filepath" "NUL \<notin> set ''/var/opt/minihttpd/minihttpd.conf''" "NUL \<notin> set ''v0.1''"
    by (simp_all add: default_log_filepath_def)
  note ok = nul [THEN buffer_copy_lit]
  from ok that show ?thesis
    by (auto simp: set_config_default_def server_config_init_def default_log_filepath_def)
qed

text \<open>The entry of a worker that was just started, with the end of its pair the master keeps and its process number.\<close>

definition started :: "(int \<times> int) \<times> int \<Rightarrow> server_child" where
  "started w = \<lparr>pid = snd w, unix_domain_socket_fd = fst w, sent_connection_number = 0, worker_running = True\<rparr>"

lemma spawn_loop_all:
  assumes "i + length ws = length (child srv)"
    and "\<forall>j < length ws. 0 < snd (ws ! j) \<and> answers (i + j) = (Some (fst (ws ! j)), snd (ws ! j))"
  shows "spawn_loop answers [i..<i + length ws] srv es =
    Inr (Spawned (srv\<lparr>child := take i (child srv) @ map started ws\<rparr>) (es @ map (\<lambda>w. Close_fd (snd (fst w))) ws))"
  using assms
proof (induction ws arbitrary: i srv es)
  case (Cons w ws)
  let ?srv = "srv\<lparr>child := (child srv)[i := started w]\<rparr>"
  have i: "i < length (child srv)" using Cons.prems(1) by simp
  have w: "0 < snd w" "answers i = (Some (fst w), snd w)" using Cons.prems(2) by (force dest: spec [of _ 0])+
  have eq: "(child srv ! i)\<lparr>unix_domain_socket_fd := fst w, sent_connection_number := 0, pid := snd w, worker_running := True\<rparr> = started w"
    by (simp add: started_def)
  have "take (Suc i) ((child srv)[i := started w]) = take i (child srv) @ [started w]"
    using i by (simp add: take_Suc_conv_app_nth)
  moreover have "0 < snd (ws ! j) \<and> answers (Suc i + j) = (Some (fst (ws ! j)), snd (ws ! j))" if "j < length ws" for j
    using Cons.prems(2) that by (force dest: spec [of _ "Suc j"])
  then have "spawn_loop answers [Suc i..<Suc i + length ws] ?srv (es @ [Close_fd (snd (fst w))]) =
    Inr (Spawned (?srv\<lparr>child := take (Suc i) (child ?srv) @ map started ws\<rparr>)
      ((es @ [Close_fd (snd (fst w))]) @ map (\<lambda>w. Close_fd (snd (fst w))) ws))"
    using Cons.prems(1) by (intro Cons.IH) auto
  moreover have "[i..<i + length (w # ws)] = i # [Suc i..<Suc i + length ws]" by (simp add: upt_rec)
  ultimately show ?case using i w eq by (simp add: Let_def)
qed simp

lemma spawn_workers_all:
  assumes "server_wf srv" and "length ws = length (child srv)"
    and "\<forall>i < length ws. 0 < snd (ws ! i) \<and> answers i = (Some (fst (ws ! i)), snd (ws ! i))"
  shows "spawn_workers answers srv = Inr (Spawned (srv\<lparr>child := map started ws\<rparr>) (map (\<lambda>w. Close_fd (snd (fst w))) ws))"
  using spawn_loop_all [of 0 ws srv answers "[]"] assms by (simp add: spawn_workers_def server_wf_def)

text \<open>
  C21: The server starts ready for its clients. The defaults name a log file, so the log goes to a file even without \<open>-D\<close>;
  when the pairs of sockets and the processes can be made, each of the four workers is entered with its process number
  and the master's end of its pair, the workers' ends are closed, and clients will be dealt out in turn.
\<close>

theorem server_starts_ready:
  assumes "length ws = 4" and "\<forall>w \<in> set ws. 0 \<le> fst (fst w) \<and> 0 < snd w" and "0 \<le> open_file default_log_filepath"
    and "\<forall>i < 4. answers i = (Some (fst (ws ! i)), snd (ws ! i))"
  shows "\<exists>srv srv1 srv2. server_init memory now = Inr srv \<and>
    open_log open_file srv = Inr (Inr srv1) \<and> log_mode srv1 = LOG_MODE_FILE \<and> log_fd srv1 = open_file default_log_filepath \<and>
    spawn_workers answers srv1 = Inr (Spawned srv2 (map (\<lambda>w. Close_fd (snd (fst w))) ws)) \<and>
    child srv2 = map started ws \<and> dealt srv2 0"
proof -
  obtain c where c: "set_config_default server_config_init = Inr c" "max_worker_number c = 4"
    "points_to (ptr (log_filename c)) default_log_filepath" "\<not> buffer_is_empty (log_filename c)"
    by (rule set_config_default_ok)
  obtain srv where srv: "server_init memory now = Inr srv" "worker_number srv = 4" "length (child srv) = 4" "config srv = c"
    using c(1,2) by (simp add: server_init_def)
  let ?srv1 = "srv\<lparr>config := (config srv)\<lparr>log_filename := log_filename c\<rparr>, log_fd := open_file default_log_filepath, log_mode := LOG_MODE_FILE\<rparr>"
  have log: "open_log open_file srv = Inr (Inr ?srv1)"
    using srv(4) c(3,4) assms(3) by (simp add: open_log_def Let_def)
  have wf: "server_wf ?srv1" "length ws = length (child ?srv1)" using srv assms(1) by (simp_all add: server_wf_def)
  have "spawn_workers answers ?srv1 = Inr (Spawned (?srv1\<lparr>child := map started ws\<rparr>) (map (\<lambda>w. Close_fd (snd (fst w))) ws))"
    by (rule spawn_workers_all [OF wf]) (use assms in auto)
  have "dealt (?srv1\<lparr>child := map started ws\<rparr>) 0"
    using assms(1,2) srv(2) by (auto simp: dealt_def server_wf_def started_def socket_of_def turn_count_def)
  with srv(1) log \<open>spawn_workers answers ?srv1 = _\<close> show ?thesis by auto
qed

theorem server_starts_ready_witness:
  "\<exists>srv srv1 srv2. server_init (\<lambda>_. started ((9, 9), 9)) 0 = Inr srv \<and> open_log (\<lambda>_. 3) srv = Inr (Inr srv1) \<and>
     log_mode srv1 = LOG_MODE_FILE \<and> log_fd srv1 = 3 \<and>
     spawn_workers (\<lambda>i. (Some (4 + int i, 5 + int i), 101 + int i)) srv1 =
       Inr (Spawned srv2 [Close_fd 5, Close_fd 6, Close_fd 7, Close_fd 8]) \<and>
     child srv2 = map started [((4, 5), 101), ((5, 6), 102), ((6, 7), 103), ((7, 8), 104)] \<and> dealt srv2 0"
proof -
  let ?ws = "[((4, 5), 101), ((5, 6), 102), ((6, 7), 103), ((7, 8), 104)] :: ((int \<times> int) \<times> int) list"
  have ok: "\<forall>i < 4. (Some (4 + int i, 5 + int i), 101 + int i) = (Some (fst (?ws ! i)), snd (?ws ! i))"
    by (auto simp: numeral_eq_Suc less_Suc_eq)
  from server_starts_ready [OF _ _ _ ok, of "\<lambda>_. 3" "\<lambda>_. started ((9, 9), 9)" 0] show ?thesis by simp
qed

end
