(* ===== verification/Log.thy ===== *)
theory Log
  imports Conn_Write Server
begin

text \<open>
  The log (\<open>src/log.h\<close>, \<open>src/log.cpp\<close>): a line is put together in a buffer and written to a file or handed to
  \<open>syslog\<close>. The text \<open>strftime\<close> makes of the local time and the message that \<open>vsnprintf\<close> or \<open>vsprintf\<close> formats
  are parameters, as are the answers of \<open>write\<close>. The lemmas show what reaches the file, and when the formatted
  message is written past its block.
\<close>

section \<open>The C code\<close>

datatype minihttpd_log_level =
    MINIHTTPD_LOG_LEVEL_DEBUG | MINIHTTPD_LOG_LEVEL_INFO | MINIHTTPD_LOG_LEVEL_WARNIN | MINIHTTPD_LOG_LEVEL_ERROR

definition log_level_status :: "minihttpd_log_level \<Rightarrow> string" where
  "log_level_status level =
     (case level of
        MINIHTTPD_LOG_LEVEL_DEBUG \<Rightarrow> ''-DEBUG''
      | MINIHTTPD_LOG_LEVEL_INFO \<Rightarrow> ''-INFO''
      | MINIHTTPD_LOG_LEVEL_WARNIN \<Rightarrow> ''-WARNING''
      | MINIHTTPD_LOG_LEVEL_ERROR \<Rightarrow> ''-ERROR'')"

text \<open>
  A library function prints a string into a new buffer of the given size, whose length is then set to that of the string.
\<close>

definition print_into :: "u32 \<Rightarrow> string \<Rightarrow> fault + buffer" where
  "print_into sizes t =
     (let b = buffer_alloc_size buffer_init sizes
      in andthen (write_cells (ptr b) 0 (map Some t @ [Some NUL])) (\<lambda>p.
         andthen (cstr p) (\<lambda>s.
         Inr (b\<lparr>ptr := p, used_bytes := of_nat (length s) + 1\<rparr>))))"

definition minihttp_prepare_log ::
  "string \<Rightarrow> minihttpd_log_level \<Rightarrow> string \<Rightarrow> u32 \<Rightarrow> string \<Rightarrow> fault + buffer" where
  "minihttp_prepare_log local_time level file_name line_no function_name =
     andthen (print_into 256 local_time) (\<lambda>t0.
     andthen (buffer_set_nul t0) (\<lambda>local_time_buffer.
     andthen (buffer_copy_buffer buffer_init local_time_buffer) (\<lambda>b.
     andthen (buffer_append_string b (lit '' - '')) (\<lambda>b.
     andthen (buffer_append_string b (lit file_name)) (\<lambda>b.
     andthen (buffer_append_string b (lit ''_'')) (\<lambda>b.
     andthen (buffer_append_string b (lit (format_d line_no))) (\<lambda>b.
     andthen (buffer_append_string b (lit ''_'')) (\<lambda>b.
     andthen (buffer_append_string b (lit function_name)) (\<lambda>b.
     andthen (buffer_append_string b (lit (log_level_status level))) (\<lambda>b.
     buffer_append_string b (lit '':'')))))))))))"

text \<open>
  The answers of \<open>write\<close>: some bytes, a failure with EINTR, or another failure. A call never writes more than it is
  asked to. The buffer of the line is freed at the end, but not after a failure; the answers may run out before either.
\<close>

datatype write_answer = Wrote nat | Write_interrupted | Write_failed

datatype log_outcome = Log_freed | Log_leaked | Log_pending

fun log_write_loop :: "write_answer list \<Rightarrow> cptr \<Rightarrow> u32 \<Rightarrow> string \<Rightarrow> fault + (string \<times> log_outcome)" where
  "log_write_loop [] buf buf_length out = Inr (out, if 0 < buf_length then Log_pending else Log_freed)"
| "log_write_loop (a # as) buf buf_length out =
     (if 0 < buf_length
      then (case a of
              Write_failed \<Rightarrow> Inr (out, Log_leaked)
            | Write_interrupted \<Rightarrow> log_write_loop as buf buf_length out
            | Wrote n \<Rightarrow>
                let n1 = min n (unat buf_length)
                in if n1 = 0 then log_write_loop as buf buf_length out
                   else andthen (read_cells buf n1) (\<lambda>xs.
                        andthen (cell_bytes xs) (\<lambda>s.
                        log_write_loop as (advance buf n1) (buf_length - of_nat n1) (out @ s))))
      else Inr (out, Log_freed))"

definition minihttpd_running_log ::
  "write_answer list \<Rightarrow> string \<Rightarrow> int \<Rightarrow> minihttpd_log_level \<Rightarrow> string \<Rightarrow> u32 \<Rightarrow> string \<Rightarrow> string \<Rightarrow>
   fault + (string \<times> log_outcome)" where
  "minihttpd_running_log answers local_time logfile_fd level file_name line_no function_name content =
     andthen (minihttp_prepare_log local_time level file_name line_no function_name) (\<lambda>b.
     andthen (print_into (1024 * 64) (take (unat (buf_size (buffer_alloc_size buffer_init (1024 * 64))) - 1) content)) (\<lambda>format_content.
     andthen (buffer_append_buffer b format_content) (\<lambda>b.
     andthen (buffer_append_string b (lit [LF])) (\<lambda>b.
     if 0 \<le> logfile_fd then log_write_loop answers (ptr b) (buffer_string_length b) []
     else Inr ([], Log_freed)))))"

text \<open>The text that is handed to \<open>syslog\<close>.\<close>

definition minihttpd_running_syslog ::
  "string \<Rightarrow> minihttpd_log_level \<Rightarrow> string \<Rightarrow> u32 \<Rightarrow> string \<Rightarrow> string \<Rightarrow> fault + string" where
  "minihttpd_running_syslog local_time level file_name line_no function_name content =
     andthen (minihttp_prepare_log local_time level file_name line_no function_name) (\<lambda>b.
     andthen (print_into 1024 content) (\<lambda>format_content.
     andthen (buffer_append_string b (ptr format_content)) (\<lambda>b.
     cstr (ptr b))))"

text \<open>\<open>log_to_backend\<close>: the master logs to its file or to \<open>syslog\<close>.\<close>

definition log_to_backend ::
  "write_answer list \<Rightarrow> string \<Rightarrow> server \<Rightarrow> minihttpd_log_level \<Rightarrow> string \<Rightarrow> u32 \<Rightarrow> string \<Rightarrow> string \<Rightarrow>
   fault + ((string \<times> log_outcome) + string)" where
  "log_to_backend answers local_time srv level file_name line_no function_name content =
     (if log_mode srv = LOG_MODE_FILE
      then andthen (minihttpd_running_log answers local_time (log_fd srv) level file_name line_no function_name content)
             (\<lambda>r. Inr (Inl r))
      else andthen (minihttpd_running_syslog local_time level file_name line_no function_name content) (\<lambda>r. Inr (Inr r)))"

section \<open>The text of a line\<close>

definition log_prefix :: "string \<Rightarrow> minihttpd_log_level \<Rightarrow> string \<Rightarrow> u32 \<Rightarrow> string \<Rightarrow> string" where
  "log_prefix local_time level file_name line_no function_name =
     local_time @ '' - '' @ file_name @ ''_'' @ format_d line_no @ ''_'' @ function_name @ log_level_status level @ '':''"

text \<open>What the callers and the library promise: strings without NUL, and sizes far below the limits.\<close>

definition log_arguments :: "string \<Rightarrow> string \<Rightarrow> string \<Rightarrow> string \<Rightarrow> bool" where
  "log_arguments local_time file_name function_name content \<longleftrightarrow>
     NUL \<notin> set local_time \<and> NUL \<notin> set file_name \<and> NUL \<notin> set function_name \<and> NUL \<notin> set content \<and>
     length local_time < 256 \<and> length file_name + length function_name < 2 ^ 20"

lemma buffer_alloc_new [simp]:
  "buf_size (buffer_alloc_size buffer_init 256) = 256" "buf_size (buffer_alloc_size buffer_init 65536) = 65536"
  "buf_size (buffer_alloc_size buffer_init 1024) = 1024"
  by (simp_all add: buffer_alloc_size_def buffer_align_size_def buffer_init_def)

lemma new_block:
  assumes "unat n + 64 \<le> 2 ^ 32"
  obtains cs where "ptr (buffer_alloc_size buffer_init n) = Some cs"
    "length cs = unat (buf_size (buffer_alloc_size buffer_init n))"
  using buffer_alloc_size_block(1) [OF buffer_init_holds assms] by blast

lemma print_into_holds:
  assumes "unat n + 64 \<le> 2 ^ 32" and "NUL \<notin> set t" and "length t < unat (buf_size (buffer_alloc_size buffer_init n))"
  shows "returns (print_into n t) (\<lambda>b. text_buffer b t)"
proof -
  let ?b = "buffer_alloc_size buffer_init n"
  obtain cs where cs: "ptr ?b = Some cs" "length cs = unat (buf_size ?b)" by (rule new_block [OF assms(1)])
  have lt: "length t + 1 < 2 ^ 32 \<or> length t + 1 = 2 ^ 32" using assms(3) unat_u32_lt [of "buf_size ?b"] by linarith
  have "length t + 1 \<noteq> 2 ^ 32" using assms(3) unat_u32_lt [of "buf_size ?b"] by linarith
  with lt have small: "Suc (length t) < 2 ^ 32" by simp
  have "(of_nat (length t) + 1 :: u32) = of_nat (Suc (length t))" by simp
  then have used: "unat (of_nat (length t) + 1 :: u32) = Suc (length t)"
    using unat_of_nat_u32 [OF small] by argo
  then have "(of_nat (length t) + 1 :: u32) \<noteq> 0" by auto
  with used cs assms show ?thesis
    by (simp add: print_into_def Let_def cstr_cells_string text_buffer_def buffer_holds_def)
qed

lemma print_into_overflow:
  assumes "unat n + 64 \<le> 2 ^ 32" and "unat (buf_size (buffer_alloc_size buffer_init n)) \<le> length t"
  shows "print_into n t = Inl OutOfBounds"
proof -
  obtain cs where "ptr (buffer_alloc_size buffer_init n) = Some cs" "length cs = unat (buf_size (buffer_alloc_size buffer_init n))"
    by (rule new_block [OF assms(1)])
  with assms show ?thesis by (simp add: print_into_def Let_def)
qed

lemma text_buffer_set_nul: "text_buffer b s \<Longrightarrow> returns (buffer_set_nul b) (\<lambda>b'. text_buffer b' s)"
  using unat_pred_u32 [of "used_bytes b" "length s"] by (auto simp: buffer_set_nul_def text_buffer_cells)

lemma log_level_status: "NUL \<notin> set (log_level_status level)" "length (log_level_status level) < 16"
  by (simp_all add: log_level_status_def split: minihttpd_log_level.split)

lemma log_prefix_length:
  assumes "log_arguments now f g c"
  shows "length (log_prefix now level f line g) \<le> 2 ^ 20 + 2 ^ 9"
  using assms log_level_status(2) [of level] format_d_length [of line]
  by (simp add: log_arguments_def log_prefix_def)

lemma log_prefix_NUL:
  assumes "log_arguments now f g c"
  shows "NUL \<notin> set (log_prefix now level f line g)"
  using assms log_level_status(1) [of level] NUL_format_d [of line]
  by (simp add: log_arguments_def log_prefix_def)

lemma prepare_log_holds:
  assumes "log_arguments now f g c"
  shows "returns (minihttp_prepare_log now level f line g) (\<lambda>b. buffer_holds b (log_prefix now level f line g))"
proof -
  have nul: "NUL \<notin> set now" "NUL \<notin> set f" "NUL \<notin> set g" and len: "length now < 256" "length f + length g < 2 ^ 20"
    using assms by (simp_all add: log_arguments_def)
  obtain t where t: "print_into 256 now = Inr t" "text_buffer t now"
    using print_into_holds [of 256 now] nul(1) len(1) by (auto simp: returns_iff)
  obtain t1 where t1: "buffer_set_nul t = Inr t1" "text_buffer t1 now"
    using text_buffer_set_nul [OF t(2)] by (auto simp: returns_iff)
  have "ptr t1 \<noteq> None" using t1(2) by (auto simp: text_buffer_cells)
  then obtain b where b: "buffer_copy_buffer buffer_init t1 = Inr b" "buffer_holds b now"
    using buffer_copy_buffer_holds [OF buffer_init_holds, of t1 now] t1(2) len(1)
    by (auto simp: returns_iff text_buffer_def)
  note level = log_level_status [of level]
  have "adds (\<lambda>b. andthen (buffer_append_string b (lit '' - '')) (\<lambda>b.
     andthen (buffer_append_string b (lit f)) (\<lambda>b.
     andthen (buffer_append_string b (lit ''_'')) (\<lambda>b.
     andthen (buffer_append_string b (lit (format_d line))) (\<lambda>b.
     andthen (buffer_append_string b (lit ''_'')) (\<lambda>b.
     andthen (buffer_append_string b (lit g)) (\<lambda>b.
     andthen (buffer_append_string b (lit (log_level_status level))) (\<lambda>b.
     buffer_append_string b (lit '':'')))))))))
    ('' - '' @ f @ ''_'' @ format_d line @ ''_'' @ g @ log_level_status level @ '':'')"
    by (intro adds_rules NUL_format_d nul level) simp_all
  from addsD [OF this b(2)] len level(2) format_d_length [of line] t(1) t1(1) b(1) show ?thesis
    by (simp add: minihttp_prepare_log_def log_prefix_def)
qed

section \<open>What reaches the file\<close>

text \<open>The answers that make progress.\<close>

definition advances :: "write_answer \<Rightarrow> bool" where
  "advances a \<longleftrightarrow> (case a of Wrote n \<Rightarrow> 0 < n | _ \<Rightarrow> False)"

lemma log_write_loop_writes:
  assumes "provides buf s" and "unat len = length s"
  shows "\<exists>t u oc. log_write_loop as buf len out = Inr (out @ t, oc) \<and> s = t @ u \<and> (u = [] \<longleftrightarrow> oc = Log_freed) \<and>
    (oc = Log_leaked \<longrightarrow> Write_failed \<in> set as) \<and> (oc = Log_pending \<longrightarrow> length (filter advances as) < length s)"
  using assms
proof (induction as arbitrary: buf s len out)
  case Nil
  show ?case
  proof (cases "0 < len")
    case True
    then show ?thesis using Nil(2) by (auto intro!: exI [of _ "[]"] simp: word_less_nat_alt)
  next
    case False
    then show ?thesis using Nil(2) by (auto simp: word_less_nat_alt)
  qed
next
  case (Cons a as)
  show ?case
  proof (cases "0 < len")
    case False
    then show ?thesis using Cons.prems(2) by (auto simp: word_less_nat_alt)
  next
    case len: True
    then have s: "s \<noteq> []" using Cons.prems(2) by (auto simp: word_less_nat_alt)
    note again = Cons.IH [OF Cons.prems, of out]
    show ?thesis
    proof (cases a)
      case Write_failed
      then show ?thesis using len s by (auto intro!: exI [of _ "[]"])
    next
      case Write_interrupted
      then show ?thesis using again len by (fastforce simp: advances_def)
    next
      case (Wrote n)
      define k where "k = min n (length s)"
      show ?thesis
      proof (cases "n = 0")
        case True
        then show ?thesis using again len Wrote by (fastforce simp: advances_def)
      next
        case False
        then have n: "0 < k" using s by (simp add: k_def)
        have le: "k \<le> length s" by (simp add: k_def)
        have rd: "read_cells buf k = Inr (map Some (take k s))"
          using Cons.prems(1) le by (auto simp: provides_iff take_map)
        have adv: "provides (advance buf k) (drop k s)"
          using Cons.prems(1) le by (auto simp: provides_iff advance_def drop_map)
        have "k < 2 ^ 32" using le Cons.prems(2) unat_u32_lt [of len] by linarith
        then have un: "unat (of_nat k :: u32) = k" by (rule unat_of_nat_u32)
        then have "unat (len - of_nat k) = length (drop k s)"
          using Cons.prems(2) by (subst unat_sub) (simp_all add: word_le_nat_alt le)
        from Cons.IH [OF adv this, of "out @ take k s"] obtain t u oc where
          ih: "log_write_loop as (advance buf k) (len - of_nat k) (out @ take k s) = Inr ((out @ take k s) @ t, oc)"
            "drop k s = t @ u" "(u = []) = (oc = Log_freed)" "oc = Log_leaked \<longrightarrow> Write_failed \<in> set as"
            "oc = Log_pending \<longrightarrow> length (filter advances as) < length (drop k s)" by blast
        have "s = (take k s @ t) @ u" using ih(2) append_take_drop_id [of k s] by simp
        moreover have "log_write_loop (a # as) buf len out = Inr (out @ (take k s @ t), oc)"
          using ih(1) rd len n Wrote Cons.prems(2) by (simp add: Let_def k_def [symmetric])
        moreover have "oc = Log_pending \<longrightarrow> length (filter advances (a # as)) < length s"
          using ih(5) n by (auto simp: Wrote advances_def)
        ultimately show ?thesis using ih(3,4) by auto
      qed
    qed
  qed
qed

section \<open>Properties\<close>

definition log_line :: "string \<Rightarrow> minihttpd_log_level \<Rightarrow> string \<Rightarrow> u32 \<Rightarrow> string \<Rightarrow> string \<Rightarrow> string" where
  "log_line local_time level file_name line_no function_name content =
     log_prefix local_time level file_name line_no function_name @ take 65535 content @ [LF]"

text \<open>
  C22: What reaches the log file. The bytes written are a prefix of the line (time, file, line, function, level, the message cut
  to 65535 bytes, a line feed), whatever \<open>write\<close> answers; it is the whole line exactly when the buffer is freed, the buffer is lost
  only after a failure, and the loop has not ended only while fewer writes made progress than the line has bytes.
\<close>

theorem running_log_writes_line:
  assumes "log_arguments now f g c" and "0 \<le> fd"
  shows "\<exists>t u oc. minihttpd_running_log as now fd level f line g c = Inr (t, oc) \<and> log_line now level f line g c = t @ u \<and>
    (u = [] \<longleftrightarrow> oc = Log_freed) \<and> (oc = Log_leaked \<longrightarrow> Write_failed \<in> set as) \<and>
    (oc = Log_pending \<longrightarrow> length (filter advances as) < length (log_line now level f line g c))"
proof -
  let ?c = "take 65535 c"
  have nul: "NUL \<notin> set ?c" using assms(1) by (auto simp: log_arguments_def dest: in_set_takeD)
  obtain b where b: "minihttp_prepare_log now level f line g = Inr b" "buffer_holds b (log_prefix now level f line g)"
    using prepare_log_holds [OF assms(1), of level line] by (auto simp: returns_iff)
  have lc: "length ?c < unat (buf_size (buffer_alloc_size buffer_init 65536))" by (simp add: min_def)
  obtain fc where fc: "print_into 65536 ?c = Inr fc" "text_buffer fc ?c"
    using print_into_holds [OF _ nul lc] by (auto simp: returns_iff)
  note len = log_prefix_length [OF assms(1), of level line]
  have "adds (\<lambda>b. andthen (buffer_append_buffer b fc) (\<lambda>b. buffer_append_string b (lit [LF]))) (?c @ [LF])"
    by (intro adds_rules fc(2)) simp
  moreover have "length (log_prefix now level f line g) + length (?c @ [LF]) < buffer_max"
    using len min.cobounded2 [of "length c" 65535] by simp
  ultimately obtain b1 where
    b1: "andthen (buffer_append_buffer b fc) (\<lambda>b. buffer_append_string b (lit [LF])) = Inr b1" "buffer_holds b1 (log_line now level f line g c)"
    using addsD [OF _ b(2)] by (fastforce simp: returns_iff log_line_def)
  obtain b2 where b2: "buffer_append_buffer b fc = Inr b2" "buffer_append_string b2 (lit [LF]) = Inr b1"
    using b1(1) by (cases "buffer_append_buffer b fc") simp_all
  have run: "minihttpd_running_log as now fd level f line g c = log_write_loop as (ptr b1) (buffer_string_length b1) []"
    using b(1) fc(1) b2 assms(2) by (simp add: minihttpd_running_log_def)
  have "text_buffer b1 (log_line now level f line g c)" using b1(2) by (rule text_buffer_nonempty) (simp add: log_line_def)
  then have "provides (ptr b1) (log_line now level f line g c)" "unat (buffer_string_length b1) = length (log_line now level f line g c)"
    using buffer_holds_provides [OF b1(2)] buffer_string_length_holds [OF b1(2)] by (simp_all add: text_buffer_def)
  from log_write_loop_writes [OF this, of as "[]"] show ?thesis unfolding run by simp
qed

text \<open>
  C35: A message of 1024 bytes or more that the master logs to \<open>syslog\<close> is written past its block by \<open>vsprintf\<close>; a shorter one is
  handed over behind the prefix of the line.
\<close>

theorem syslog_overflow:
  assumes "log_arguments now f g c" and "log_mode srv = LOG_MODE_SYSLOG"
  shows "log_to_backend as now srv level f line g c =
    (if length c < 1024 then Inr (Inr (log_prefix now level f line g @ c)) else Inl OutOfBounds)"
proof -
  have nul: "NUL \<notin> set c" using assms(1) by (simp add: log_arguments_def)
  obtain b where b: "minihttp_prepare_log now level f line g = Inr b" "buffer_holds b (log_prefix now level f line g)"
    using prepare_log_holds [OF assms(1), of level line] by (auto simp: returns_iff)
  show ?thesis
  proof (cases "length c < 1024")
    case False
    then have "print_into 1024 c = Inl OutOfBounds" by (intro print_into_overflow) simp_all
    with b(1) False assms(2) show ?thesis by (simp add: log_to_backend_def minihttpd_running_syslog_def)
  next
    case True
    obtain fc where fc: "print_into 1024 c = Inr fc" "text_buffer fc c"
      using print_into_holds [of 1024 c] nul True by (auto simp: returns_iff)
    have "points_to (ptr fc) c" using text_buffer_points_to_plain [OF fc(2) nul] .
    from buffer_append_string_holds [OF b(2) this] log_prefix_length [OF assms(1), of level line] True
    obtain b1 where b1: "buffer_append_string b (ptr fc) = Inr b1" "buffer_holds b1 (log_prefix now level f line g @ c)"
      by (auto simp: returns_iff)
    have "text_buffer b1 (log_prefix now level f line g @ c)" using b1(2) by (rule text_buffer_nonempty) (simp add: log_prefix_def)
    then have "cstr (ptr b1) = Inr (log_prefix now level f line g @ c)"
      using log_prefix_NUL [OF assms(1)] nul by (intro text_buffer_cstr_plain) simp_all
    with b(1) fc(1) b1(1) True assms(2) show ?thesis by (simp add: log_to_backend_def minihttpd_running_syslog_def)
  qed
qed

lemma sample_log_arguments: "NUL \<notin> set c \<Longrightarrow> log_arguments ''2020-01-01 00:00:00'' ''main.cpp'' ''main'' c"
  by (simp add: log_arguments_def)

theorem syslog_overflow_witness:
  "log_to_backend [] ''2020-01-01 00:00:00'' (two_workers\<lparr>log_mode := LOG_MODE_SYSLOG\<rparr>) MINIHTTPD_LOG_LEVEL_INFO ''main.cpp'' 181 ''main''
     (replicate 1024 CHR ''x'') = Inl OutOfBounds"
  using syslog_overflow [OF sample_log_arguments, of "replicate 1024 CHR ''x''" "two_workers\<lparr>log_mode := LOG_MODE_SYSLOG\<rparr>" "[]"
    MINIHTTPD_LOG_LEVEL_INFO 181] by (simp add: in_set_replicate)

theorem running_log_writes_line_witness:
  "\<exists>t u oc. minihttpd_running_log [Wrote 10, Write_interrupted, Wrote 5, Write_failed] ''2020-01-01 00:00:00'' 3 MINIHTTPD_LOG_LEVEL_INFO
       ''main.cpp'' 181 ''main'' ''started'' = Inr (t, oc) \<and>
     log_line ''2020-01-01 00:00:00'' MINIHTTPD_LOG_LEVEL_INFO ''main.cpp'' 181 ''main'' ''started'' = t @ u \<and> (u = [] \<longleftrightarrow> oc = Log_freed)"
  using running_log_writes_line [OF sample_log_arguments, of "''started''" 3 "[Wrote 10, Write_interrupted, Wrote 5, Write_failed]"
    MINIHTTPD_LOG_LEVEL_INFO 181] by auto

end
