(* ===== verification/Sockets.thy ===== *)
theory Sockets
  imports Conn_Write
begin

text \<open>
  The helpers around sockets (\<open>src/tcp_socket.cpp\<close>, \<open>src/unix_socket.cpp\<close>): creating the listening socket, receiving a
  descriptor, and \<open>tcp_sendfile\<close>, which sends part of a file through a window mapped with \<open>mmap\<close> (nothing calls it; the
  connection has its own). What the system calls answer are parameters. The lemmas show what \<open>tcp_sendfile\<close> sends.
\<close>

section \<open>The C code\<close>

text \<open>
  The answers of \<open>socket\<close> and \<open>bind\<close>; the result, and the descriptors that were closed. What \<open>listen\<close> answers is ignored.
\<close>

definition create_tcp_socket :: "int \<Rightarrow> int \<Rightarrow> int \<times> int list" where
  "create_tcp_socket socket_fd bind_result = (if bind_result \<noteq> 0 then (-1, [socket_fd]) else (socket_fd, []))"

text \<open>A control message that came with the data: whether its length, level and type are the expected ones, and its descriptor.\<close>

record control_message =
  right_length :: bool
  right_level :: bool
  right_type :: bool
  passed_fd :: int

text \<open>The result and what \<open>*fd\<close> is afterwards; without a descriptor in the message it keeps its old value.\<close>

definition unix_domain_socket_recvfd :: "int \<Rightarrow> int option \<Rightarrow> int \<Rightarrow> control_message option \<Rightarrow> int \<times> int option" where
  "unix_domain_socket_recvfd socket_fd fd n control =
     (if socket_fd < 0 then (-1, fd)
      else (n, if 0 < n
               then (case control of
                       None \<Rightarrow> fd
                     | Some m \<Rightarrow> if right_length m \<and> right_level m \<and> right_type m then Some (passed_fd m) else fd)
               else fd))"

text \<open>\<open>map_file\<close> gives the bytes of the mapped part of the file, or nothing when \<open>mmap\<close> fails; \<open>write_result\<close> is what \<open>write\<close> answers.\<close>

definition tcp_sendfile ::
  "(u32 \<Rightarrow> u32 \<Rightarrow> string option) \<Rightarrow> (string \<Rightarrow> int) \<Rightarrow> int \<Rightarrow> int \<Rightarrow> u32 \<Rightarrow> u32 \<Rightarrow> u32 \<Rightarrow> fault + (int \<times> string)" where
  "tcp_sendfile map_file write_result socket_fd fd offset len file_size =
     (if socket_fd < 0 \<or> fd < 0 then Inl AssertFailed
      else let map_offset = offset - offset mod 4096;
               map_len = (if file_size < map_offset + 4096 * 64 then file_size - map_offset else 4096 * 64)
           in case map_file map_offset map_len of
                None \<Rightarrow> Inr (-1, [])
              | Some bytes \<Rightarrow>
                  andthen (buffer_copy_string_length buffer_init (Some (map Some bytes)) map_len) (\<lambda>b.
                  if offset < map_offset then Inl AssertFailed
                  else let send_offset = offset - map_offset;
                           rest = map_len - send_offset;
                           send_len = (if len < rest then len else rest)
                       in andthen (read_cells (advance (ptr b) (unat send_offset)) (unat send_len)) (\<lambda>xs.
                          andthen (cell_bytes xs) (\<lambda>s.
                          Inr (write_result s, s)))))"

section \<open>Properties\<close>

definition file_part :: "string \<Rightarrow> u32 \<Rightarrow> u32 \<Rightarrow> string" where
  "file_part content offset len = take (unat len) (drop (unat offset) content)"

text \<open>The window of 64 pages that starts at the offset's page: \<open>k\<close> bytes from \<open>m\<close>, of which \<open>rest\<close> lie behind the offset.\<close>

lemma sendfile_window:
  fixes offset file_size :: u32
  assumes fits: "unat file_size < 2 ^ 32 - 2 ^ 18" and off: "offset < file_size" and m: "m = offset - offset mod 4096"
    and k: "k = (if file_size < m + 4096 * 64 then file_size - m else 4096 * 64)"
    and e: "e = min (unat file_size) (unat offset - unat offset mod 4096 + 2 ^ 18)"
  shows "unat m \<le> unat offset" "unat k = e - unat m" "unat (offset - m) = unat offset - unat m"
    "unat (k - (offset - m)) = e - unat offset" "unat offset < e" "e \<le> unat file_size"
proof -
  have o: "unat offset < unat file_size" using off by (simp add: word_less_nat_alt)
  have um: "unat m = unat offset - unat offset mod 4096"
    unfolding m by (subst unat_sub) (simp_all add: word_le_nat_alt unat_mod)
  have mo: "unat m \<le> unat offset" "unat offset < unat m + 4096" unfolding um by (auto simp: less_diff_conv)
  show e1: "unat offset < e" "e \<le> unat file_size" using o mo um by (auto simp: e)
  have "unat (m + 4096 * 64) = unat m + 2 ^ 18" using mo o fits by (subst unat_add_u32) simp_all
  then have "unat k = (if unat file_size < unat m + 2 ^ 18 then unat file_size - unat m else 2 ^ 18)"
    using mo(1) o unfolding k word_less_nat_alt by (auto simp: unat_sub word_le_nat_alt)
  then show uk: "unat k = e - unat m" by (auto simp: e um)
  show skip: "unat (offset - m) = unat offset - unat m" using mo(1) by (simp add: unat_sub word_le_nat_alt)
  have "offset - m \<le> k" using skip uk e1 mo by (simp add: word_le_nat_alt)
  then show "unat (k - (offset - m)) = e - unat offset" using skip uk e1 mo by (simp add: unat_sub word_le_nat_alt)
  show "unat m \<le> unat offset" by (rule mo)
qed

lemma sendfile_bytes:
  assumes fds: "0 \<le> socket_fd" "0 \<le> fd" and content: "length content = unat file_size" and fits: "unat file_size < 2 ^ 32 - 2 ^ 18"
    and off: "offset < file_size" and map: "map_file = (\<lambda>off len. Some (file_part content off len))"
    and e: "e = min (unat file_size) (unat offset - unat offset mod 4096 + 2 ^ 18)"
  shows "tcp_sendfile map_file write_result socket_fd fd offset len file_size =
    (let s = take (min (unat len) (e - unat offset)) (drop (unat offset) content) in Inr (write_result s, s))"
proof -
  define o1 where "o1 = unat offset"
  define m where "m = offset - offset mod 4096"
  define k where "k = (if file_size < m + 4096 * 64 then file_size - m else 4096 * 64)"
  define skip where "skip = offset - m"
  define rest where "rest = k - skip"
  define n where "n = (if len < rest then len else rest)"
  define bytes where "bytes = file_part content m k"
  note win = sendfile_window [OF fits off m_def k_def e, folded skip_def, folded rest_def o1_def]
  have part: "length bytes = e - unat m" using content win(1,2,5,6) by (simp add: bytes_def file_part_def)
  have small: "length bytes < buffer_max" using part win fits by simp
  have "k = of_nat (length bytes)" unfolding part win(2) [symmetric] by simp
  moreover have "provides (Some (map Some bytes)) bytes" by (auto simp: provides_iff)
  ultimately obtain b where
    b: "buffer_copy_string_length buffer_init (Some (map Some bytes)) k = Inr b" "buffer_holds b bytes"
      "unat (used_bytes b) = Suc (length bytes)"
    using buffer_copy_string_length_holds [OF buffer_init_holds _ small] by (auto simp: returns_iff)
  then have "used_bytes b \<noteq> 0" by auto
  from buffer_holds_provides [OF b(2) this] have prov: "provides (ptr b) bytes" .
  have n: "unat n = min (unat len) (e - o1)" using win(4) by (simp add: n_def word_less_nat_alt min_def)
  have within: "o1 - unat m + unat n \<le> length bytes" unfolding n part using win(1,5) by (auto simp: min_def)
  have "drop (o1 - unat m) bytes = take (e - o1) (drop o1 content)"
    using win(1) by (simp add: bytes_def file_part_def win(2) drop_take)
  then have "take (unat n) (drop (o1 - unat m) bytes) = take (unat n) (drop o1 content)"
    by (simp add: n min.assoc)
  moreover have "read_cells (advance (ptr b) (o1 - unat m)) (unat n) = Inr (map Some (take (unat n) (drop (o1 - unat m) bytes)))"
    using prov within by (auto simp: provides_iff advance_def take_map drop_map)
  moreover have "\<not> offset < m" using win(1) by (simp add: word_less_nat_alt o1_def)
  ultimately have "tcp_sendfile map_file write_result socket_fd fd offset len file_size =
      Inr (write_result (take (unat n) (drop o1 content)), take (unat n) (drop o1 content))"
    using fds b(1) win(3)
    unfolding tcp_sendfile_def map Let_def m_def [symmetric] k_def [symmetric] skip_def [symmetric] rest_def [symmetric]
      n_def [symmetric] bytes_def [symmetric] by (simp add: bytes_def [symmetric])
  then show ?thesis unfolding n by (simp add: o1_def Let_def)
qed

text \<open>
  C36: \<open>tcp_sendfile\<close> hands \<open>write\<close> bytes of the file from the offset on: as many as asked for, but at most up to the end of the
  file and of the window of 64 pages that starts at the offset's page, and nothing outside the mapped part is read.
\<close>

theorem tcp_sendfile_sends:
  assumes "0 \<le> socket_fd" and "0 \<le> fd" and "length content = unat file_size" and "unat file_size < 2 ^ 32 - 2 ^ 18"
    and "offset < file_size" and "map_file = (\<lambda>off len. Some (file_part content off len))"
  shows "tcp_sendfile map_file write_result socket_fd fd offset len file_size =
    (let n = min (unat len) (min (unat file_size) (unat offset - unat offset mod 4096 + 2 ^ 18) - unat offset);
         s = take n (drop (unat offset) content)
     in Inr (write_result s, s))"
  unfolding Let_def sendfile_bytes [OF assms refl, unfolded Let_def] by (rule refl)

theorem tcp_sendfile_sends_witness:
  "tcp_sendfile (\<lambda>off len. Some (file_part ''0123456789'' off len)) (\<lambda>s. int (length s)) 5 6 2 3 10 = Inr (3, ''234'')"
  using tcp_sendfile_sends [of 5 6 "''0123456789''" 10 2 "\<lambda>off len. Some (file_part ''0123456789'' off len)" "\<lambda>s. int (length s)" 3]
  by simp

end
