(* ===== verification/Daemonize.thy ===== *)
theory Daemonize
  imports Server
begin

text \<open>
  How the master becomes a daemon (\<open>src/daemonize.cpp\<close>), and what a worker does with the descriptors it inherits
  (\<open>src/main.cpp\<close>, 262 to 268). A process is a record of what these functions change; what \<open>fork\<close>, \<open>getrlimit\<close> and \<open>open\<close>
  answer are parameters, and their effects are those POSIX gives them. The lemmas show that the process that goes on
  is cut off from the terminal and from every descriptor of the process that started it.
\<close>

section \<open>A process\<close>

text \<open>\<open>descriptors\<close> gives the name of the file a descriptor is open on.\<close>

record process =
  file_mask :: nat
  session_leader :: bool
  has_terminal :: bool
  hangup_ignored :: bool
  descriptors :: "nat \<Rightarrow> string option"
  working_directory :: string
  syslog_ident :: "string option"

text \<open>
  A child leads no session, and inherits the rest. \<open>setsid\<close> makes a process that leads none the leader of a new
  session without a terminal. \<open>open\<close> takes the first free descriptor below the limit; \<open>dup2\<close> fails unless its
  first argument is open and its second is below the limit.
\<close>

definition forked_child :: "process \<Rightarrow> process" where
  "forked_child p = p\<lparr>session_leader := False\<rparr>"

definition sys_setsid :: "process \<Rightarrow> process" where
  "sys_setsid p = p\<lparr>session_leader := True, has_terminal := False\<rparr>"

definition close_fd :: "nat \<Rightarrow> process \<Rightarrow> process" where
  "close_fd n p = p\<lparr>descriptors := (descriptors p)(n := None)\<rparr>"

definition open_path :: "bool \<Rightarrow> nat \<Rightarrow> string \<Rightarrow> process \<Rightarrow> int \<times> process" where
  "open_path succeeds limit path p =
     (case find (\<lambda>n. descriptors p n = None) [0..<limit] of
        Some n \<Rightarrow> if succeeds then (int n, p\<lparr>descriptors := (descriptors p)(n \<mapsto> path)\<rparr>) else (-1, p)
      | None \<Rightarrow> (-1, p))"

definition sys_dup2 :: "nat \<Rightarrow> int \<Rightarrow> nat \<Rightarrow> process \<Rightarrow> process" where
  "sys_dup2 limit fd n p =
     (if 0 \<le> fd \<and> descriptors p (nat fd) \<noteq> None \<and> n < limit
      then p\<lparr>descriptors := (descriptors p)(n := descriptors p (nat fd))\<rparr> else p)"

section \<open>The C code\<close>

record daemon_answers =
  first_fork :: int
  second_fork :: int
  open_limit :: "rlimit option"
  null_opens :: bool
  root_entered :: bool

text \<open>The process has exited, or returned from the function with this result.\<close>

datatype daemon_end = Exited int | Returned int process

text \<open>The loop over all descriptors; its index is a signed integer.\<close>

definition close_descriptors :: "nat \<Rightarrow> process \<Rightarrow> fault + process" where
  "close_descriptors limit p = (if 2 ^ 31 \<le> limit then Inl SignedOverflow else Inr (fold close_fd [0..<limit] p))"

definition null_path :: string where "null_path = ''/dev/null''"

definition daemonize :: "string \<Rightarrow> daemon_answers \<Rightarrow> process \<Rightarrow> fault + daemon_end" where
  "daemonize ident a p =
     (let p0 = p\<lparr>file_mask := 0\<rparr>
      in if first_fork a < 0 then Inr (Returned (-1) p0)
         else if 0 < first_fork a then Inr (Exited 0)
         else let p1 = (sys_setsid (forked_child p0))\<lparr>hangup_ignored := True\<rparr>
              in if second_fork a < 0 then Inr (Returned (-1) p1)
                 else if 0 < second_fork a then Inr (Exited 0)
                 else let p2 = forked_child p1
                      in case open_limit a of
                           None \<Rightarrow> Inr (Exited (-1))
                         | Some l \<Rightarrow>
                             andthen (close_descriptors (rlim_cur l) p2) (\<lambda>p3.
                             let (file_fd, p4) = open_path (null_opens a) (rlim_cur l) null_path p3;
                                 p5 = sys_dup2 (rlim_cur l) file_fd 2 (sys_dup2 (rlim_cur l) file_fd 1 p4);
                                 p6 = (if root_entered a then p5\<lparr>working_directory := ''/''\<rparr> else p5)
                             in Inr (Returned 0 (p6\<lparr>syslog_ident := Some ident\<rparr>))))"

text \<open>
  A worker closes what it has inherited from the master, except the standard descriptors and its socket. The index is an
  unsigned word: it never reaches a limit of \<open>2 ^ 32\<close>.
\<close>

definition worker_close_inherited :: "nat \<Rightarrow> int \<Rightarrow> process \<Rightarrow> fault + process" where
  "worker_close_inherited limit unix_fd p =
     (if 2 ^ 32 \<le> limit then Inl Diverges
      else Inr (fold (\<lambda>n p. if 2 < n \<and> int n \<noteq> unix_fd then close_fd n p else p) [0..<limit] p))"

section \<open>Descriptors\<close>

lemma fold_close:
  "fold (\<lambda>n p. if P n then close_fd n p else p) ns p =
   p\<lparr>descriptors := (\<lambda>n. if n \<in> set ns \<and> P n then None else descriptors p n)\<rparr>"
  by (induction ns arbitrary: p) (auto simp: close_fd_def fun_eq_iff)

lemma close_descriptors_all:
  "limit < 2 ^ 31 \<Longrightarrow> close_descriptors limit p = Inr (p\<lparr>descriptors := (\<lambda>n. if n < limit then None else descriptors p n)\<rparr>)"
  using fold_close [of "\<lambda>_. True" "[0..<limit]" p] by (simp add: close_descriptors_def)

text \<open>A worker has the standard descriptors and its socket, and nothing else of what the master had open below the limit.\<close>

lemma worker_descriptors:
  "limit < 2 ^ 32 \<Longrightarrow> worker_close_inherited limit unix_fd p =
   Inr (p\<lparr>descriptors := (\<lambda>n. if n < limit \<and> 2 < n \<and> int n \<noteq> unix_fd then None else descriptors p n)\<rparr>)"
  unfolding worker_close_inherited_def fold_close by simp

lemma open_first: "descriptors p 0 = None \<Longrightarrow> 0 < limit \<Longrightarrow>
   open_path True limit path p = (0, p\<lparr>descriptors := (descriptors p)(0 \<mapsto> path)\<rparr>)"
  by (simp add: open_path_def upt_rec)

text \<open>The state a daemon is in: nothing but \<open>/dev/null\<close> is open, and no terminal can reach it.\<close>

definition detached :: "process \<Rightarrow> bool" where
  "detached p \<longleftrightarrow> descriptors p = [0 \<mapsto> null_path, 1 \<mapsto> null_path, 2 \<mapsto> null_path] \<and>
     file_mask p = 0 \<and> \<not> session_leader p \<and> \<not> has_terminal p \<and> hangup_ignored p"

lemma daemonize_detaches:
  assumes "first_fork a = 0" and "second_fork a = 0" and "open_limit a = Some l" and "3 \<le> rlim_cur l" and "rlim_cur l < 2 ^ 31"
    and "\<forall>n. descriptors p n \<noteq> None \<longrightarrow> n < rlim_cur l" and "null_opens a"
  shows "\<exists>p1. daemonize name a p = Inr (Returned 0 p1) \<and> detached p1 \<and> syslog_ident p1 = Some name \<and>
    working_directory p1 = (if root_entered a then ''/'' else working_directory p)"
proof -
  let ?p2 = "forked_child ((sys_setsid (forked_child (p\<lparr>file_mask := 0\<rparr>)))\<lparr>hangup_ignored := True\<rparr>)"
  have none: "(\<lambda>n. if n < rlim_cur l then None else descriptors p n) = (\<lambda>n. None)" using assms(6) by force
  have "descriptors ?p2 = descriptors p" by (simp add: forked_child_def sys_setsid_def)
  then have "close_descriptors (rlim_cur l) ?p2 = Inr (?p2\<lparr>descriptors := \<lambda>n. None\<rparr>)"
    unfolding close_descriptors_all [OF assms(5)] by (simp only: none)
  then show ?thesis
    using assms(1-4,7) open_first [of "?p2\<lparr>descriptors := \<lambda>n. None\<rparr>" "rlim_cur l" null_path]
    by (simp add: daemonize_def Let_def sys_dup2_def detached_def forked_child_def sys_setsid_def)
qed

section \<open>Properties\<close>

text \<open>
  C20: At most one process comes back from \<open>daemonize\<close> as a daemon. A parent exits with status 0; where both calls of
  \<open>fork\<close> answer as in the child, the process returns 0, ignores hangups, has no terminal and cannot get one, and of all that was
  open only \<open>/dev/null\<close> is left, as its three standard descriptors. Where a call of \<open>fork\<close> fails the function returns -1 with
  every descriptor open as before.
\<close>

theorem daemon_is_detached:
  assumes "open_limit a = Some l" and "3 \<le> rlim_cur l" and "rlim_cur l < 2 ^ 31"
    and "\<forall>n. descriptors p n \<noteq> None \<longrightarrow> n < rlim_cur l" and "null_opens a"
  shows "\<exists>r. daemonize name a p = Inr r \<and>
    (case r of
       Exited status \<Rightarrow> status = 0 \<and> (0 < first_fork a \<or> first_fork a = 0 \<and> 0 < second_fork a)
     | Returned code p1 \<Rightarrow>
         if first_fork a = 0 \<and> second_fork a = 0
         then code = 0 \<and> detached p1 \<and> syslog_ident p1 = Some name \<and>
           working_directory p1 = (if root_entered a then ''/'' else working_directory p)
         else code = -1 \<and> descriptors p1 = descriptors p \<and> working_directory p1 = working_directory p)"
proof (cases "first_fork a = 0 \<and> second_fork a = 0")
  case True
  with daemonize_detaches [OF _ _ assms, of name] show ?thesis by auto
next
  case False
  then show ?thesis by (auto simp: daemonize_def Let_def forked_child_def sys_setsid_def)
qed

theorem daemon_is_detached_witness:
  "\<exists>p1. daemonize ''minihttpd'' \<lparr>first_fork = 0, second_fork = 0, open_limit = Some \<lparr>rlim_cur = 4096, rlim_max = 4096\<rparr>,
       null_opens = True, root_entered = True\<rparr>
     \<lparr>file_mask = 18, session_leader = True, has_terminal = True, hangup_ignored = False,
      descriptors = [0 \<mapsto> ''tty'', 1 \<mapsto> ''tty'', 2 \<mapsto> ''tty'', 7 \<mapsto> ''secret''], working_directory = ''/root'', syslog_ident = None\<rparr> =
     Inr (Returned 0 p1) \<and> detached p1 \<and> working_directory p1 = ''/''"
proof -
  define a where "a = \<lparr>first_fork = 0, second_fork = 0, open_limit = Some \<lparr>rlim_cur = 4096, rlim_max = 4096\<rparr>,
      null_opens = True, root_entered = True\<rparr>"
  define p where "p = \<lparr>file_mask = 18, session_leader = True, has_terminal = True, hangup_ignored = False,
      descriptors = [0 \<mapsto> ''tty'', 1 \<mapsto> ''tty'', 2 \<mapsto> ''tty'', 7 \<mapsto> ''secret''], working_directory = ''/root'', syslog_ident = None\<rparr>"
  have "\<forall>n. descriptors p n \<noteq> None \<longrightarrow> n < rlim_cur \<lparr>rlim_cur = 4096, rlim_max = 4096\<rparr>" by (simp add: p_def)
  moreover have "first_fork a = 0" "second_fork a = 0" "open_limit a = Some \<lparr>rlim_cur = 4096, rlim_max = 4096\<rparr>" "null_opens a" "root_entered a"
    by (simp_all add: a_def)
  ultimately have "\<exists>p1. daemonize ''minihttpd'' a p = Inr (Returned 0 p1) \<and> detached p1 \<and> working_directory p1 = ''/''"
    using daemon_is_detached [of a "\<lparr>rlim_cur = 4096, rlim_max = 4096\<rparr>" p "''minihttpd''"] by (auto split: daemon_end.split_asm) (metis daemon_end.exhaust)
  then show ?thesis by (simp only: a_def p_def)
qed

end
