(* ===== verification/Start.thy ===== *)
theory Start
  imports Sound Sockets Daemonize
begin

text \<open>
  The start of the program as a whole (\<open>main\<close> in \<open>src/main.cpp\<close> up to the loops): the steps of \<open>Server\<close>,
  \<open>Daemonize\<close> and \<open>Sockets\<close> in the order in which \<open>main\<close> takes them, each with its early exit. The lemmas follow the
  configuration through the steps: the answers of the system decide whether the program ends with a status, and what it has
  closed then, goes on as a master that is ready to deal out clients, or goes on as a worker whose configuration is fit for serving.
\<close>

section \<open>The C code\<close>

text \<open>What the calls made on the way answer, and what \<open>getopt\<close> finds.\<close>

record start_answers =
  heap_memory :: "nat \<Rightarrow> server_child"
  start_time :: int
  given_options :: "opt_chr list"
  mime_files :: "string \<Rightarrow> string option"
  user_id :: u32
  user_group :: u32
  file_limit :: "rlimit option"
  limit_set :: "rlimit \<Rightarrow> bool"
  forks :: daemon_answers
  log_opens :: "string \<Rightarrow> int"
  socket_answer :: int
  bind_answer :: int
  worker_answers :: "nat \<Rightarrow> (int \<times> int) option \<times> int"

text \<open>
  The program has ended with a status, or goes on as the master or as the worker of an index, with the state of the
  server, the process, and what was done with descriptors.
\<close>

datatype start_end =
    Start_ended exit_status "master_event list"
  | Is_master server process "master_event list"
  | Is_worker nat server process "master_event list"

definition or_exit :: "fault + (exit_status + 'a) \<Rightarrow> ('a \<Rightarrow> fault + start_end) \<Rightarrow> fault + start_end" where
  "or_exit m f = andthen m (\<lambda>r. case r of Inl e \<Rightarrow> Inr (Start_ended e []) | Inr x \<Rightarrow> f x)"

text \<open>What \<open>daemonize\<close> returns is not looked at.\<close>

definition become_daemon :: "daemon_answers \<Rightarrow> server \<Rightarrow> process \<Rightarrow> fault + (exit_status + process)" where
  "become_daemon answers srv p =
     (if dont_daemonize srv then Inr (Inr p)
      else andthen (cstr (ptr (service_name (config srv)))) (\<lambda>name.
           andthen (daemonize name answers p) (\<lambda>r.
           Inr (case r of Exited status \<Rightarrow> Inl (status, []) | Returned code p1 \<Rightarrow> Inr p1))))"

definition start_listening :: "start_answers \<Rightarrow> server \<Rightarrow> process \<Rightarrow> fault + start_end" where
  "start_listening a srv p =
     (let (fd, closed) = create_tcp_socket (socket_answer a) (bind_answer a);
          srv1 = srv\<lparr>listening_socket_fd := fd\<rparr>
      in if fd < 0 then Inr (Start_ended (-1, []) (map Close_fd closed))
         else andthen (spawn_workers (worker_answers a) srv1) (\<lambda>r.
              Inr (case r of
                     Spawned srv2 es \<Rightarrow> Is_master srv2 p es
                   | Spawn_failed e es \<Rightarrow> Start_ended e es
                   | In_worker i srv2 es \<Rightarrow> Is_worker i srv2 p es)))"

definition main_start :: "start_answers \<Rightarrow> process \<Rightarrow> fault + start_end" where
  "main_start a p =
     andthen (server_init (heap_memory a) (start_time a)) (\<lambda>srv.
     or_exit (parse_options (given_options a) srv) (\<lambda>srv1.
     or_exit (check_config (mime_files a) srv1) (\<lambda>srv2.
     or_exit (Inr (set_limits (user_id a) (user_group a) (file_limit a) (limit_set a) srv2)) (\<lambda>(srv3, l).
     or_exit (become_daemon (forks a) srv3 p) (\<lambda>p1.
     or_exit (open_log (log_opens a) srv3) (\<lambda>srv4.
     start_listening a srv4 p1))))))"

section \<open>The configuration the program starts with\<close>

abbreviation default_root :: string where "default_root \<equiv> ''/var/opt/minihttpd/minihttpd''"
abbreviation default_mime_path :: string where "default_mime_path \<equiv> ''/var/opt/minihttpd/mime_type.conf''"

definition start_config :: "server_config \<Rightarrow> bool" where
  "start_config c \<longleftrightarrow> text_buffer (service_name c) ''minihttpd'' \<and> text_buffer (version_info c) ''v0.1'' \<and>
     text_buffer (service_root_dir c) default_root \<and> text_buffer (mimetype_filepath c) default_mime_path \<and>
     text_buffer (log_filename c) default_log_filepath \<and> (\<exists>s. buffer_holds (minihttpd_global_config_filepath c) s) \<and>
     support_http_1_1 c = 1 \<and> max_http_head_size c = 2 ^ 16 - 1 \<and> server_config.max_fd c = 4096"

definition start_server :: "server \<Rightarrow> bool" where
  "start_server srv \<longleftrightarrow> start_config (config srv) \<and> worker_number srv = 4 \<and> length (child srv) = 4"

lemma copy_text:
  "NUL \<notin> set s \<Longrightarrow> length s < buffer_max \<Longrightarrow> returns (buffer_copy_string buffer_init (lit s)) (\<lambda>b. text_buffer b s)"
  using buffer_copy_string_holds [OF buffer_init_holds points_to_lit, of s] by (auto simp: returns_iff text_buffer_def)

lemma server_init_start: "returns (server_init memory now) (\<lambda>srv. start_server srv \<and> \<not> dont_daemonize srv)"
proof -
  have nul: "NUL \<notin> set ''minihttpd''" "NUL \<notin> set default_root" "NUL \<notin> set default_mime_path"
     "NUL \<notin> set ''/var/opt/minihttpd/minihttpd.log''" "NUL \<notin> set ''/var/opt/minihttpd/minihttpd.conf''" "NUL \<notin> set ''v0.1''"
    by simp_all
  note ok = nul [THEN copy_text]
  have "returns (set_config_default server_config_init) (\<lambda>c. start_config c \<and> max_worker_number c = 4)"
    using ok by (auto simp: set_config_default_def server_config_init_def start_config_def text_buffer_def returns_iff default_log_filepath_def)
  then show ?thesis by (auto simp: server_init_def start_server_def returns_iff)
qed

section \<open>The steps\<close>

text \<open>What the command line can give the program.\<close>

definition option_ok :: "opt_chr \<Rightarrow> bool" where
  "option_ok opt \<longleftrightarrow> (\<forall>s. opt = Opt_f s \<longrightarrow> NUL \<notin> set s \<and> length s < buffer_max)"

lemma print_help_text: "print_help = Inr help_text"
proof -
  have "NUL \<notin> set help_text" by (simp add: help_text_def)
  moreover have "length help_text < buffer_max" by (simp add: help_text_def)
  ultimately show ?thesis
    using copy_text [of help_text] text_buffer_cstr_plain by (auto simp: print_help_def returns_iff)
qed

text \<open>The first option that ends the program decides how it ends.\<close>

definition option_exit :: "opt_chr \<Rightarrow> exit_status option" where
  "option_exit opt =
     (case opt of Opt_h \<Rightarrow> Some (0, help_text) | Opt_v \<Rightarrow> Some (0, ''minihttpd-v0.1'') | Opt_unknown \<Rightarrow> Some (-1, help_text) | _ \<Rightarrow> None)"

definition option_exits :: "opt_chr list \<Rightarrow> exit_status list" where
  "option_exits opts = List.map_filter option_exit opts"

lemma option_exits_simps [simp]: "option_exits [] = []"
  "option_exits (opt # opts) = (case option_exit opt of None \<Rightarrow> option_exits opts | Some e \<Rightarrow> e # option_exits opts)"
  by (simp_all add: option_exits_def map_filter_simps split: option.split)

lemma parse_options_start:
  assumes "start_server srv" and "\<forall>opt \<in> set opts. option_ok opt"
  shows "case option_exits opts of
      e # es \<Rightarrow> parse_options opts srv = Inr (Inl e)
    | [] \<Rightarrow> returns (parse_options opts srv) (\<lambda>r. \<exists>srv1. r = Inr srv1 \<and> start_server srv1 \<and>
        (dont_daemonize srv1 \<longleftrightarrow> dont_daemonize srv \<or> Opt_D \<in> set opts))"
  using assms
proof (induction opts arbitrary: srv)
  case (Cons opt opts)
  have c: "start_config (config srv)" using Cons.prems(1) by (simp add: start_server_def)
  show ?case
  proof (cases opt)
    case (Opt_f path)
    have path: "NUL \<notin> set path" "length path < buffer_max" using Cons.prems(2) Opt_f by (simp_all add: option_ok_def)
    obtain old where "buffer_holds (minihttpd_global_config_filepath (config srv)) old" using c by (auto simp: start_config_def)
    from buffer_copy_string_holds [OF this points_to_lit [OF path(1)] path(2)] obtain b where
      b: "buffer_copy_string (minihttpd_global_config_filepath (config srv)) (lit path) = Inr b" "buffer_holds b path"
      by (auto simp: returns_iff)
    let ?srv = "srv\<lparr>config := (config srv)\<lparr>minihttpd_global_config_filepath := b\<rparr>\<rparr>"
    have "start_server ?srv" using Cons.prems(1) b(2) by (auto simp: start_server_def start_config_def)
    from Cons.IH [OF this] Cons.prems(2) b(1) Opt_f show ?thesis by (simp add: option_exit_def split: list.split_asm list.split)
  next
    case Opt_h
    then show ?thesis by (simp add: option_exit_def print_help_text)
  next
    case Opt_v
    have "cstr (ptr (service_name (config srv))) = Inr ''minihttpd''" "cstr (ptr (version_info (config srv))) = Inr ''v0.1''"
      using c text_buffer_cstr_plain by (auto simp: start_config_def)
    with Opt_v show ?thesis by (simp add: option_exit_def)
  next
    case Opt_D
    have "start_server (srv\<lparr>dont_daemonize := True\<rparr>)" using Cons.prems(1) by (simp add: start_server_def)
    from Cons.IH [OF this] Cons.prems(2) Opt_D show ?thesis by (simp add: option_exit_def split: list.split_asm list.split)
  next
    case Opt_unknown
    then show ?thesis by (simp add: option_exit_def print_help_text)
  qed
qed simp

text \<open>The mime table of a server that goes on.\<close>

definition tabled :: "server \<Rightarrow> bool" where
  "tabled srv \<longleftrightarrow> start_server srv \<and> (\<exists>t. table (config srv) = Some t \<and> mime_table_wf t \<and> short_types t)"

lemma start_config_nonempty:
  assumes "start_config c"
  shows "\<not> buffer_is_empty (service_root_dir c)" "\<not> buffer_is_empty (mimetype_filepath c)" "\<not> buffer_is_empty (log_filename c)"
  using assms by (auto simp: start_config_def text_buffer_def buffer_is_empty_def word_greater_zero_iff)

lemma check_config_start:
  assumes "start_server srv" and "\<And>content. fopen default_mime_path = Some content \<Longrightarrow> length content < 2 ^ 31"
  shows "returns (check_config fopen srv) (\<lambda>r. case r of Inl e \<Rightarrow> e = (-1, []) \<and> fopen default_mime_path = None
    | Inr srv1 \<Rightarrow> tabled srv1 \<and> dont_daemonize srv1 = dont_daemonize srv \<and> fopen default_mime_path \<noteq> None)"
proof -
  have c: "start_config (config srv)" using assms(1) by (simp add: start_server_def)
  have path: "cstr (ptr (mimetype_filepath (config srv))) = Inr default_mime_path"
    using c text_buffer_cstr_plain by (auto simp: start_config_def)
  have "mime_table_wf t \<and> short_types t" if "mime_table_initialize fopen default_mime_path = Some t" for t
    using mime_table_initialize_wf [OF that assms(2)] by blast
  moreover have "mime_table_initialize fopen default_mime_path = None \<longleftrightarrow> fopen default_mime_path = None"
    by (simp add: mime_table_initialize_def split: option.splits)
  ultimately show ?thesis
    using start_config_nonempty [OF c] path assms(1)
    by (auto simp: check_config_def tabled_def start_server_def start_config_def split: option.split)
qed

lemma set_limits_start:
  assumes "tabled srv" and "set_limits user user_gid getrlimit setrlimit srv = Inr (srv1, l)"
  shows "tabled srv1 \<and> dont_daemonize srv1 = dont_daemonize srv"
  using assms by (auto simp: set_limits_def Let_def tabled_def start_server_def split: option.splits if_splits)

lemma set_limits_answer:
  assumes "tabled srv"
  shows "case set_limits user user_gid getrlimit setrlimit srv of
      Inl e \<Rightarrow> e = (-1, []) \<and> (\<forall>l. getrlimit = Some l \<longrightarrow> \<not> setrlimit (new_limit user 4096 l))
    | Inr _ \<Rightarrow> \<exists>l. getrlimit = Some l \<and> setrlimit (new_limit user 4096 l)"
  using assms by (auto simp: set_limits_def Let_def tabled_def start_server_def start_config_def split: option.splits)

text \<open>A parent on the way to becoming a daemon.\<close>

definition daemon_parent :: "daemon_answers \<Rightarrow> bool" where
  "daemon_parent a \<longleftrightarrow> 0 < first_fork a \<or> first_fork a = 0 \<and> 0 < second_fork a"

text \<open>The process that is to become the daemon cannot read its limit.\<close>

definition daemon_limitless :: "daemon_answers \<Rightarrow> bool" where
  "daemon_limitless a \<longleftrightarrow> first_fork a = 0 \<and> second_fork a = 0 \<and> open_limit a = None"

definition small_limit :: "daemon_answers \<Rightarrow> bool" where
  "small_limit a \<longleftrightarrow> (\<forall>l. open_limit a = Some l \<longrightarrow> rlim_cur l < 2 ^ 31)"

lemma daemonize_ends:
  assumes "small_limit a"
  shows "returns (daemonize name a p) (\<lambda>r. case r of
      Exited status \<Rightarrow> if daemon_parent a then status = 0 else status = -1 \<and> daemon_limitless a
    | Returned code p1 \<Rightarrow> \<not> daemon_parent a \<and> \<not> daemon_limitless a)"
  using assms
  by (auto simp: daemonize_def Let_def daemon_parent_def daemon_limitless_def small_limit_def close_descriptors_all
      split: option.split prod.split)

lemma become_daemon_start:
  assumes "tabled srv" and "small_limit a"
  shows "returns (become_daemon a srv p) (\<lambda>r. case r of
      Inl e \<Rightarrow> \<not> dont_daemonize srv \<and> (if daemon_parent a then e = (0, []) else e = (-1, []) \<and> daemon_limitless a)
    | Inr p1 \<Rightarrow> dont_daemonize srv \<or> \<not> daemon_parent a \<and> \<not> daemon_limitless a)"
proof -
  have "cstr (ptr (service_name (config srv))) = Inr ''minihttpd''"
    using assms(1) text_buffer_cstr_plain by (auto simp: tabled_def start_server_def start_config_def)
  with daemonize_ends [OF assms(2), of "''minihttpd''" p] show ?thesis
    by (auto simp: become_daemon_def returns_iff split: daemon_end.split)
qed

lemma open_log_start:
  assumes "tabled srv"
  shows "returns (open_log open_file srv) (\<lambda>r. case r of Inl e \<Rightarrow> e = (-1, []) \<and> open_file default_log_filepath < 0
    | Inr srv1 \<Rightarrow> tabled srv1 \<and> log_mode srv1 = LOG_MODE_FILE \<and> log_fd srv1 = open_file default_log_filepath \<and> 0 \<le> log_fd srv1)"
proof -
  have c: "start_config (config srv)" using assms by (simp add: tabled_def start_server_def)
  have "NUL \<notin> set default_log_filepath" by (simp add: default_log_filepath_def)
  then have path: "cstr (ptr (log_filename (config srv))) = Inr default_log_filepath"
    using c text_buffer_cstr_plain by (auto simp: start_config_def)
  show ?thesis
    using start_config_nonempty(3) [OF c] path assms by (auto simp: open_log_def Let_def tabled_def start_server_def)
qed

section \<open>The workers\<close>

text \<open>A worker that runs is entered with its process number and the pair of sockets that was made for it.\<close>

definition entered :: "(nat \<Rightarrow> (int \<times> int) option \<times> int) \<Rightarrow> server \<Rightarrow> nat \<Rightarrow> bool" where
  "entered answers srv i \<longleftrightarrow> (\<exists>p n. answers i = (Some p, n) \<and> 0 < n \<and> child srv ! i = started (p, n))"

definition same_base :: "server \<Rightarrow> server \<Rightarrow> bool" where
  "same_base srv srv1 \<longleftrightarrow> srv1 = srv\<lparr>child := child srv1\<rparr> \<and> length (child srv1) = length (child srv)"

lemma same_base_trans: "same_base a b \<Longrightarrow> same_base b c \<Longrightarrow> same_base a c"
  unfolding same_base_def by (cases a; cases b; cases c; simp)

lemma same_base_update [simp]: "same_base srv (srv\<lparr>child := (child srv)[i := c]\<rparr>)"
  by (simp add: same_base_def)

abbreviation child_end :: "server \<Rightarrow> nat \<Rightarrow> int" where
  "child_end srv i \<equiv> snd (unix_domain_socket_fd (child srv ! i))"

text \<open>What the answers make of worker \<open>i\<close>: the master goes on, or it cannot; and the workers' ends the master closes.\<close>

definition forked :: "(nat \<Rightarrow> (int \<times> int) option \<times> int) \<Rightarrow> nat \<Rightarrow> bool" where
  "forked answers i \<longleftrightarrow> fst (answers i) \<noteq> None \<and> 0 < snd (answers i)"

definition not_forked :: "(nat \<Rightarrow> (int \<times> int) option \<times> int) \<Rightarrow> nat \<Rightarrow> bool" where
  "not_forked answers i \<longleftrightarrow> fst (answers i) = None \<or> snd (answers i) < 0"

definition ends_closed :: "(nat \<Rightarrow> (int \<times> int) option \<times> int) \<Rightarrow> nat \<Rightarrow> nat \<Rightarrow> master_event list" where
  "ends_closed answers i j = map (\<lambda>k. Close_fd (snd (the (fst (answers k))))) [i..<j]"

lemma ends_closed_simps [simp]: "ends_closed answers i i = []"
  by (simp add: ends_closed_def)

lemma ends_closed_step: "i < j \<Longrightarrow> ends_closed answers i j = Close_fd (snd (the (fst (answers i)))) # ends_closed answers (Suc i) j"
  by (simp add: ends_closed_def upt_rec)

lemma entered_forked: "entered answers srv i \<Longrightarrow> forked answers i"
  by (auto simp: entered_def forked_def)

definition spawned_as :: "(nat \<Rightarrow> (int \<times> int) option \<times> int) \<Rightarrow> nat \<Rightarrow> server \<Rightarrow> master_event list \<Rightarrow> spawn_end \<Rightarrow> bool" where
  "spawned_as answers i srv es r \<longleftrightarrow> (case r of
     Spawned srv1 es1 \<Rightarrow> same_base srv srv1 \<and> (\<forall>j < length (child srv). entered answers srv1 j) \<and>
       es1 = es @ ends_closed answers i (length (child srv))
   | Spawn_failed e es1 \<Rightarrow> e = (-1, []) \<and> (\<exists>j < length (child srv). i \<le> j \<and> (\<forall>k < j. forked answers k) \<and> not_forked answers j \<and>
       es1 = es @ ends_closed answers i j @ [Close_fd (listening_socket_fd srv)])
   | In_worker k srv1 es1 \<Rightarrow> i \<le> k \<and> k < length (child srv) \<and> same_base srv srv1 \<and> (\<forall>j < k. entered answers srv1 j) \<and>
       answers k = (Some (unix_domain_socket_fd (child srv1 ! k)), 0) \<and> es1 = es @ ends_closed answers i k)"

lemma spawn_loop_outcome:
  assumes "i \<le> length (child srv)" and "\<forall>j < i. entered answers srv j"
  shows "\<exists>r. spawn_loop answers [i..<length (child srv)] srv es = Inr r \<and> spawned_as answers i srv es r"
  using assms
proof (induction "length (child srv) - i" arbitrary: i srv es)
  case 0
  then show ?case by (simp add: spawned_as_def same_base_def)
next
  case (Suc d)
  have i: "i < length (child srv)" using Suc.hyps(2) by simp
  then have upt: "[i..<length (child srv)] = i # [Suc i..<length (child srv)]" by (simp add: upt_rec)
  obtain pair n where a: "answers i = (pair, n)" by fastforce
  have before: "\<forall>k < i. forked answers k" using Suc.prems(2) entered_forked by blast
  show ?case
  proof (cases pair)
    case None
    then have "not_forked answers i" using a by (simp add: not_forked_def)
    with before upt i a None show ?thesis by (auto simp: spawned_as_def intro!: exI [of _ i])
  next
    case (Some p)
    let ?c = "(child srv ! i)\<lparr>unix_domain_socket_fd := p, sent_connection_number := 0, pid := n\<rparr>"
    consider "n < 0" | "n = 0" | "0 < n" by linarith
    then show ?thesis
    proof cases
      case 1
      with a have "not_forked answers i" by (simp add: not_forked_def)
      with before upt i a Some 1 show ?thesis by (auto simp: spawned_as_def Let_def intro!: exI [of _ i])
    next
      case 2
      have "entered answers (srv\<lparr>child := (child srv)[i := ?c]\<rparr>) j" if "j < i" for j
        using that Suc.prems(2) by (simp add: entered_def)
      then show ?thesis using upt i a Some 2 by (simp add: spawned_as_def Let_def)
    next
      case 3
      let ?srv = "srv\<lparr>child := (child srv)[i := ?c\<lparr>worker_running := True\<rparr>]\<rparr>"
      have new: "child ?srv ! i = started (p, n)" using i by (simp add: started_def)
      have "entered answers ?srv j" if "j < Suc i" for j
        using that Suc.prems(2) new a Some 3 by (cases "j = i") (auto simp: entered_def)
      moreover have "d = length (child ?srv) - Suc i" "Suc i \<le> length (child ?srv)" using Suc.hyps(2) i by simp_all
      ultimately obtain r where r: "spawn_loop answers [Suc i..<length (child ?srv)] ?srv (es @ [Close_fd (snd p)]) = Inr r"
          "spawned_as answers (Suc i) ?srv (es @ [Close_fd (snd p)]) r"
        using Suc.hyps(1) [of ?srv "Suc i" "es @ [Close_fd (snd p)]"] by blast
      have eq: "spawn_loop answers [i..<length (child srv)] srv es = Inr r"
        using r(1) upt i a Some 3 by (simp add: Let_def)
      have base: "same_base srv srv1" if "same_base ?srv srv1" for srv1
        by (rule same_base_trans [OF same_base_update that])
      have ends: "ends_closed answers i j = Close_fd (snd p) # ends_closed answers (Suc i) j" if "Suc i \<le> j" for j
        using ends_closed_step [of i j answers] that a Some by simp
      have "spawned_as answers i srv es r"
      proof (cases r)
        case (Spawned srv1 es1)
        with r(2) base ends i show ?thesis by (simp add: spawned_as_def)
      next
        case (Spawn_failed e es1)
        with r(2) obtain j where "j < length (child srv)" "Suc i \<le> j" "\<forall>k < j. forked answers k" "not_forked answers j" "e = (-1, [])"
            "es1 = es @ [Close_fd (snd p)] @ ends_closed answers (Suc i) j @ [Close_fd (listening_socket_fd srv)]"
          by (auto simp: spawned_as_def)
        with ends show ?thesis using Spawn_failed by (auto simp: spawned_as_def intro!: exI [of _ j])
      next
        case (In_worker k srv1 es1)
        with r(2) base ends show ?thesis by (simp add: spawned_as_def)
      qed
      with eq show ?thesis by blast
    qed
  qed
qed

lemma spawn_workers_outcome:
  assumes "server_wf srv"
  shows "\<exists>r. spawn_workers answers srv = Inr r \<and> spawned_as answers 0 srv [] r"
  using spawn_loop_outcome [of 0 srv answers "[]"] assms by (simp add: spawn_workers_def server_wf_def)

section \<open>From the start to the service\<close>

text \<open>What is asked of a host, whatever the configuration: the part of \<open>site_env\<close> that is about files and system calls.\<close>

definition host_ok :: "(string \<Rightarrow> string) \<Rightarrow> os_env \<Rightarrow> bool" where
  "host_ok contents os \<longleftrightarrow> answers_strings (os_files os) \<and> (\<forall>ts. length (os_strftime (os_files os) ts) < 128) \<and>
     (\<forall>p st. os_stat (os_files os) p = Inr st \<longrightarrow> 0 \<le> st_size st \<and> st_size st < 2 ^ 32) \<and>
     files_ok contents (os_files os) \<and> writes_fit os \<and> maps_files contents os \<and> kernel_reads os"

text \<open>The configuration makes any such host a site on which workers do not fault.\<close>

definition fit_to_serve :: "server_config \<Rightarrow> bool" where
  "fit_to_serve c \<longleftrightarrow> (\<exists>t. \<forall>contents os. host_ok contents os \<longrightarrow> site_env contents default_root t ''minihttpd'' c os)"

lemma tabled_fit:
  assumes "tabled srv"
  shows "fit_to_serve (config srv)"
proof -
  obtain t where c: "start_config (config srv)" "table (config srv) = Some t" "mime_table_wf t" "short_types t"
    using assms by (auto simp: tabled_def start_server_def)
  have "config_ok (config srv) default_root t" "server_name_is (config srv) ''minihttpd''"
    using c by (simp_all add: config_ok_def server_name_is_def start_config_def short_types_def)
  moreover have "support_http_1_1 (config srv) \<noteq> 0" "unat (max_http_head_size (config srv)) < 2 ^ 20"
    using c(1) by (simp_all add: start_config_def)
  ultimately show ?thesis by (auto simp: fit_to_serve_def site_env_def site_ok_def host_ok_def)
qed

text \<open>
  The steps before the workers in their order, as a function of what the system answers: the status with which one of them
  ends the program, and what it has closed by then. Only a failed \<open>bind\<close> closes something, the socket.
\<close>

definition listen_stops :: "start_answers \<Rightarrow> (int \<times> master_event list) option" where
  "listen_stops a = (if bind_answer a \<noteq> 0 then Some (-1, [Close_fd (socket_answer a)]) else if socket_answer a < 0 then Some (-1, []) else None)"

definition log_stops :: "start_answers \<Rightarrow> (int \<times> master_event list) option" where
  "log_stops a = (if log_opens a default_log_filepath < 0 then Some (-1, []) else listen_stops a)"

definition daemon_stops :: "start_answers \<Rightarrow> (int \<times> master_event list) option" where
  "daemon_stops a =
     (if Opt_D \<notin> set (given_options a) \<and> daemon_parent (forks a) then Some (0, [])
      else if Opt_D \<notin> set (given_options a) \<and> daemon_limitless (forks a) then Some (-1, []) else log_stops a)"

definition start_stops :: "start_answers \<Rightarrow> (int \<times> master_event list) option" where
  "start_stops a =
     (if mime_files a default_mime_path = None then Some (-1, [])
      else case file_limit a of
             None \<Rightarrow> Some (-1, [])
           | Some l \<Rightarrow> if limit_set a (new_limit (user_id a) 4096 l) then daemon_stops a else Some (-1, []))"

text \<open>
  How the program goes on from its start. When a worker cannot be made, the master closes the listening socket before it
  exits; it has then closed the workers' ends of the earlier pairs, and nothing else.
\<close>

definition started_well :: "start_answers \<Rightarrow> start_end \<Rightarrow> bool" where
  "started_well a r \<longleftrightarrow> (case start_stops a of
     Some (status, es) \<Rightarrow> r = Start_ended (status, []) es
   | None \<Rightarrow> (case r of
       Start_ended e es \<Rightarrow> e = (-1, []) \<and> (\<exists>i < 4. (\<forall>j < i. forked (worker_answers a) j) \<and> not_forked (worker_answers a) i \<and>
         es = ends_closed (worker_answers a) 0 i @ [Close_fd (socket_answer a)])
     | Is_master srv p es \<Rightarrow>
         dealt srv 0 \<and> length (child srv) = 4 \<and> (\<forall>i < 4. entered (worker_answers a) srv i) \<and>
         listening_socket_fd srv = socket_answer a \<and> 0 \<le> socket_answer a \<and> log_mode srv = LOG_MODE_FILE \<and>
         log_fd srv = log_opens a default_log_filepath \<and> 0 \<le> log_fd srv \<and> es = ends_closed (worker_answers a) 0 4
     | Is_worker i srv p es \<Rightarrow>
         i < 4 \<and> (\<forall>j < i. forked (worker_answers a) j) \<and> worker_answers a i = (Some (unix_domain_socket_fd (child srv ! i)), 0) \<and>
         fit_to_serve (config srv) \<and> es = ends_closed (worker_answers a) 0 i))"

lemma started_well_stop: "start_stops a = Some (status, es) \<Longrightarrow> started_well a r \<longleftrightarrow> r = Start_ended (status, []) es"
  by (simp add: started_well_def)

lemma same_base_keeps: "same_base srv srv1 \<Longrightarrow> worker_number srv1 = worker_number srv \<and> config srv1 = config srv \<and>
   listening_socket_fd srv1 = listening_socket_fd srv \<and> log_mode srv1 = log_mode srv \<and> log_fd srv1 = log_fd srv \<and>
   length (child srv1) = length (child srv)"
  unfolding same_base_def by (metis server.select_convs(1,2,4,9,10) server.surjective server.update_convs(5))

lemma start_listening_well:
  assumes s: "tabled srv" "log_mode srv = LOG_MODE_FILE" "0 \<le> log_fd srv" "log_fd srv = log_opens a default_log_filepath"
    and socks: "\<forall>i p. fst (worker_answers a i) = Some p \<longrightarrow> 0 \<le> fst p" and stops: "start_stops a = listen_stops a"
  shows "returns (start_listening a srv p) (started_well a)"
proof (cases "bind_answer a \<noteq> 0 \<or> socket_answer a < 0")
  case True
  with stops show ?thesis
    by (auto simp: start_listening_def create_tcp_socket_def started_well_def listen_stops_def)
next
  case False
  then have go: "start_stops a = None" using stops by (simp add: listen_stops_def)
  let ?srv = "srv\<lparr>listening_socket_fd := socket_answer a\<rparr>"
  have n: "worker_number ?srv = 4" "length (child ?srv) = 4" using s(1) by (simp_all add: tabled_def start_server_def)
  then have "server_wf ?srv" by (simp add: server_wf_def)
  from spawn_workers_outcome [OF this, of "worker_answers a"] obtain r where
    r: "spawn_workers (worker_answers a) ?srv = Inr r" "spawned_as (worker_answers a) 0 ?srv [] r" by blast
  have "started_well a (case r of Spawned srv2 es \<Rightarrow> Is_master srv2 p es | Spawn_failed e es \<Rightarrow> Start_ended e es
      | In_worker i srv2 es \<Rightarrow> Is_worker i srv2 p es)"
  proof (cases r)
    case (Spawned srv2 es)
    then have w: "same_base ?srv srv2" "\<forall>j < 4. entered (worker_answers a) srv2 j"
        "es = ends_closed (worker_answers a) 0 4"
      using r(2) n by (simp_all add: spawned_as_def)
    note k = same_base_keeps [OF w(1)]
    have "runs srv2 i \<and> 0 \<le> socket_of srv2 i \<and> sent_to srv2 i = 0" if i4: "i < 4" for i
    proof -
      obtain q n where "worker_answers a i = (Some q, n)" "child srv2 ! i = started (q, n)"
        using w(2) [rule_format, OF i4] by (auto simp: entered_def)
      with socks [rule_format, of i q] show ?thesis by (simp add: started_def socket_of_def)
    qed
    then have "dealt srv2 0" using k n by (auto simp: dealt_def server_wf_def turn_count_def)
    then show ?thesis using Spawned w k n s False go by (simp add: started_well_def)
  next
    case (Spawn_failed e es)
    then show ?thesis using r(2) n go by (auto simp: spawned_as_def started_well_def)
  next
    case (In_worker i srv2 es)
    then have w: "same_base ?srv srv2" "i < 4" "\<forall>j < i. entered (worker_answers a) srv2 j"
        "worker_answers a i = (Some (unix_domain_socket_fd (child srv2 ! i)), 0)" "es = ends_closed (worker_answers a) 0 i"
      using r(2) n by (simp_all add: spawned_as_def)
    then show ?thesis using In_worker tabled_fit [OF s(1)] same_base_keeps [OF w(1)] go by (auto simp: started_well_def intro: entered_forked)
  qed
  with r(1) False show ?thesis by (simp add: start_listening_def create_tcp_socket_def)
qed

lemma returns_or_exit:
  assumes "returns m (\<lambda>r. case r of Inl e \<Rightarrow> P (Start_ended e []) | Inr x \<Rightarrow> returns (f x) P)"
  shows "returns (or_exit m f) P"
proof -
  obtain r where "m = Inr r" "case r of Inl e \<Rightarrow> P (Start_ended e []) | Inr x \<Rightarrow> returns (f x) P" using assms by (auto simp: returns_iff)
  then show ?thesis by (cases r) (simp_all add: or_exit_def)
qed

lemma log_well:
  assumes "tabled srv" and socks: "\<forall>i p. fst (worker_answers a i) = Some p \<longrightarrow> 0 \<le> fst p" and stops: "start_stops a = log_stops a"
  shows "returns (or_exit (open_log (log_opens a) srv) (\<lambda>srv1. start_listening a srv1 p)) (started_well a)"
proof (rule returns_or_exit, rule returns_mono [OF open_log_start [OF assms(1)]])
  fix r :: "exit_status + server"
  assume r: "case r of Inl e \<Rightarrow> e = (-1, []) \<and> log_opens a default_log_filepath < 0
    | Inr srv1 \<Rightarrow> tabled srv1 \<and> log_mode srv1 = LOG_MODE_FILE \<and> log_fd srv1 = log_opens a default_log_filepath \<and> 0 \<le> log_fd srv1"
  show "case r of Inl e \<Rightarrow> started_well a (Start_ended e []) | Inr srv1 \<Rightarrow> returns (start_listening a srv1 p) (started_well a)"
  proof (cases r)
    case (Inl e)
    with r stops show ?thesis by (simp add: log_stops_def started_well_stop)
  next
    case (Inr srv1)
    with r have s: "tabled srv1" "log_mode srv1 = LOG_MODE_FILE" "0 \<le> log_fd srv1"
        "log_fd srv1 = log_opens a default_log_filepath" "\<not> log_opens a default_log_filepath < 0" by auto
    with stops have "start_stops a = listen_stops a" by (simp add: log_stops_def)
    from start_listening_well [OF s(1-4) socks this] Inr show ?thesis by simp
  qed
qed

lemma main_start_well:
  assumes "tabled srv" and daemon: "small_limit (forks a)" "dont_daemonize srv \<longleftrightarrow> Opt_D \<in> set (given_options a)"
    and socks: "\<forall>i p. fst (worker_answers a i) = Some p \<longrightarrow> 0 \<le> fst p" and stops: "start_stops a = daemon_stops a"
  shows "returns (or_exit (become_daemon (forks a) srv p) (\<lambda>p1. or_exit (open_log (log_opens a) srv) (\<lambda>srv1. start_listening a srv1 p1)))
    (started_well a)"
proof (rule returns_or_exit, rule returns_mono [OF become_daemon_start [OF assms(1,2)]])
  fix r :: "exit_status + process"
  assume r: "case r of
      Inl e \<Rightarrow> \<not> dont_daemonize srv \<and> (if daemon_parent (forks a) then e = (0, []) else e = (-1, []) \<and> daemon_limitless (forks a))
    | Inr p1 \<Rightarrow> dont_daemonize srv \<or> \<not> daemon_parent (forks a) \<and> \<not> daemon_limitless (forks a)"
  show "case r of Inl e \<Rightarrow> started_well a (Start_ended e [])
      | Inr p1 \<Rightarrow> returns (or_exit (open_log (log_opens a) srv) (\<lambda>srv1. start_listening a srv1 p1)) (started_well a)"
  proof (cases r)
    case (Inl e)
    with r stops daemon(2) show ?thesis by (auto simp: daemon_stops_def started_well_stop split: if_splits)
  next
    case (Inr p1)
    with r stops daemon(2) have "start_stops a = log_stops a" by (auto simp: daemon_stops_def)
    from log_well [OF assms(1) socks this] Inr show ?thesis by simp
  qed
qed

text \<open>From the configuration on, which has its mime table.\<close>

lemma set_limits_well:
  assumes "tabled srv" and daemon: "small_limit (forks a)" "dont_daemonize srv \<longleftrightarrow> Opt_D \<in> set (given_options a)"
    and socks: "\<forall>i p. fst (worker_answers a i) = Some p \<longrightarrow> 0 \<le> fst p" and mime: "mime_files a default_mime_path \<noteq> None"
  shows "returns (or_exit (Inr (set_limits (user_id a) (user_group a) (file_limit a) (limit_set a) srv)) (\<lambda>(srv1, l).
    or_exit (become_daemon (forks a) srv1 p) (\<lambda>p1. or_exit (open_log (log_opens a) srv1) (\<lambda>srv2. start_listening a srv2 p1))))
    (started_well a)"
proof (cases "set_limits (user_id a) (user_group a) (file_limit a) (limit_set a) srv")
  case (Inl e)
  then have "e = (-1, [])" "start_stops a = Some (-1, [])"
    using set_limits_answer [OF assms(1), where user = "user_id a" and user_gid = "user_group a" and getrlimit = "file_limit a" and
      setrlimit = "limit_set a"] mime
    by (auto simp: start_stops_def split: option.split)
  with Inl show ?thesis by (intro returns_or_exit) (simp add: started_well_stop)
next
  case (Inr q)
  obtain srv1 l where q: "q = (srv1, l)" by (cases q)
  have "start_stops a = daemon_stops a"
    using set_limits_answer [OF assms(1), where user = "user_id a" and user_gid = "user_group a" and getrlimit = "file_limit a" and
      setrlimit = "limit_set a"] mime Inr
    by (auto simp: start_stops_def)
  moreover from set_limits_start [OF assms(1) Inr [unfolded q]] daemon(2) have "tabled srv1" "dont_daemonize srv1 \<longleftrightarrow> Opt_D \<in> set (given_options a)"
    by simp_all
  ultimately show ?thesis using main_start_well [OF _ daemon(1) _ socks] Inr q by (intro returns_or_exit) simp
qed

lemma main_start_outcome:
  assumes "\<forall>opt \<in> set (given_options a). option_ok opt" and "small_limit (forks a)"
    and "\<forall>content. mime_files a default_mime_path = Some content \<longrightarrow> length content < 2 ^ 31"
    and "\<forall>i p. fst (worker_answers a i) = Some p \<longrightarrow> 0 \<le> fst p"
  shows "case option_exits (given_options a) of
      e # es \<Rightarrow> main_start a p = Inr (Start_ended e [])
    | [] \<Rightarrow> returns (main_start a p) (started_well a)"
proof -
  obtain srv where srv: "server_init (heap_memory a) (start_time a) = Inr srv" "start_server srv" "\<not> dont_daemonize srv"
    using server_init_start by (auto simp: returns_iff)
  note opts = parse_options_start [OF srv(2) assms(1)]
  show ?thesis
  proof (cases "option_exits (given_options a)")
    case (Cons e es)
    with opts srv(1) show ?thesis by (simp add: main_start_def or_exit_def)
  next
    case Nil
    with opts srv(3) obtain srv1 where s1: "parse_options (given_options a) srv = Inr (Inr srv1)" "start_server srv1"
        "dont_daemonize srv1 \<longleftrightarrow> Opt_D \<in> set (given_options a)"
      by (auto simp: returns_iff)
    let ?go = "\<lambda>srv2. or_exit (Inr (set_limits (user_id a) (user_group a) (file_limit a) (limit_set a) srv2)) (\<lambda>(srv3, l).
        or_exit (become_daemon (forks a) srv3 p) (\<lambda>p1. or_exit (open_log (log_opens a) srv3) (\<lambda>srv4. start_listening a srv4 p1)))"
    have "returns (or_exit (check_config (mime_files a) srv1) ?go) (started_well a)"
    proof (rule returns_or_exit, rule returns_mono [OF check_config_start [OF s1(2)]])
      show "length content < 2 ^ 31" if "mime_files a default_mime_path = Some content" for content using assms(3) that by blast
      fix r :: "exit_status + server"
      assume r: "case r of Inl e \<Rightarrow> e = (-1, []) \<and> mime_files a default_mime_path = None
        | Inr srv2 \<Rightarrow> tabled srv2 \<and> dont_daemonize srv2 = dont_daemonize srv1 \<and> mime_files a default_mime_path \<noteq> None"
      show "case r of Inl e \<Rightarrow> started_well a (Start_ended e []) | Inr srv2 \<Rightarrow> returns (?go srv2) (started_well a)"
      proof (cases r)
        case (Inl e)
        with r show ?thesis by (simp add: start_stops_def started_well_stop)
      next
        case (Inr srv2)
        with r s1(3) set_limits_well [OF _ assms(2) _ assms(4), of srv2] show ?thesis by simp
      qed
    qed
    then show ?thesis using Nil srv(1) s1(1) by (simp add: main_start_def or_exit_def)
  qed
qed

section \<open>Properties\<close>

text \<open>
  C19: The start, for the command lines and answers of the hypotheses, faults in none of its steps and ends in one of these ways.
  An option that ends the program does so before anything else, with its text and status. The first step before the workers that
  cannot be done ends it with status -1, a failed \<open>bind\<close> after closing the socket, all others without closing anything; the
  process that forks a daemon exits with status 0. When a worker's sockets or process cannot be made, the status is -1, and
  exactly the workers' ends of the earlier pairs and then the listening socket are closed (the log and the master's ends are
  left open). Otherwise the master has four running workers to deal clients to, an open log and a listening socket, and
  has closed the workers' ends; and each worker goes on with a configuration and a mime table that make every host a site on
  which it does not fault. Asked are paths that fit a buffer, a limit below \<open>2 ^ 31\<close>, a mime file below 2 GiB, and pairs
  of sockets whose first descriptor is not negative.
\<close>

theorem main_starts_or_exits:
  assumes "\<forall>opt \<in> set (given_options a). option_ok opt" and "small_limit (forks a)"
    and "\<forall>content. mime_files a default_mime_path = Some content \<longrightarrow> length content < 2 ^ 31"
    and "\<forall>i p. fst (worker_answers a i) = Some p \<longrightarrow> 0 \<le> fst p"
  shows "case option_exits (given_options a) of
      e # es \<Rightarrow> main_start a p = Inr (Start_ended e [])
    | [] \<Rightarrow> returns (main_start a p) (started_well a)"
  by (rule main_start_outcome [OF assms])

text \<open>Answers with which the start succeeds, in the process that becomes worker 2, and a process started from a terminal.\<close>

definition good_answers :: "opt_chr list \<Rightarrow> start_answers" where
  "good_answers opts = \<lparr>heap_memory = (\<lambda>_. started ((9, 9), 9)), start_time = 0, given_options = opts,
     mime_files = (\<lambda>_. Some []), user_id = 0, user_group = 0, file_limit = Some \<lparr>rlim_cur = 1024, rlim_max = 4096\<rparr>,
     limit_set = (\<lambda>_. True),
     forks = \<lparr>first_fork = 0, second_fork = 0, open_limit = Some \<lparr>rlim_cur = 4096, rlim_max = 4096\<rparr>, null_opens = True, root_entered = True\<rparr>,
     log_opens = (\<lambda>_. 3), socket_answer = 4, bind_answer = 0,
     worker_answers = (\<lambda>i. (Some (5 + int i, 6 + int i), if i = 2 then 0 else 101 + int i))\<rparr>"

definition shell_process :: process where
  "shell_process = \<lparr>file_mask = 18, session_leader = False, has_terminal = True, hangup_ignored = False,
     descriptors = [0 \<mapsto> ''tty'', 1 \<mapsto> ''tty'', 2 \<mapsto> ''tty''], working_directory = ''/root'', syslog_ident = None\<rparr>"

theorem main_starts_or_exits_witness:
  "(\<exists>srv p es. main_start (good_answers [Opt_f ''x'', Opt_D]) shell_process = Inr (Is_worker 2 srv p es) \<and>
      unix_domain_socket_fd (child srv ! 2) = (7, 8) \<and> fit_to_serve (config srv) \<and> es = [Close_fd 6, Close_fd 7]) \<and>
    main_start (good_answers [Opt_D, Opt_v, Opt_h]) shell_process = Inr (Start_ended (0, ''minihttpd-v0.1'') []) \<and>
    main_start ((good_answers [Opt_D])\<lparr>bind_answer := -1\<rparr>) shell_process = Inr (Start_ended (-1, []) [Close_fd 4])"
proof (intro conjI)
  let ?a = "good_answers [Opt_f ''x'', Opt_D]"
  have go: "start_stops ?a = None"
    by (simp add: start_stops_def daemon_stops_def log_stops_def listen_stops_def good_answers_def)
  have ended: "\<not> started_well ?a (Start_ended e es)" for e es
    unfolding started_well_def go option.case by (auto simp: not_forked_def good_answers_def split: if_splits)
  have "\<not> entered (worker_answers ?a) srv 2" for srv by (simp add: entered_def good_answers_def)
  then have master: "\<not> started_well ?a (Is_master srv p es)" for srv p es
    unfolding started_well_def go option.case start_end.case by (metis numeral_less_iff semiring_norm(76,78,80))
  have worker: "i = 2 \<and> unix_domain_socket_fd (child srv ! i) = (7, 8) \<and> fit_to_serve (config srv) \<and> es = [Close_fd 6, Close_fd 7]"
    if "started_well ?a (Is_worker i srv p es)" for i srv p es
    using that unfolding started_well_def go option.case by (auto simp: ends_closed_def good_answers_def upt_rec split: if_splits)
  obtain r where r: "main_start ?a shell_process = Inr r" "started_well ?a r"
    using main_starts_or_exits [of ?a shell_process]
    by (auto simp: good_answers_def option_ok_def small_limit_def option_exit_def returns_iff)
  then show "\<exists>srv p es. main_start ?a shell_process = Inr (Is_worker 2 srv p es) \<and>
      unix_domain_socket_fd (child srv ! 2) = (7, 8) \<and> fit_to_serve (config srv) \<and> es = [Close_fd 6, Close_fd 7]"
  proof (cases r)
    case (Is_worker i srv p es)
    with r worker [of i srv p es] show ?thesis by auto
  qed (use r(2) ended master in simp_all)
next
  show "main_start (good_answers [Opt_D, Opt_v, Opt_h]) shell_process = Inr (Start_ended (0, ''minihttpd-v0.1'') [])"
    using main_starts_or_exits [of "good_answers [Opt_D, Opt_v, Opt_h]" shell_process]
    by (simp add: good_answers_def option_ok_def small_limit_def option_exit_def)
next
  let ?a = "(good_answers [Opt_D])\<lparr>bind_answer := -1\<rparr>"
  have "start_stops ?a = Some (-1, [Close_fd 4])"
    by (simp add: start_stops_def daemon_stops_def log_stops_def listen_stops_def good_answers_def)
  then show "main_start ?a shell_process = Inr (Start_ended (-1, []) [Close_fd 4])"
    using main_starts_or_exits [of ?a shell_process]
    by (auto simp: good_answers_def option_ok_def small_limit_def option_exit_def returns_iff started_well_stop)
qed

end
