(* ===== verification/Process.thy ===== *)
theory Process
  imports Start
begin

text \<open>
  The process of a worker as a whole (\<open>src/main.cpp\<close>, 248 to 366): what follows the \<open>fork\<close> in the child, from the
  descriptors it closes to its exit. The lemmas put the start of the program and the soundness of a worker's events
  together: how the life of a worker whose configuration \<open>main\<close> has set up goes on is decided by the answers of its calls; if its limit,
  epoll, its log and its timer can be had, it runs without a fault until it exits, for allowed events.
\<close>

section \<open>The C code\<close>

text \<open>What the calls answer that the environment of the handlers does not: the limit, epoll, the log, the timer, and the rounds of the loop.\<close>

record worker_calls =
  limit_now :: "rlimit option"
  epoll_answer :: "int \<Rightarrow> int"
  worker_log_opens :: "string \<Rightarrow> int"
  timer_descriptor :: int
  loop_rounds :: "(bool \<times> event list) list"

text \<open>The process has exited with a status, or is in its loop.\<close>

datatype worker_end = Worker_exit int process os_env | Worker_runs worker process os_env

text \<open>\<open>snprintf\<close> into an array of 255 bytes.\<close>

definition worker_log_path :: "u32 \<Rightarrow> string" where
  "worker_log_path process_id = take 254 (''/var/opt/minihttpd/minihttpd_worker'' @ nat_digits (unat process_id) @ ''.log'')"

definition worker_main :: "worker_calls \<Rightarrow> nat \<Rightarrow> server \<Rightarrow> process \<Rightarrow> os_env \<Rightarrow> fault + worker_end" where
  "worker_main c i srv p os =
     (let unix_fd = child_end srv i; process_id = of_nat i
      in case limit_now c of
           None \<Rightarrow> Inr (Worker_exit (-1) p os)
         | Some limit \<Rightarrow>
             andthen (worker_close_inherited (rlim_cur limit) unix_fd p) (\<lambda>p1.
             andthen (worker_setup (epoll_answer c) process_id unix_fd (config srv) (rlim_cur limit)) (\<lambda>w.
             andthen (buffer_append_string buffer_init (lit (worker_log_path process_id))) (\<lambda>b.
             andthen (cstr (ptr b)) (\<lambda>path.
             let log_descriptor = worker_log_opens c path
             in if log_descriptor < 0 then Inr (Worker_exit (-2) p1 os)
                else andthen (worker_arm (timer_descriptor c) w os) (\<lambda>(w1, os1).
                     andthen (worker_loop (loop_rounds c) w1 os1) (\<lambda>(over, w2, os2).
                     if over
                     then andthen (worker_stop (timer_descriptor c) (epoll_answer c (int (rlim_cur limit))) log_descriptor w2 os2) (\<lambda>(w3, os3).
                          Inr (Worker_exit 0 p1 os3))
                     else Inr (Worker_runs w2 p1 os2))))))))"

section \<open>The parts of the process\<close>

lemma worker_log_buffer:
  "returns (buffer_append_string buffer_init (lit (worker_log_path n))) (\<lambda>b. cstr (ptr b) = Inr (worker_log_path n))"
proof -
  have nul: "NUL \<notin> set (worker_log_path n)"
    using NUL_nat_digits [of "unat n"] by (auto simp: worker_log_path_def dest!: in_set_takeD)
  have small: "length (worker_log_path n) < 255" by (simp add: worker_log_path_def)
  have ne: "worker_log_path n \<noteq> []" by (simp add: worker_log_path_def)
  have "returns (buffer_append_string buffer_init (lit (worker_log_path n))) (\<lambda>b. buffer_holds b (worker_log_path n))"
    using buffer_append_string_holds [OF buffer_init_holds points_to_lit [OF nul]] small by simp
  then show ?thesis
    by (rule returns_mono) (rule text_buffer_cstr_plain [OF text_buffer_nonempty nul]; simp add: ne)
qed

text \<open>
  What is asked of the answers: the limit fits the loop over the descriptors, and the descriptors lie below it and differ, as the
  kernel gives them. The timer may fail.
\<close>

definition calls_ok :: "worker_calls \<Rightarrow> int \<Rightarrow> bool" where
  "calls_ok c unix_fd \<longleftrightarrow> (\<forall>limit. limit_now c = Some limit \<longrightarrow> rlim_cur limit < 2 ^ 31 \<and>
     0 \<le> unix_fd \<and> unix_fd < int (rlim_cur limit) \<and> timer_descriptor c < int (rlim_cur limit) \<and> timer_descriptor c \<noteq> unix_fd)"

text \<open>Without epoll there is no event table, and without a timer no descriptor to register: both fail an assertion.\<close>

lemma worker_setup_no_epoll: "epoll_create (int limit) < 0 \<Longrightarrow> worker_setup epoll_create n unix_fd cfg limit = Inl AssertFailed"
  by (simp add: worker_setup_def fdevent_initialize_def)

lemma worker_arm_no_timer: "timer_fd < 0 \<Longrightarrow> worker_arm timer_fd w os = Inl AssertFailed"
  by (simp add: worker_arm_def fdevents_register_fd_def case_prod_beta')

lemma worker_setup_ok:
  assumes "0 \<le> epoll_create (int limit)" and "0 \<le> unix_fd" and "unix_fd < int limit"
  shows "returns (worker_setup epoll_create n unix_fd cfg limit)
    (\<lambda>w. ev_wf (conn_ev w) \<and> max_fd (conn_ev w) = int limit \<and> (\<forall>f. f \<noteq> unix_fd \<longrightarrow> node_of (conn_ev w) f = None))"
proof -
  obtain ev0 where e: "fdevent_initialize epoll_create (int limit) = Some (ev0 :: handler_context fdevents)"
    using assms(1) by (simp add: fdevent_initialize_def)
  have ev0: "ev_wf ev0" "max_fd ev0 = int limit" "node_of ev0 = (\<lambda>_. None)" using fdevent_initialize_ok [OF _ e] by simp_all
  obtain ev1 where ev1: "fdevents_register_fd ev0 unix_fd Unix_domain_socket_handle Ctx_worker = Inr ev1" "ev_wf ev1" "max_fd ev1 = int limit"
      "node_of ev1 = [unix_fd \<mapsto> \<lparr>node_fd = unix_fd, handler_ctx = Ctx_worker, handler = Unix_domain_socket_handle, events = 0\<rparr>]"
    using register_ok [OF ev0(1) assms(2)] ev0 assms(3) by (auto simp: returns_iff)
  then obtain m where m: "node_of ev1 unix_fd = Some m" by simp
  obtain ev2 where ev2: "fdevents_set_events ev1 unix_fd EPOLLIN = Inr ev2" "ev_wf ev2" "max_fd ev2 = int limit"
      "node_of ev2 = (node_of ev1)(unix_fd \<mapsto> m\<lparr>events := EPOLLIN\<rparr>)"
    using set_events_ok [OF ev1(2) m, of EPOLLIN] ev1(3) by (auto simp: returns_iff)
  show ?thesis
    using e ev1 ev2 by (simp add: worker_setup_def worker_connection_initialize_def Let_def)
qed

lemma worker_arm_ok:
  assumes "ev_wf (conn_ev w)" and "0 \<le> timer_fd" and "timer_fd < max_fd (conn_ev w)" and "node_of (conn_ev w) timer_fd = None"
  shows "returns (worker_arm timer_fd w os) (\<lambda>_. True)"
proof -
  obtain ev1 where ev1: "fdevents_register_fd (conn_ev w) timer_fd Worker_timer_expire_handler Ctx_worker = Inr ev1" "ev_wf ev1"
      "node_of ev1 = (node_of (conn_ev w))(timer_fd \<mapsto>
         \<lparr>node_fd = timer_fd, handler_ctx = Ctx_worker, handler = Worker_timer_expire_handler, events = 0\<rparr>)"
    using register_ok [OF assms] by (auto simp: returns_iff)
  then obtain m where m: "node_of ev1 timer_fd = Some m" by simp
  from set_events_ok [OF ev1(2) this, of EPOLLIN] obtain ev2 where "fdevents_set_events ev1 timer_fd EPOLLIN = Inr ev2"
    by (auto simp: returns_iff)
  with ev1(1) show ?thesis by (simp add: worker_arm_def Let_def case_prod_beta')
qed

text \<open>The rounds of the loop bring allowed events only, each when it is its turn.\<close>

fun rounds_ok :: "(bool \<times> event list) list \<Rightarrow> worker \<Rightarrow> os_env \<Rightarrow> bool" where
  "rounds_ok [] w os \<longleftrightarrow> True"
| "rounds_ok ((stop, evs) # rounds) w os \<longleftrightarrow>
     (\<not> stop \<or> 0 < cur_connection_number w \<longrightarrow>
        (\<forall>pre e post w1 os1. evs = pre @ e # post \<longrightarrow> worker_batch pre w os = Inr (w1, os1) \<longrightarrow> event_ok w1 os1 e) \<and>
        (\<forall>w1 os1. worker_batch evs w os = Inr (w1, os1) \<longrightarrow> rounds_ok rounds w1 os1))"

lemma worker_loop_sound:
  assumes "sound_worker contents w" and "site_env contents root t name (global_config w) os" and "rounds_ok rounds w os"
  shows "returns (worker_loop rounds w os) (\<lambda>(over, w1, os1). handles contents w os w1 os1)"
  using assms
proof (induction rounds arbitrary: w os)
  case Nil
  then show ?case by (simp add: handles_refl)
next
  case (Cons r rounds)
  obtain stop evs where r: "r = (stop, evs)" by (cases r)
  show ?case
  proof (cases "\<not> stop \<or> 0 < cur_connection_number w")
    case False
    then show ?thesis using r handles_refl [OF Cons.prems(1)] by simp
  next
    case True
    have "(\<forall>pre e post w1 os1. evs = pre @ e # post \<longrightarrow> worker_batch pre w os = Inr (w1, os1) \<longrightarrow> event_ok w1 os1 e) \<and>
        (\<forall>w1 os1. worker_batch evs w os = Inr (w1, os1) \<longrightarrow> rounds_ok rounds w1 os1)"
      using Cons.prems(3) True unfolding r rounds_ok.simps by (rule mp)
    then have ok: "\<And>pre e post w1 os1. evs = pre @ e # post \<Longrightarrow> worker_batch pre w os = Inr (w1, os1) \<Longrightarrow> event_ok w1 os1 e"
        "\<And>w1 os1. worker_batch evs w os = Inr (w1, os1) \<Longrightarrow> rounds_ok rounds w1 os1"
      by blast+
    have "returns (worker_batch evs w os) (\<lambda>(w1, os1). handles contents w os w1 os1)"
      by (rule worker_batch_sound [OF Cons.prems(1,2) ok(1)])
    then obtain w1 os1 where b: "worker_batch evs w os = Inr (w1, os1)" "handles contents w os w1 os1"
      by (auto simp: returns_iff)
    have "returns (worker_loop rounds w1 os1) (\<lambda>(over, w2, os2). handles contents w1 os1 w2 os2)"
      by (rule Cons.IH [OF handles_sound [OF b(2)] handles_site [OF b(2) Cons.prems(2)] ok(2) [OF b(1)]])
    then have "returns (worker_loop rounds w1 os1) (\<lambda>(over, w2, os2). handles contents w os w2 os2)"
      by (rule returns_mono) (use handles_trans [OF b(2)] in auto)
    then show ?thesis using r True b(1) by simp
  qed
qed

text \<open>Of what a worker has inherited only the standard descriptors and its socket are left.\<close>

definition keeps_own :: "nat \<Rightarrow> int \<Rightarrow> process \<Rightarrow> bool" where
  "keeps_own limit unix_fd p \<longleftrightarrow> (\<forall>n. 2 < n \<and> n < limit \<and> int n \<noteq> unix_fd \<longrightarrow> descriptors p n = None)"

text \<open>The life of worker \<open>i\<close> by the answers of its calls, in their order.\<close>

definition worker_life :: "(string \<Rightarrow> string) \<Rightarrow> worker_calls \<Rightarrow> nat \<Rightarrow> server_config \<Rightarrow> int \<Rightarrow> os_env \<Rightarrow> fault + worker_end \<Rightarrow> bool" where
  "worker_life contents c i cfg unix_fd os m \<longleftrightarrow> (case limit_now c of
     None \<Rightarrow> \<exists>p. m = Inr (Worker_exit (-1) p os)
   | Some limit \<Rightarrow>
       let epoll_fd = epoll_answer c (int (rlim_cur limit)); log_descriptor = worker_log_opens c (worker_log_path (of_nat i));
           timer_fd = timer_descriptor c
       in if epoll_fd < 0 then m = Inl AssertFailed
          else if log_descriptor < 0 then \<exists>p. m = Inr (Worker_exit (-2) p os) \<and> keeps_own (rlim_cur limit) unix_fd p
          else if timer_fd < 0 then m = Inl AssertFailed
          else (\<exists>p os1 es. m = Inr (Worker_exit 0 p os1) \<and> keeps_own (rlim_cur limit) unix_fd p \<and>
                  trace os1 = es @ [Closed timer_fd, Closed unix_fd, Closed epoll_fd, Closed log_descriptor]) \<or>
               (\<exists>w p os1. m = Inr (Worker_runs w p os1) \<and> keeps_own (rlim_cur limit) unix_fd p \<and>
                  sound_worker contents w \<and> global_config w = cfg))"

lemma worker_run_outcome:
  assumes start: "worker_start epoll n u cfg l t os = Inr (w0, os0)" and "0 \<le> log"
    and site: "site_env contents root tbl name cfg os" and rounds: "rounds_ok rounds w0 os0"
  shows "returns (worker_loop rounds w0 os0) (\<lambda>(over, w1, os1).
      if over then returns (worker_stop t e log w1 os1) (\<lambda>(w2, os2). \<exists>es. trace os2 = es @ [Closed t, Closed u, Closed e, Closed log])
      else sound_worker contents w1 \<and> global_config w1 = cfg)"
proof -
  have s: "sound_worker contents w0" "global_config w0 = cfg" "same_os os os0" using worker_start_sound [OF start, of contents] by simp_all
  have "site_env contents root tbl name (global_config w0) os0" using site s(2) site_env_same [OF s(3)] by simp
  from worker_loop_sound [OF s(1) this rounds] obtain over w1 os1 where
    l: "worker_loop rounds w0 os0 = Inr (over, w1, os1)" "handles contents w0 os0 w1 os1"
    by (auto simp: returns_iff)
  have sound: "sound_worker contents w1" "global_config w1 = cfg"
    using handles_sound [OF l(2)] l(2) s(2) by (simp_all add: handles_def keeps_def same_worker_def)
  show ?thesis
  proof (cases over)
    case True
    with l(1) have "worker_loop rounds w0 os0 = Inr (True, w1, os1)" by simp
    from worker_stops_clean [OF start this, of e log] obtain w2 os2 where
      "worker_stop t e log w1 os1 = Inr (w2, os2)" "trace os2 = trace os1 @ [Closed t, Closed u, Closed e, Closed log]" by blast
    then show ?thesis using l(1) True by simp
  qed (use l(1) sound in simp)
qed

lemma worker_main_outcome:
  assumes "fit_to_serve (config srv)" and "host_ok contents os" and "calls_ok c (child_end srv i)"
    and rounds: "\<And>limit w0 os0. limit_now c = Some limit \<Longrightarrow>
      worker_start (epoll_answer c) (of_nat i) (child_end srv i) (config srv) (rlim_cur limit) (timer_descriptor c) os = Inr (w0, os0) \<Longrightarrow>
      rounds_ok (loop_rounds c) w0 os0"
  shows "worker_life contents c i (config srv) (child_end srv i) os (worker_main c i srv p os)"
proof (cases "limit_now c")
  case None
  then show ?thesis by (simp add: worker_main_def Let_def worker_life_def)
next
  case (Some limit)
  let ?l = "rlim_cur limit" and ?u = "child_end srv i" and ?t = "timer_descriptor c" and ?log = "worker_log_opens c (worker_log_path (of_nat i))"
  let ?e = "epoll_answer c (int ?l)"
  have ok: "?l < 2 ^ 31" "0 \<le> ?u" "?u < int ?l" "?t < int ?l" "?t \<noteq> ?u"
    using assms(3) Some by (simp_all add: calls_ok_def)
  let ?p = "p\<lparr>descriptors := (\<lambda>n. if n < ?l \<and> 2 < n \<and> int n \<noteq> ?u then None else descriptors p n)\<rparr>"
  have p: "worker_close_inherited ?l ?u p = Inr ?p" using ok(1) by (intro worker_descriptors) simp
  have own: "keeps_own ?l ?u ?p" by (simp add: keeps_own_def)
  show ?thesis
  proof (cases "?e < 0")
    case True
    with Some p worker_setup_no_epoll [of "epoll_answer c"] show ?thesis by (simp add: worker_main_def worker_life_def Let_def)
  next
    case e: False
    obtain w where w: "worker_setup (epoll_answer c) (of_nat i) ?u (config srv) ?l = Inr w" "ev_wf (conn_ev w)" "max_fd (conn_ev w) = int ?l"
        "node_of (conn_ev w) ?t = None"
      using worker_setup_ok [where epoll_create = "epoll_answer c" and limit = ?l and unix_fd = ?u and n = "of_nat i" and cfg = "config srv"] ok e
      by (auto simp: returns_iff)
    obtain b where b: "buffer_append_string buffer_init (lit (worker_log_path (of_nat i))) = Inr b" "cstr (ptr b) = Inr (worker_log_path (of_nat i))"
      using worker_log_buffer by (auto simp: returns_iff)
    have eq: "worker_main c i srv p os = (if ?log < 0 then Inr (Worker_exit (-2) ?p os)
        else andthen (worker_arm ?t w os) (\<lambda>(w1, os1).
             andthen (worker_loop (loop_rounds c) w1 os1) (\<lambda>(over, w2, os2).
             if over then andthen (worker_stop ?t ?e ?log w2 os2) (\<lambda>(w3, os3). Inr (Worker_exit 0 ?p os3))
             else Inr (Worker_runs w2 ?p os2))))"
      using Some p w(1) b by (simp add: worker_main_def Let_def)
    consider (log) "?log < 0" | (timer) "0 \<le> ?log" "?t < 0" | (fine) "0 \<le> ?log" "0 \<le> ?t" by linarith
    then show ?thesis
    proof cases
      case log
      then show ?thesis using Some own e by (auto simp: eq worker_life_def Let_def)
    next
      case timer
      then show ?thesis using Some e worker_arm_no_timer [OF timer(2)] by (simp add: eq worker_life_def Let_def)
    next
      case fine
      obtain w0 os0 where a: "worker_arm ?t w os = Inr (w0, os0)"
        using worker_arm_ok [OF w(2) fine(2) _ w(4), of os] ok(4) w(3) by (auto simp: returns_iff)
      then have start: "worker_start (epoll_answer c) (of_nat i) ?u (config srv) ?l ?t os = Inr (w0, os0)"
        using w(1) by (simp add: worker_start_def)
      obtain tbl where "site_env contents default_root tbl ''minihttpd'' (config srv) os" using assms(1,2) by (auto simp: fit_to_serve_def)
      from worker_run_outcome [OF start fine(1) this rounds [OF Some start], where e = ?e] obtain over w1 os1 where
        l: "worker_loop (loop_rounds c) w0 os0 = Inr (over, w1, os1)"
          "if over then returns (worker_stop ?t ?e ?log w1 os1) (\<lambda>(w2, os2). \<exists>es. trace os2 = es @ [Closed ?t, Closed ?u, Closed ?e, Closed ?log])
           else sound_worker contents w1 \<and> global_config w1 = config srv"
        by (auto simp: returns_iff)
      have run: "worker_main c i srv p os = (if over then andthen (worker_stop ?t ?e ?log w1 os1) (\<lambda>(w3, os3). Inr (Worker_exit 0 ?p os3))
          else Inr (Worker_runs w1 ?p os1))"
        using fine(1) a l(1) by (simp add: eq)
      show ?thesis using l(2) Some e fine own by (cases over) (auto simp: run worker_life_def Let_def returns_iff)
    qed
  qed
qed

section \<open>Properties\<close>

text \<open>
  C4: The life of a worker, from its \<open>fork\<close> on, with a configuration that \<open>main\<close> has set up, on any host as asked for
  (\<open>host_ok\<close>) and with allowed events in the rounds of its loop (\<open>rounds_ok\<close>). It exits with -1 if it cannot read its limit. It
  fails an assertion if \<open>epoll_create\<close> or \<open>timerfd_create\<close>, whose results are not looked at, has failed; and with nothing else.
  It exits with -2 if its log cannot be opened, closing nothing, epoll's descriptor included. Otherwise it does not fault in its start, in any
  number of rounds, or on its way out, and exits with 0 only after its loop, its last acts being to close its
  timer, its socket, epoll and its log; while it runs, its state is sound. From its limit on, it has of what it inherited only the standard
  descriptors and its socket.
\<close>

theorem worker_process_is_sound:
  assumes "fit_to_serve (config srv)" and "host_ok contents os" and "calls_ok c (child_end srv i)"
    and rounds: "\<And>limit w0 os0. limit_now c = Some limit \<Longrightarrow>
      worker_start (epoll_answer c) (of_nat i) (child_end srv i) (config srv) (rlim_cur limit) (timer_descriptor c) os = Inr (w0, os0) \<Longrightarrow>
      rounds_ok (loop_rounds c) w0 os0"
  shows "worker_life contents c i (config srv) (child_end srv i) os (worker_main c i srv p os)"
  using worker_main_outcome [OF assms] .

lemma started_host: "host_ok (\<lambda>_. ''abcdef'') started_os"
  using started_site by (simp add: host_ok_def site_env_def site_ok_def)

lemma fit_server: "\<exists>srv. fit_to_serve (config srv) \<and> child_end srv 0 = 3"
proof -
  obtain srv where s: "start_server srv" using server_init_start [of "\<lambda>_. started ((9, 9), 9)" 0] by (auto simp: returns_iff)
  have "returns (check_config (\<lambda>_. Some []) srv) (\<lambda>r. case r of Inl e \<Rightarrow> e = (-1, []) \<and> (\<lambda>_. Some []) default_mime_path = (None :: string option)
      | Inr srv1 \<Rightarrow> tabled srv1 \<and> dont_daemonize srv1 = dont_daemonize srv \<and> (\<lambda>_. Some []) default_mime_path \<noteq> (None :: string option))"
    by (rule check_config_start [OF s]) simp
  then obtain r :: "exit_status + server" where "case r of Inl e \<Rightarrow> e = (-1, []) \<and> (\<lambda>_. Some []) default_mime_path = (None :: string option)
      | Inr srv1 \<Rightarrow> tabled srv1 \<and> dont_daemonize srv1 = dont_daemonize srv \<and> (\<lambda>_. Some []) default_mime_path \<noteq> (None :: string option)"
    unfolding returns_iff by blast
  then obtain srv1 where "tabled srv1" by (cases r) auto
  from tabled_fit [OF this] show ?thesis
    by (intro exI [of _ "srv1\<lparr>child := [started ((4, 3), 101)]\<rparr>"]) (simp add: started_def)
qed

theorem worker_process_is_sound_witness:
  "\<exists>srv r. worker_main \<lparr>limit_now = Some \<lparr>rlim_cur = 16, rlim_max = 16\<rparr>, epoll_answer = (\<lambda>_. 5), worker_log_opens = (\<lambda>_. 6),
      timer_descriptor = 4, loop_rounds = [(True, [])]\<rparr> 0 srv shell_process started_os = Inr r \<and>
    (case r of
       Worker_exit status p1 os1 \<Rightarrow> status = 0 \<and> (\<exists>es. trace os1 = es @ [Closed 4, Closed 3, Closed 5, Closed 6])
     | Worker_runs w p1 os1 \<Rightarrow> sound_worker (\<lambda>_. ''abcdef'') w)"
proof -
  obtain srv where srv: "fit_to_serve (config srv)" "child_end srv 0 = 3" using fit_server by blast
  define c where "c = \<lparr>limit_now = Some \<lparr>rlim_cur = 16, rlim_max = 16\<rparr>, epoll_answer = (\<lambda>_. 5), worker_log_opens = (\<lambda>_. 6),
      timer_descriptor = 4, loop_rounds = [(True, [])]\<rparr>"
  have calls: "calls_ok c (child_end srv 0)" by (simp add: calls_ok_def c_def srv(2))
  have rounds: "rounds_ok (loop_rounds c) w0 os0"
    if "limit_now c = Some limit"
      "worker_start (epoll_answer c) (of_nat 0) (child_end srv 0) (config srv) (rlim_cur limit) (timer_descriptor c) started_os = Inr (w0, os0)"
    for limit w0 os0
    using worker_start_wf [OF that(2)] by (simp add: c_def)
  have "worker_life (\<lambda>_. ''abcdef'') c 0 (config srv) 3 started_os (worker_main c 0 srv shell_process started_os)"
    using worker_process_is_sound [OF srv(1) started_host calls rounds] srv(2) by simp
  then have "\<exists>r. worker_main c 0 srv shell_process started_os = Inr r \<and> (case r of
       Worker_exit status p1 os1 \<Rightarrow> status = 0 \<and> (\<exists>es. trace os1 = es @ [Closed 4, Closed 3, Closed 5, Closed 6])
     | Worker_runs w p1 os1 \<Rightarrow> sound_worker (\<lambda>_. ''abcdef'') w)"
    by (auto simp: worker_life_def c_def)
  then show ?thesis unfolding c_def by blast
qed

end
