(* ===== verification/Program.thy ===== *)
theory Program
  imports Process
begin

text \<open>
  The program as a whole (\<open>main\<close> in \<open>src/main.cpp\<close>): its start (\<open>Start\<close>), and then the loop and the end of the master
  (\<open>Server\<close>) or, in a process that was forked for it, the life of a worker (\<open>Process\<close>). The lemmas put together what is
  shown of the parts: the answers of the system decide how a run ends, in the start, in the master or in a worker, and the only
  fault, for allowed events, is that of a worker without epoll or timer.
\<close>

section \<open>The C code\<close>

text \<open>The program has ended with a status, waits in the master's loop, or has gone on as worker \<open>i\<close>.\<close>

datatype program_end =
    Program_exit exit_status "master_event list"
  | Master_waits server signal_flags "master_event list"
  | Worker_process nat worker_end

definition master_main :: "master_round list \<Rightarrow> server \<Rightarrow> master_event list \<Rightarrow> fault + program_end" where
  "master_main rounds srv es =
     andthen (master_loop rounds srv no_signals es) (\<lambda>(over, srv1, f, es1).
     Inr (if over then Program_exit (0, []) (es1 @ master_stop srv1) else Master_waits srv1 f es1))"

definition main_program ::
  "start_answers \<Rightarrow> master_round list \<Rightarrow> (nat \<Rightarrow> worker_calls) \<Rightarrow> process \<Rightarrow> os_env \<Rightarrow> fault + program_end" where
  "main_program a rounds calls p os =
     andthen (main_start a p) (\<lambda>r.
     case r of
       Start_ended e es \<Rightarrow> Inr (Program_exit e es)
     | Is_master srv p1 es \<Rightarrow> master_main rounds srv es
     | Is_worker i srv p1 es \<Rightarrow> andthen (worker_main (calls i) i srv p1 os) (\<lambda>e. Inr (Worker_process i e)))"

section \<open>The master's loop keeps what the start has set up\<close>

lemma hand_over_base: "ensures (hand_over fd send srv) (\<lambda>r. same_base srv (fst r))"
  by (auto simp: hand_over_def Let_def same_base_def intro!: ensures_any)

lemma fold_reap_base: "same_base srv (fold reap pids srv)"
proof (induction pids arbitrary: srv)
  case Nil
  then show ?case by (simp add: same_base_def)
next
  case (Cons n pids)
  have "same_base srv (reap n srv)" by (simp add: reap_def same_base_def)
  from same_base_trans [OF this Cons.IH] show ?case by simp
qed

lemma reap_children_base: "reap_children r (srv, f) = (srv1, f1) \<Longrightarrow> same_base srv srv1"
  using fold_reap_base by (auto simp: reap_children_def same_base_def split: if_splits)

lemma master_loop_base: "ensures (master_loop rs srv f es) (\<lambda>r. same_base srv (fst (snd r)))"
proof (induction rs arbitrary: srv f es)
  case Nil
  then show ?case by (simp add: same_base_def)
next
  case (Cons r rs)
  let ?f = "foldl signal_handler f (signals r)"
  obtain srv1 f2 where s: "reap_children r (srv, ?f) = (srv1, f2)" by fastforce
  note one = reap_children_base [OF s]
  have rest: "ensures (master_loop rs srv2 f2 es2) (\<lambda>r. same_base srv (fst (snd r)))" if "same_base srv srv2" for srv2 es2
    by (rule ensures_mono [OF Cons.IH]) (use same_base_trans [OF that] in auto)
  show ?case
  proof (cases "server_shutdown ?f")
    case True
    then show ?thesis by (simp add: Let_def same_base_def)
  next
    case False
    have "ensures (hand_over fd (sent_message r) srv1) (\<lambda>r. same_base srv (fst r))" for fd
      by (rule ensures_mono [OF hand_over_base]) (use same_base_trans [OF one] in auto)
    then have "ensures (andthen (hand_over fd (sent_message r) srv1) (\<lambda>(srv2, es2). master_loop rs srv2 f2 (es @ es2)))
        (\<lambda>r. same_base srv (fst (snd r)))" for fd
      unfolding ensures_simps by (rule ensures_mono) (use rest in auto)
    with False s rest [OF one] show ?thesis by (simp add: Let_def split: option.split)
  qed
qed

section \<open>The ways in which the program ends\<close>

text \<open>What the master has done with descriptors when it ends: the workers' ends, each client, the log, the listening socket.\<close>

definition stopped :: "start_answers \<Rightarrow> master_round list \<Rightarrow> fault + program_end \<Rightarrow> bool" where
  "stopped a rounds m \<longleftrightarrow> (\<exists>pieces. list_all2 client_done (clients (served [] rounds)) pieces \<and>
     m = Inr (Program_exit (0, []) (ends_closed (worker_answers a) 0 4 @ concat pieces @
       [Signal_group SIGTERM, Close_fd (log_opens a default_log_filepath), Close_fd (socket_answer a)])))"

definition still_serves :: "start_answers \<Rightarrow> master_round list \<Rightarrow> fault + program_end \<Rightarrow> bool" where
  "still_serves a rounds m \<longleftrightarrow> (\<exists>pieces srv f. list_all2 client_done (clients rounds) pieces \<and> server_wf srv \<and>
     m = Inr (Master_waits srv f (ends_closed (worker_answers a) 0 4 @ concat pieces)))"

text \<open>
  How a run ends, decided by the answers of the system in their order: a step of the start ends it; or all four workers are forked and
  the master serves until it is told to stop; or the first worker that is not forked from the master's point of view cannot be
  made, which ends the program, or is this process, which lives as \<open>Process\<close> says.
\<close>

definition ran_well ::
  "(string \<Rightarrow> string) \<Rightarrow> start_answers \<Rightarrow> master_round list \<Rightarrow> (nat \<Rightarrow> worker_calls) \<Rightarrow> os_env \<Rightarrow> fault + program_end \<Rightarrow> bool" where
  "ran_well contents a rounds calls os m \<longleftrightarrow> (case start_stops a of
     Some (status, es) \<Rightarrow> m = Inr (Program_exit (status, []) es)
   | None \<Rightarrow>
       if \<forall>i < 4. forked (worker_answers a) i
       then (if length (served [] rounds) < length rounds then stopped a rounds m else still_serves a rounds m)
       else \<exists>i < 4. (\<forall>j < i. forked (worker_answers a) j) \<and>
         (if not_forked (worker_answers a) i
          then m = Inr (Program_exit (-1, []) (ends_closed (worker_answers a) 0 i @ [Close_fd (socket_answer a)]))
          else snd (worker_answers a i) = 0 \<and>
            (\<exists>cfg life. fit_to_serve cfg \<and> worker_life contents (calls i) i cfg (snd (the (fst (worker_answers a i)))) os life \<and>
               m = andthen life (\<lambda>e. Inr (Worker_process i e)))))"

lemma served_all: "length (served seen rs) = length rs \<Longrightarrow> served seen rs = rs"
  by (induction seen rs rule: served.induct) (auto split: if_splits)

lemma master_main_ends:
  assumes started: "started_well a (Is_master srv p es)" and go: "start_stops a = None"
  shows "ran_well contents a rounds calls os (master_main rounds srv es)"
proof -
  have s: "dealt srv 0" "\<forall>i < 4. entered (worker_answers a) srv i" "listening_socket_fd srv = socket_answer a"
      "log_mode srv = LOG_MODE_FILE" "log_fd srv = log_opens a default_log_filepath" "0 \<le> log_fd srv" "es = ends_closed (worker_answers a) 0 4"
    using started by (simp_all add: started_well_def go)
  have all: "\<forall>i < 4. forked (worker_answers a) i" using s(2) entered_forked by blast
  obtain srv1 f1 pieces where l: "master_loop rounds srv no_signals es = Inr (length (served [] rounds) < length rounds, srv1, f1, es @ concat pieces)"
      "server_wf srv1" "list_all2 client_done (clients (served [] rounds)) pieces"
    using master_loop_serves [OF _ noted_none, of srv rounds es] s(1) by (auto simp: dealt_def)
  have "same_base srv srv1" using ensuresD [OF master_loop_base l(1)] by simp
  from same_base_keeps [OF this] have stop: "master_stop srv1 = [Signal_group SIGTERM, Close_fd (log_fd srv), Close_fd (socket_answer a)]"
    using s(3,4,6) by (simp add: master_stop_def)
  have ran: "ran_well contents a rounds calls os m \<longleftrightarrow>
      (if length (served [] rounds) < length rounds then stopped a rounds m else still_serves a rounds m)" for m
    unfolding ran_well_def go option.case if_P [OF all] ..
  show ?thesis
  proof (cases "length (served [] rounds) < length rounds")
    case True
    then have "master_main rounds srv es = Inr (Program_exit (0, []) ((es @ concat pieces) @ master_stop srv1))"
      using l(1) by (simp add: master_main_def)
    with True l(3) show ?thesis unfolding ran stopped_def stop s(5,7) by auto
  next
    case False
    then have "length (served [] rounds) = length rounds" using length_served [of "[]" rounds] by simp
    then have served: "served [] rounds = rounds" by (rule served_all)
    from False have "master_main rounds srv es = Inr (Master_waits srv1 f1 (es @ concat pieces))"
      using l(1) by (simp add: master_main_def)
    with False l(2,3) served show ?thesis unfolding ran still_serves_def s(7) by auto
  qed
qed

text \<open>What a worker asks for: its descriptors fit, and its rounds bring allowed events only.\<close>

definition worker_allowed :: "worker_calls \<Rightarrow> nat \<Rightarrow> server \<Rightarrow> os_env \<Rightarrow> bool" where
  "worker_allowed c i srv os \<longleftrightarrow> calls_ok c (child_end srv i) \<and>
     (\<forall>limit w0 os0. limit_now c = Some limit \<longrightarrow>
        worker_start (epoll_answer c) (of_nat i) (child_end srv i) (config srv) (rlim_cur limit) (timer_descriptor c) os = Inr (w0, os0) \<longrightarrow>
        rounds_ok (loop_rounds c) w0 os0)"

lemma worker_main_ends:
  assumes started: "started_well a (Is_worker i srv p es)" and go: "start_stops a = None"
    and "host_ok contents os" and "worker_allowed (calls i) i srv os"
  shows "ran_well contents a rounds calls os (andthen (worker_main (calls i) i srv p os) (\<lambda>e. Inr (Worker_process i e)))"
proof -
  have w: "i < 4" "\<forall>j < i. forked (worker_answers a) j" "worker_answers a i = (Some (unix_domain_socket_fd (child srv ! i)), 0)"
      "fit_to_serve (config srv)"
    using started by (simp_all add: started_well_def go)
  have calls: "calls_ok (calls i) (child_end srv i)"
      "\<And>limit w0 os0. limit_now (calls i) = Some limit \<Longrightarrow>
        worker_start (epoll_answer (calls i)) (of_nat i) (child_end srv i) (config srv) (rlim_cur limit) (timer_descriptor (calls i)) os = Inr (w0, os0) \<Longrightarrow>
        rounds_ok (loop_rounds (calls i)) w0 os0"
    using assms(4) by (simp_all add: worker_allowed_def)
  have life: "worker_life contents (calls i) i (config srv) (child_end srv i) os (worker_main (calls i) i srv p os)"
    by (rule worker_main_outcome [OF w(4) assms(3) calls])
  have self: "\<not> forked (worker_answers a) i" "\<not> not_forked (worker_answers a) i" using w(3) by (simp_all add: forked_def not_forked_def)
  then have some: "\<not> (\<forall>i < 4. forked (worker_answers a) i)" using w(1) by blast
  show ?thesis
    unfolding ran_well_def go option.case if_not_P [OF some]
    by (intro exI [of _ i] conjI w(1,2)) (use life self(2) w(3,4) in auto)
qed

lemma start_ends:
  assumes "started_well a (Start_ended e es)"
  shows "ran_well contents a rounds calls os (Inr (Program_exit e es))"
proof (cases "start_stops a")
  case None
  then obtain i where i: "e = (-1, [])" "i < 4" "\<forall>j < i. forked (worker_answers a) j" "not_forked (worker_answers a) i"
      "es = ends_closed (worker_answers a) 0 i @ [Close_fd (socket_answer a)]"
    using assms by (auto simp: started_well_def)
  then have "\<not> forked (worker_answers a) i" by (auto simp: forked_def not_forked_def)
  with i(2) have "\<not> (\<forall>i < 4. forked (worker_answers a) i)" by blast
  then show ?thesis unfolding ran_well_def None option.case if_not_P [OF \<open>\<not> (\<forall>i < 4. _)\<close>] using i by auto
next
  case (Some x)
  with assms show ?thesis by (cases x) (simp add: started_well_def ran_well_def)
qed

section \<open>Properties\<close>

text \<open>
  C3: A whole run of the program, for all answers of the system to the start and the master, all signals and all clients of the
  master, and, in a worker, for the hosts and events of the hypotheses. An option that says so ends it at once. Otherwise the answers decide:
  the first step of the start that cannot be done ends it, as the property on the start says; with all workers forked the
  master ends with status 0 exactly when it has been told to stop, having closed its ends of the workers' sockets and every
  client it accepted once, and then tells its process group to stop and closes its log and its listening socket, and before that it
  waits for clients; a process that was forked for a worker lives as the property on workers says, and can fail an assertion only when
  epoll or the timer could not be made. (The master does not wait for its workers before it ends, as the comment before the
  loop that forks them says it does.) The hypotheses: paths that fit a buffer, a limit below \<open>2 ^ 31\<close>, a mime file below 2 GiB,
  descriptors as the kernel gives them; for workers the sizes of files and reads of \<open>host_ok\<close>, and events as in the property that workers
  do not fault, so without those inputs for which other properties exhibit faults.
\<close>

theorem program_runs_to_its_end:
  assumes "\<forall>opt \<in> set (given_options a). option_ok opt" and "small_limit (forks a)"
    and "\<forall>content. mime_files a default_mime_path = Some content \<longrightarrow> length content < 2 ^ 31"
    and "\<forall>i p. fst (worker_answers a i) = Some p \<longrightarrow> 0 \<le> fst p"
    and "host_ok contents os"
    and "\<forall>i srv p1 es. main_start a p = Inr (Is_worker i srv p1 es) \<longrightarrow> worker_allowed (calls i) i srv os"
  shows "case option_exits (given_options a) of
      e # es \<Rightarrow> main_program a rounds calls p os = Inr (Program_exit e [])
    | [] \<Rightarrow> ran_well contents a rounds calls os (main_program a rounds calls p os)"
proof (cases "option_exits (given_options a)")
  case (Cons e es)
  with main_start_outcome [OF assms(1-4), of p] show ?thesis by (simp add: main_program_def)
next
  case Nil
  with main_start_outcome [OF assms(1-4), of p] obtain r where r: "main_start a p = Inr r" "started_well a r"
    by (auto simp: returns_iff)
  have "ran_well contents a rounds calls os (main_program a rounds calls p os)"
  proof (cases r)
    case (Start_ended e es)
    with r start_ends show ?thesis by (simp add: main_program_def)
  next
    case (Is_master srv p1 es)
    with r have "start_stops a = None" by (cases "start_stops a") (auto simp: started_well_def)
    from master_main_ends [OF r(2) [unfolded Is_master] this] r(1) Is_master show ?thesis by (simp add: main_program_def)
  next
    case (Is_worker i srv p1 es)
    with r have "start_stops a = None" by (cases "start_stops a") (auto simp: started_well_def)
    moreover from Is_worker r assms(6) have "worker_allowed (calls i) i srv os" by blast
    ultimately show ?thesis
      using worker_main_ends [where rounds = rounds and calls = calls, OF r(2) [unfolded Is_worker] _ assms(5)] Is_worker r(1)
      by (simp add: main_program_def)
  qed
  with Nil show ?thesis by simp
qed

text \<open>Answers with which all four workers are forked, seen from the master; and calls of a worker, which it does not need.\<close>

definition master_answers :: start_answers where
  "master_answers = (good_answers [Opt_D])\<lparr>worker_answers := (\<lambda>i. (Some (5 + 2 * int i, 6 + 2 * int i), 101 + int i))\<rparr>"

definition quiet_calls :: worker_calls where
  "quiet_calls = \<lparr>limit_now = None, epoll_answer = (\<lambda>_. 5), worker_log_opens = (\<lambda>_. 6), timer_descriptor = 4, loop_rounds = []\<rparr>"

theorem program_runs_to_its_end_witness:
  "\<exists>pieces. main_program master_answers stop_rounds (\<lambda>i. quiet_calls) shell_process started_os =
     Inr (Program_exit (0, []) (map Close_fd [6, 8, 10, 12] @ concat pieces @ [Signal_group SIGTERM, Close_fd 3, Close_fd 4])) \<and>
     list_all2 client_done [8, 9] pieces"
proof -
  let ?a = master_answers
  have rounds: "length (served [] stop_rounds) < length stop_rounds" "clients (served [] stop_rounds) = [8, 9]"
    by (simp_all add: stop_rounds_def client_round_def told_to_stop_def)
  have go: "start_stops ?a = None" "\<forall>i < 4. forked (worker_answers ?a) i"
    by (simp_all add: start_stops_def daemon_stops_def log_stops_def listen_stops_def forked_def master_answers_def good_answers_def)
  have made: "ends_closed (worker_answers ?a) 0 4 = map Close_fd [6, 8, 10, 12]" "log_opens ?a default_log_filepath = 3" "socket_answer ?a = 4"
    by (simp_all add: ends_closed_def master_answers_def good_answers_def upt_rec)
  have asks: "\<forall>opt \<in> set (given_options ?a). option_ok opt" "small_limit (forks ?a)"
      "\<forall>content. mime_files ?a default_mime_path = Some content \<longrightarrow> length content < 2 ^ 31"
      "\<forall>i p. fst (worker_answers ?a i) = Some p \<longrightarrow> 0 \<le> fst p" "option_exits (given_options ?a) = []"
    by (auto simp: master_answers_def good_answers_def option_ok_def small_limit_def option_exit_def)
  have "\<forall>i srv p1 es. main_start ?a shell_process = Inr (Is_worker i srv p1 es) \<longrightarrow> worker_allowed quiet_calls i srv started_os"
    by (simp add: worker_allowed_def quiet_calls_def calls_ok_def)
  from program_runs_to_its_end [OF asks(1-4) started_host this, of stop_rounds] asks(5)
  have "ran_well (\<lambda>_. ''abcdef'') ?a stop_rounds (\<lambda>i. quiet_calls) started_os
      (main_program ?a stop_rounds (\<lambda>i. quiet_calls) shell_process started_os)" by simp
  then have "stopped ?a stop_rounds (main_program ?a stop_rounds (\<lambda>i. quiet_calls) shell_process started_os)"
    unfolding ran_well_def go(1) option.case if_P [OF go(2)] if_P [OF rounds(1)] .
  then show ?thesis unfolding stopped_def made rounds(2) by blast
qed

end
