(* ===== verification/System.thy ===== *)
theory System
  imports Start
begin

text \<open>
  The master and its workers together. There is no code here: the descriptors the master hands over (\<open>Server\<close>) are
  delivered to the workers' event loops (\<open>Worker\<close>) in the order in which they were sent, one message for each, as a stream
  socket does; the kernel gives each a number of its own in the worker. The lemmas follow a client from the
  master's \<open>accept\<close> to the connection that waits for its request.
\<close>

section \<open>The unix sockets\<close>

text \<open>What was sent over the socket of a worker.\<close>

fun sent_over :: "int \<Rightarrow> master_event list \<Rightarrow> int list" where
  "sent_over s [] = []"
| "sent_over s (Hand_over socket_fd fd # es) = (if socket_fd = s then fd # sent_over s es else sent_over s es)"
| "sent_over s (Close_fd fd # es) = sent_over s es"
| "sent_over s (Signal_group signo # es) = sent_over s es"
| "sent_over s (Close_syslog # es) = sent_over s es"

text \<open>A worker gets an event of its socket for each message that waits there, with the descriptor at the front.\<close>

fun deliver :: "connection \<Rightarrow> int list \<Rightarrow> worker \<Rightarrow> os_env \<Rightarrow> fault + (worker \<times> os_env)" where
  "deliver memory [] w os = Inr (w, os)"
| "deliver memory (f # fs) w os =
     andthen (worker_event memory (unix_domain_socekt_fd w) EPOLLIN w (os\<lparr>os_recvfd := (\<lambda>_. Inr (Some f))\<rparr>)) (\<lambda>(w1, os1).
     deliver memory fs w1 os1)"

text \<open>Every worker in turn; \<open>number i j\<close> is the descriptor the \<open>j\<close>-th client of worker \<open>i\<close> has there.\<close>

fun deliver_all ::
  "connection \<Rightarrow> server \<Rightarrow> master_event list \<Rightarrow> (nat \<Rightarrow> nat \<Rightarrow> int) \<Rightarrow> nat \<Rightarrow> (worker \<times> os_env) list \<Rightarrow> fault + (worker \<times> os_env) list" where
  "deliver_all memory srv es number i [] = Inr []"
| "deliver_all memory srv es number i ((w, os) # ws) =
     andthen (deliver memory (map (number i) [0..<length (sent_over (socket_of srv i) es)]) w os) (\<lambda>s.
     andthen (deliver_all memory srv es number (Suc i) ws) (\<lambda>ss. Inr (s # ss)))"

section \<open>A worker and its clients\<close>

definition waits_on :: "worker \<Rightarrow> int \<Rightarrow> bool" where
  "waits_on w f \<longleftrightarrow> (\<exists>a c. conn_heap w a = Some c \<and> conn_socket_fd c = f \<and> state c = CON_STATE_READ \<and> connection_wf c)"

lemma deliver_installs:
  assumes "worker_wf w" and "own_handler w (unix_domain_socekt_fd w) Unix_domain_socket_handle" and "distinct fs"
    and "\<forall>f \<in> set fs. 0 \<le> f \<and> f < max_fd (conn_ev w) \<and> binding (conn_ev w) f = None"
    and "unat (cur_connection_number w) + length fs \<le> unat (conn_max_size w)"
  shows "returns (deliver memory fs w os) (\<lambda>(w1, os1). worker_wf w1 \<and>
    unat (cur_connection_number w1) = unat (cur_connection_number w) + length fs \<and>
    (\<forall>f. waits_on w f \<or> f \<in> set fs \<longrightarrow> waits_on w1 f))"
  using assms
proof (induction fs arbitrary: w os)
  case (Cons f fs)
  let ?os = "os\<lparr>os_recvfd := (\<lambda>_. Inr (Some f))\<rparr>" and ?u = "unix_domain_socekt_fd w"
  have u: "binding (conn_ev w) ?u = Some (Unix_domain_socket_handle, Ctx_worker)" using Cons.prems(2) by (simp add: own_handler_def)
  have room: "cur_connection_number w < conn_max_size w" using Cons.prems(5) by (simp add: word_less_nat_alt)
  have f: "0 \<le> f" "f < max_fd (conn_ev w)" "binding (conn_ev w) f = None" using Cons.prems(4) by simp_all
  from accept_new_bound [OF Cons.prems(1) room f, of memory "sys_tick ?os"] obtain w1 os1 conn where
    acc: "worker_accept memory f w (sys_tick ?os) = Inr (0, w1, os1)" and wf: "worker_wf w1"
    and n: "unat (cur_connection_number w1) = Suc (unat (cur_connection_number w))"
    and heap: "conn_heap w1 = (conn_heap w)(conn_brk w \<mapsto> conn)" "state conn = CON_STATE_READ" "conn_socket_fd conn = f" "connection_wf conn"
    and ev: "binding (conn_ev w1) = (binding (conn_ev w))(f \<mapsto> (Connection_event_handle, Ctx_connection (conn_brk w)))"
      "max_fd (conn_ev w1) = max_fd (conn_ev w)" by blast
  have k: "same_worker w w1" using ensuresD [OF worker_accept_keeps [OF Cons.prems(1)] acc] by (simp add: keeps_def)
  have fresh: "conn_heap w (conn_brk w) = None"
    using heap_okD(1) [OF worker_wfD(3) [OF Cons.prems(1)]] by (cases "conn_heap w (conn_brk w)") auto
  have waits: "waits_on w1 g" if "waits_on w g \<or> g = f" for g
    using that heap fresh unfolding waits_on_def by (metis fun_upd_apply option.distinct(1))
  have "returns (deliver memory fs w1 os1) (\<lambda>(w2, os2). worker_wf w2 \<and>
      unat (cur_connection_number w2) = unat (cur_connection_number w1) + length fs \<and>
      (\<forall>g. waits_on w1 g \<or> g \<in> set fs \<longrightarrow> waits_on w2 g))"
    using Cons.prems k n ev by (intro Cons.IH [OF wf]) (auto simp: same_worker_def fun_eq_iff)
  then have "returns (deliver memory fs w1 os1) (\<lambda>(w2, os2). worker_wf w2 \<and>
      unat (cur_connection_number w2) = unat (cur_connection_number w) + length (f # fs) \<and>
      (\<forall>g. waits_on w g \<or> g \<in> set (f # fs) \<longrightarrow> waits_on w2 g))"
    by (rule returns_mono) (use n waits in auto)
  moreover have "deliver memory (f # fs) w os = deliver memory fs w1 os1"
    using unix_event_accepts [OF Cons.prems(1) u, of ?os f memory] acc by simp
  ultimately show ?case by simp
qed simp

text \<open>A worker without clients that has room and descriptors for \<open>n\<close> of them; and one that waits for requests of \<open>n\<close> clients.\<close>

definition has_room :: "worker \<Rightarrow> (nat \<Rightarrow> int) \<Rightarrow> nat \<Rightarrow> bool" where
  "has_room w number n \<longleftrightarrow> worker_wf w \<and> cur_connection_number w = 0 \<and> n \<le> unat (conn_max_size w) \<and>
     own_handler w (unix_domain_socekt_fd w) Unix_domain_socket_handle \<and> inj_on number {..<n} \<and>
     (\<forall>j < n. 0 \<le> number j \<and> number j < max_fd (conn_ev w) \<and> binding (conn_ev w) (number j) = None)"

definition serves_all :: "worker \<Rightarrow> (nat \<Rightarrow> int) \<Rightarrow> nat \<Rightarrow> bool" where
  "serves_all w number n \<longleftrightarrow> worker_wf w \<and> unat (cur_connection_number w) = n \<and> (\<forall>j < n. waits_on w (number j))"

lemma deliver_room:
  assumes "has_room w number n"
  shows "returns (deliver memory (map number [0..<n]) w os) (\<lambda>(w1, os1). serves_all w1 number n)"
proof -
  have "inj_on number {..<n}" using assms by (simp add: has_room_def)
  then have "distinct (map number [0..<n])" by (simp add: distinct_map atLeast0LessThan)
  then have "returns (deliver memory (map number [0..<n]) w os) (\<lambda>(w1, os1). worker_wf w1 \<and>
      unat (cur_connection_number w1) = unat (cur_connection_number w) + length (map number [0..<n]) \<and>
      (\<forall>f. waits_on w f \<or> f \<in> set (map number [0..<n]) \<longrightarrow> waits_on w1 f))"
    using assms by (intro deliver_installs) (auto simp: has_room_def)
  then show ?thesis by (rule returns_mono) (use assms in \<open>auto simp: serves_all_def has_room_def\<close>)
qed

lemma deliver_all_room:
  assumes "\<forall>j < length ws. has_room (fst (ws ! j)) (number (i + j)) (length (sent_over (socket_of srv (i + j)) es))"
  shows "returns (deliver_all memory srv es number i ws) (\<lambda>ws1. length ws1 = length ws \<and>
    (\<forall>j < length ws. serves_all (fst (ws1 ! j)) (number (i + j)) (length (sent_over (socket_of srv (i + j)) es))))"
  using assms
proof (induction ws arbitrary: i)
  case (Cons s ws)
  obtain w os where s: "s = (w, os)" by (cases s)
  let ?n = "\<lambda>i. length (sent_over (socket_of srv i) es)"
  have "has_room w (number i) (?n i)" using Cons.prems [rule_format, of 0] s by simp
  from deliver_room [OF this, of memory os] obtain w1 os1 where
    d: "deliver memory (map (number i) [0..<?n i]) w os = Inr (w1, os1)" "serves_all w1 (number i) (?n i)" by (auto simp: returns_iff)
  have "returns (deliver_all memory srv es number (Suc i) ws) (\<lambda>ws1. length ws1 = length ws \<and>
      (\<forall>j < length ws. serves_all (fst (ws1 ! j)) (number (Suc i + j)) (?n (Suc i + j))))"
    using Cons.prems by (intro Cons.IH) force
  then obtain ws1 where rest: "deliver_all memory srv es number (Suc i) ws = Inr ws1" "length ws1 = length ws"
      "\<forall>j < length ws. serves_all (fst (ws1 ! j)) (number (Suc i + j)) (?n (Suc i + j))" by (auto simp: returns_iff)
  have "serves_all (fst (((w1, os1) # ws1) ! j)) (number (i + j)) (?n (i + j))" if "j < length (s # ws)" for j
    using that d(2) rest(3) by (cases j) simp_all
  with s d(1) rest(1,2) show ?case by simp
qed simp

section \<open>What the master sends\<close>

text \<open>Over the socket of worker \<open>i\<close> of \<open>k\<close> go the clients whose number in the order of arrival is \<open>i\<close> modulo \<open>k\<close>, in that order.\<close>

definition every_kth :: "nat \<Rightarrow> nat \<Rightarrow> nat \<Rightarrow> int list \<Rightarrow> int list" where
  "every_kth k i n fds = map snd (filter (\<lambda>(m, fd). m mod k = i) (enumerate n fds))"

lemma every_kth_simps [simp]: "every_kth k i n [] = []"
  "every_kth k i n (fd # fds) = (if n mod k = i then fd # every_kth k i (Suc n) fds else every_kth k i (Suc n) fds)"
  by (simp_all add: every_kth_def)

lemma length_every_kth: "i < k \<Longrightarrow> turn_count k n i + length (every_kth k i n fds) = turn_count k (n + length fds) i"
proof (induction fds arbitrary: n)
  case (Cons fd fds)
  from Cons.IH [OF Cons.prems, of "Suc n"] turn_count_Suc [OF Cons.prems, of n] show ?case by auto
qed simp

lemma sent_over_deal:
  assumes "sockets_differ srv" and "i < length (child srv)"
  shows "sent_over (socket_of srv i) (deal srv n fds) = every_kth (length (child srv)) i n fds"
proof (induction fds arbitrary: n)
  case (Cons fd fds)
  have "n mod length (child srv) < length (child srv)" using assms(2) by (intro mod_less_divisor) linarith
  then have "socket_of srv (n mod length (child srv)) = socket_of srv i \<longleftrightarrow> n mod length (child srv) = i"
    using assms by (auto simp: sockets_differ_def)
  with Cons.IH [of "Suc n"] show ?case by simp
qed simp

section \<open>Properties\<close>

text \<open>
  C6: From the listening socket to the workers. While all workers run and sending succeeds, every client the master accepts
  reaches exactly one worker, client \<open>m\<close> of the order of arrival the worker \<open>m mod k\<close> of \<open>k\<close>, and in that order; when the workers
  have taken what waits on their sockets, each has exactly one connection for each of its clients, on a descriptor of its
  own, waiting for the request. So the loads differ by at most one, and no client is lost.
\<close>

theorem clients_reach_their_workers:
  assumes "dealt srv 0" and "sockets_differ srv" and "\<forall>fd \<in> set fds. 0 \<le> fd" and "0 \<le> r"
    and "length fds \<le> length (child srv) * (2 ^ 32 - 1)" and "length ws = length (child srv)"
    and "\<forall>i < length ws. has_room (fst (ws ! i)) (number i) (turn_count (length ws) (length fds) i)"
  shows "\<exists>srv' es ws1. master_loop (map (client_round (\<lambda>_. r)) fds) srv no_signals [] = Inr (False, srv', no_signals, es) \<and>
    deliver_all memory srv es number 0 ws = Inr ws1 \<and> length ws1 = length ws \<and>
    (\<forall>i < length ws. sent_over (socket_of srv i) es = every_kth (length ws) i 0 fds \<and>
       length (every_kth (length ws) i 0 fds) = turn_count (length ws) (length fds) i \<and>
       serves_all (fst (ws1 ! i)) (number i) (turn_count (length ws) (length fds) i))"
proof -
  obtain srv' where m: "master_loop (map (client_round (\<lambda>_. r)) fds) srv no_signals [] = Inr (False, srv', no_signals, deal srv 0 fds)"
    using master_deals [OF assms(1,3,4), of "[]"] assms(5) by auto
  let ?es = "deal srv 0 fds"
  have sent: "sent_over (socket_of srv i) ?es = every_kth (length ws) i 0 fds" if "i < length ws" for i
    using sent_over_deal [OF assms(2)] that assms(6) by simp
  have n: "length (every_kth (length ws) i 0 fds) = turn_count (length ws) (length fds) i" if "i < length ws" for i
    using length_every_kth [OF that, of 0 fds] by (simp add: turn_count_def)
  have "returns (deliver_all memory srv ?es number 0 ws) (\<lambda>ws1. length ws1 = length ws \<and>
      (\<forall>j < length ws. serves_all (fst (ws1 ! j)) (number (0 + j)) (length (sent_over (socket_of srv (0 + j)) ?es))))"
    using assms(7) sent n by (intro deliver_all_room) simp
  with m sent n show ?thesis by (auto simp: returns_iff)
qed

theorem clients_reach_their_workers_witness:
  "\<exists>w os es w1 os1 w2 os2. unat (cur_connection_number w) = 0 \<and>
    deliver_all (sample_connection []) two_workers es (\<lambda>i j. 7 + int j) 0 [(w, os), (w, os)] = Inr [(w1, os1), (w2, os2)] \<and>
    sent_over 4 es = [8, 9] \<and> sent_over 6 es = [8] \<and> waits_on w1 7 \<and> waits_on w1 8 \<and> waits_on w2 7 \<and>
    unat (cur_connection_number w1) = 2 \<and> unat (cur_connection_number w2) = 1"
proof -
  obtain w os where s: "worker_start (\<lambda>_. 5) 0 3 named_config 16 4 started_os = Inr (w, os)" "max_fd (conn_ev w) = 16"
    using start_returns by blast
  note wf = worker_start_wf [OF s(1)]
  have room: "has_room w (\<lambda>j. 7 + int j) n" if "n \<le> 2" for n
    using wf s(2) that by (auto simp: has_room_def own_handler_def inj_on_def)
  have two: "dealt two_workers 0" "sockets_differ two_workers" "length (child two_workers) = 2"
    by (simp_all add: dealt_def server_wf_def sockets_differ_def socket_of_def turn_count_def)
  let ?fds = "[8, 8, 9] :: int list" and ?ws = "[(w, os), (w, os)]"
  have lens: "length ?ws = 2" "length ?fds = 3" by simp_all
  have t: "turn_count 2 3 0 = 2" "turn_count 2 3 1 = 1" by (simp_all add: turn_count_def)
  have ws: "\<forall>i < length ?ws. has_room (fst (?ws ! i)) (\<lambda>j. 7 + int j) (turn_count (length ?ws) (length ?fds) i)"
    unfolding lens
  proof (intro allI impI)
    fix i :: nat
    assume "i < 2"
    then consider "i = 0" | "i = 1" by linarith
    then show "has_room (fst (?ws ! i)) (\<lambda>j. 7 + int j) (turn_count 2 3 i)"
      by cases (use room t in simp_all)
  qed
  have prem: "\<forall>fd \<in> set ?fds. 0 \<le> fd" "(0 :: int) \<le> 1" "length ?fds \<le> length (child two_workers) * (2 ^ 32 - 1)"
      "length ?ws = length (child two_workers)" by simp_all
  from clients_reach_their_workers [OF two(1,2) prem ws, of "sample_connection []"] obtain es ws1 where
    r: "deliver_all (sample_connection []) two_workers es (\<lambda>i j. 7 + int j) 0 ?ws = Inr ws1" "length ws1 = length ?ws"
      "\<forall>i < length ?ws. sent_over (socket_of two_workers i) es = every_kth (length ?ws) i 0 ?fds \<and>
         length (every_kth (length ?ws) i 0 ?fds) = turn_count (length ?ws) (length ?fds) i \<and>
         serves_all (fst (ws1 ! i)) (\<lambda>j. 7 + int j) (turn_count (length ?ws) (length ?fds) i)" by blast
  note r3 = r(3) [unfolded lens]
  obtain w1 os1 w2 os2 where ws1: "ws1 = [(w1, os1), (w2, os2)]"
    using r(2) unfolding lens by (auto simp: numeral_eq_Suc length_Suc_conv)
  have "sent_over 4 es = [8, 9]" "sent_over 6 es = [8]" "serves_all w1 (\<lambda>j. 7 + int j) 2" "serves_all w2 (\<lambda>j. 7 + int j) 1"
    using r3 [rule_format, of 0, unfolded t(1)] r3 [rule_format, of 1, unfolded t(2)] ws1 by (simp_all add: socket_of_def)
  then show ?thesis
    using r(1) ws1 wf by (intro exI [of _ w] exI [of _ os] exI [of _ es] exI [of _ w1] exI [of _ os1] exI [of _ w2] exI [of _ os2])
      (auto simp: serves_all_def dest: spec [of _ 0] spec [of _ 1] simp del: deliver_all.simps)
qed

end
