(* ===== verification/Spec2Isabelle.thy ===== *)
theory Spec2Isabelle
  imports Buffer Chunk Memory CLib Key_Map State Request Response Fdevents Os Conn_Read Conn_Head Conn_Write Machine Worker Serve Sound Server Log Sockets
    Daemonize Start Process Program System
begin

text \<open>
  A verification library for minihttpd, a small HTTP server in C++ (the files under \<open>src/\<close>).

  \<^bold>\<open>The program.\<close> A master process (\<open>main.cpp\<close>, \<open>server.cpp\<close>) reads its options and defaults, opens its log and a listening
  socket, forks a fixed number of workers and then only accepts clients: each descriptor is sent over a unix socket
  (\<open>unix_socket.cpp\<close>) to the worker that was sent the fewest, and closed. A worker (\<open>main.cpp\<close>, \<open>worker.cpp\<close>) waits with epoll
  for its unix socket, its timer and its connections; a table (\<open>fdevents.cpp\<close>) gives the handler of a descriptor. A
  connection (\<open>connection.cpp\<close>) is a state machine of ten states: it reads into a queue of chunks (\<open>chunk.cpp\<close>, made of the
  buffers of \<open>buffer.cpp\<close>), finds the end of the request head, parses it (\<open>request.cpp\<close>), looks the file or directory up
  (\<open>response.cpp\<close>, with the tables of \<open>key_map.cpp\<close>), queues head and body, and writes the queue until it is empty; then it is
  closed or waits for the next request. The timer shuts idle connections down and closes those whose client does not.

  \<^bold>\<open>Theories and code.\<close> Definitions have the names of the C++ functions and types; loops that are part of a function have
  names of their own. In the order of the imports:
  \<^item> \<open>Prelude\<close>: machine words, the faults a run can end in (null pointers, access out of bounds or to uninitialised bytes, failed
    assertions, loops that do not end), memory cells and C pointers, and the predicates \<open>returns\<close> and \<open>ensures\<close> that carry the
    proofs; \<open>CLib\<close>: the C library functions on strings.
  \<^item> \<open>Buffer\<close> (\<open>buffer.cpp\<close>): blocks of optional bytes, so that reading uninitialised or foreign memory is a fault.
    \<open>buffer_holds\<close> relates a buffer to its string. \<open>Chunk\<close> (\<open>chunk.cpp\<close>): the linked lists on an explicit heap;
    \<open>queue_rel\<close> relates a queue to the list of its chunks and so to its byte stream. \<open>Memory\<close>: the blocks that buffers, requests,
    responses, the mime table, the configuration, the event table and the server own, and the functions that free them; the
    other theories describe these objects by their values.
  \<^item> \<open>Key_Map\<close> (\<open>key_map.cpp\<close>), \<open>State\<close> (\<open>config.cpp\<close> and the records of requests, responses and connections).
  \<^item> \<open>Request\<close> (\<open>request.cpp\<close>): the parser, which scans and cuts the text in place. \<open>Response\<close> (\<open>response.cpp\<close>): files, directories
    and their pages. \<open>Fdevents\<close> (\<open>fdevents.cpp\<close>). \<open>Os\<close>: the system calls, see below.
  \<^item> \<open>Conn_Read\<close>, \<open>Conn_Head\<close>, \<open>Conn_Write\<close>, \<open>Machine\<close> (\<open>connection.cpp\<close>): receiving, response heads and error pages, sending, and the
    state machine with closing and freeing. \<open>Worker\<close> (\<open>worker.cpp\<close>, \<open>main.cpp\<close> 248 to 364): the table of connections, the
    handlers, start, loop and end of a worker. No code: \<open>Serve\<close>, the whole way of a request and its specification; \<open>Sound\<close>, the
    freedom of workers from faults.
  \<^item> \<open>Server\<close> (\<open>server.cpp\<close>, \<open>main.cpp\<close> otherwise): the master. \<open>Log\<close> (\<open>log.cpp\<close>). \<open>Sockets\<close> (\<open>tcp_socket.cpp\<close>, \<open>unix_socket.cpp\<close>).
    \<open>Daemonize\<close> (\<open>daemonize.cpp\<close>): the master as a daemon. \<open>Start\<close> (\<open>main.cpp\<close> 59 to 245): the start as a whole. \<open>Process\<close>
    (\<open>main.cpp\<close> 248 to 366): the process of a worker as a whole. \<open>Program\<close> (\<open>main.cpp\<close> 59 to 505): all of \<open>main\<close>. \<open>System\<close>: no code, the master and its workers together.

  \<^bold>\<open>The environment.\<close> Inside a worker a system call is answered by an arbitrary function of the number of calls made so far
  (\<open>Os.os_env\<close>) and recorded in a trace, so a theorem for every environment holds for every behaviour of the kernel, failures and
  short writes included; files and directories are a function from paths (\<open>fs\<close>). The master's start and rounds are given the
  answers of its calls and the signals that arrive in them; a process that becomes a daemon is a record of what POSIX says its
  calls change. Descriptors sent over a unix socket arrive in order, each as a message of its own. What \<open>malloc\<close> returns is uninitialised.

  \<^bold>\<open>What the lemmas show.\<close> For each component, that its operations keep its invariant, never fault on states that satisfy it, and do what
  an abstract view says: buffers as strings, queues as byte streams, the event table as a map and a set of
  interests, the worker's table as a set of live connections. The interfaces are locales, interpreted on these models:
  \<open>byte_sink\<close> (what appending promises), \<open>owner\<close> and \<open>lifecycle\<close> (what freeing and making an object promise), \<open>send_queue\<close> (what acknowledging sent bytes promises), \<open>event_table\<close>, \<open>run_keeps\<close>
  (runs of steps that keep an invariant) and \<open>safe_run\<close> (runs of steps that return from the states of an invariant). Above them:
  \<^item> the way of a request: the parser returns the parts of a rendered request and never leaves its buffers; the head is found across
    chunk borders; the bytes on the wire and those still queued are the response; \<open>Serve\<close> composes these into: what a client
    receives is a prefix of the reply the reference definition \<open>reply_to\<close> gives, and all of it when the connection waits again;
  \<^item> the worker: the invariant of the process from start to end, events reach their owners, idle connections end, no slot or
    descriptor is left behind;
  \<^item> no faults: \<open>Sound\<close> gives each of the ten states of a connection an invariant and shows progress and preservation for every step, so that
    every event of a worker is handled without a fault, under conditions on kernel, files and requests (\<open>site_env\<close>, \<open>event_ok\<close>) that
    exclude the weak points below and sizes for which counters wrap; \<open>Start\<close> shows that the configuration \<open>main\<close> sets up meets its part of them,
    and \<open>Process\<close> how a worker with it lives from its \<open>fork\<close> to its exit: under the same conditions it fails an assertion if it
    gets no epoll or no timer, whose creation is not checked, and has no other fault;
  \<^item> the master: dealing to the least loaded worker is dealing in turn, every client's descriptor is closed once, ended workers get no
    client, the loop ends exactly when it is told to; the start ends as an exit, a master or a worker, as a reference function of the system's
    answers (\<open>start_stops\<close>) says, an exit having closed exactly the descriptors that are named; and the whole
    run of the program in each of these processes ends, or goes on, as these answers decide;
    with the workers, every client the master accepts gets a connection of its own, in turn;
  \<^item> errors: what the code does at its weak points, as theorems over concrete conditions (a full first read of a multiple of 64 bytes, an empty method or URL,
    EAGAIN from \<open>writev\<close>, an event for a connection closed in the same batch, a SIGCHLD lost before the flag's reset, a long message for
    \<open>syslog\<close>), and the
    blocks that are never given back: two for each request, and the contents of the configuration when the program ends.

  \<^bold>\<open>Bounds and fuel.\<close> Words are 32 bits wide and wrap. Loops over chunk lists have fuel \<open>Suc (brk q)\<close>, more than there are chunks;
  the write loop has \<open>write_fuel\<close>, more than bytes and chunks to send; the state machine has \<open>machine_fuel\<close>, twelve rounds, and
  every change of state lowers a rank. Each is proved to be enough: no well-formed state reaches \<open>Diverges\<close>. Sizes of
  queues and requests are assumed below \<open>2 ^ 31\<close> or \<open>2 ^ 32\<close> where the code's counters need it. \<open>Sound\<close> asks for reads below 256 MiB that
  leave room for the NUL behind them (\<open>read_fits\<close>), files below 1 GiB, directories of less than 250000 entries, and a limit of
  1 MiB for the head of a request, so that no counter wraps; the default limit is 64 KiB. \<open>Daemonize\<close> asks for a limit of
  descriptors below \<open>2 ^ 31\<close>, as its loop counts them with a signed integer.

  \<^bold>\<open>Not modelled.\<close> the layout of control messages and socket addresses, what is logged by the master and
  the handlers (the log itself is modelled), the interval of a worker's timer, the addresses of buffers outside
  \<open>Memory\<close> (there their blocks are values), the installation of the signal handlers (main.cpp 205 to 212) and signals
  other than the four they are installed for, and that what a worker inherits through \<open>fork\<close> is more than the state
  of the server.
\<close>

end
